(* ===== verification/Prelude_RedDB.thy ===== *)
theory Prelude_RedDB
  imports Main
    "HOL-Library.Word"
    "HOL-Library.AList"
    "HOL-Library.Char_ord"
    "HOL-Library.List_Lexorder"
    "HOL-Library.Product_Lexorder"
begin

section \<open>Shared vocabulary of the RedDB development\<close>

text \<open>
  The prelude of the library. It fixes how the Rust vocabulary of the repository is read in HOL and
  proves the facts every component uses:
  \<^item> machine counters (\<open>u64\<close>, \<open>u32\<close>, \<open>usize\<close>) as \<open>nat\<close> with the wrap-around, the saturation or the
    checked failure of the source written out, as the release profile compiles them (no overflow
    checks, so a plain \<open>+\<close> wraps);
  \<^item> bytes as \<open>8 word\<close> and byte strings as lists of them;
  \<^item> \<open>Result\<close> as the sum type (\<open>Inl\<close> the error), with \<open>and_then\<close>, \<open>ok_or\<close> and a fallible fold;
  \<^item> \<open>HashMap\<close> as an association list with distinct keys (\<open>hput\<close>, \<open>hdel\<close>, \<open>map_of\<close>).
  The collections \<open>map_simps\<close>, \<open>result_simps\<close> and \<open>byte_simps\<close> carry the component proofs.
\<close>

named_theorems map_simps "lookups and key sets of the map operations"
named_theorems result_simps "unfolding of the Result combinators"
named_theorems byte_simps "lengths and round trips of the byte encodings"

subsection \<open>Machine integers\<close>

type_synonym byte = "8 word"
type_synonym bytes = "byte list"

definition u64_max :: nat where
  "u64_max = 2 ^ 64 - 1"

definition u32_max :: nat where
  "u32_max = 2 ^ 32 - 1"

definition wrapping_add64 :: "nat \<Rightarrow> nat \<Rightarrow> nat" where
  "wrapping_add64 a b = (a + b) mod 2 ^ 64"

definition saturating_add64 :: "nat \<Rightarrow> nat \<Rightarrow> nat" where
  "saturating_add64 a b = min (a + b) u64_max"

definition checked_add64 :: "nat \<Rightarrow> nat \<Rightarrow> nat option" where
  "checked_add64 a b = (if a + b \<le> u64_max then Some (a + b) else None)"

lemma wrapping_add64_no_wrap: "a + b \<le> u64_max \<Longrightarrow> wrapping_add64 a b = a + b"
  by (simp add: wrapping_add64_def u64_max_def)

lemma wrapping_add64_Suc: "a < u64_max \<Longrightarrow> wrapping_add64 a (Suc 0) = Suc a"
  using wrapping_add64_no_wrap [of a "Suc 0"] by simp

lemma saturating_add64_le: "saturating_add64 a b \<le> a + b"
  by (simp add: saturating_add64_def)

lemma saturating_add64_bound: "saturating_add64 a b \<le> u64_max"
  by (simp add: saturating_add64_def)

lemma saturating_add64_mono_self: "a \<le> u64_max \<Longrightarrow> a \<le> saturating_add64 a b"
  by (simp add: saturating_add64_def)

lemma saturating_succ_le: "x < y \<Longrightarrow> y \<le> u64_max \<Longrightarrow> saturating_add64 x 1 \<le> y"
  by (simp add: saturating_add64_def)

lemma checked_add64_Some: "checked_add64 a b = Some c \<longleftrightarrow> c = a + b \<and> c \<le> u64_max"
  by (auto simp: checked_add64_def)

subsection \<open>Results\<close>

definition and_then :: "'e + 'a \<Rightarrow> ('a \<Rightarrow> 'e + 'b) \<Rightarrow> 'e + 'b" where
  "and_then r f = (case r of Inl e \<Rightarrow> Inl e | Inr x \<Rightarrow> f x)"

definition ok_or :: "'a option \<Rightarrow> 'e \<Rightarrow> 'e + 'a" where
  "ok_or x e = (case x of None \<Rightarrow> Inl e | Some y \<Rightarrow> Inr y)"

definition map_err :: "('e \<Rightarrow> 'f) \<Rightarrow> 'e + 'a \<Rightarrow> 'f + 'a" where
  "map_err f r = (case r of Inl e \<Rightarrow> Inl (f e) | Inr x \<Rightarrow> Inr x)"

definition ensure :: "bool \<Rightarrow> 'e \<Rightarrow> 'e + unit" where
  "ensure b e = (if b then Inr () else Inl e)"

fun try_fold :: "('s \<Rightarrow> 'a \<Rightarrow> 'e + 's) \<Rightarrow> 's \<Rightarrow> 'a list \<Rightarrow> 'e + 's" where
  "try_fold f s [] = Inr s"
| "try_fold f s (x # xs) = and_then (f s x) (\<lambda>s'. try_fold f s' xs)"

lemma and_then_simps [simp, result_simps]:
  "and_then (Inl e) f = Inl e"
  "and_then (Inr x) f = f x"
  by (simp_all add: and_then_def)

lemma and_then_Inr [result_simps]:
  "and_then r f = Inr y \<longleftrightarrow> (\<exists>x. r = Inr x \<and> f x = Inr y)"
  by (cases r) auto

lemma and_then_Inl [result_simps]:
  "and_then r f = Inl e \<longleftrightarrow> r = Inl e \<or> (\<exists>x. r = Inr x \<and> f x = Inl e)"
  by (cases r) auto

lemma and_then_assoc: "and_then (and_then r f) g = and_then r (\<lambda>x. and_then (f x) g)"
  by (cases r) auto

lemma ok_or_simps [simp, result_simps]:
  "ok_or None e = Inl e"
  "ok_or (Some y) e = Inr y"
  by (simp_all add: ok_or_def)

lemma ok_or_Inr [result_simps]: "ok_or x e = Inr y \<longleftrightarrow> x = Some y"
  by (cases x) auto

lemma map_err_simps [simp, result_simps]:
  "map_err f (Inl e) = Inl (f e)"
  "map_err f (Inr x) = Inr x"
  by (simp_all add: map_err_def)

lemma map_err_Inr [result_simps]: "map_err f r = Inr x \<longleftrightarrow> r = Inr x"
  by (cases r) auto

lemma ensure_simps [simp, result_simps]:
  "ensure True e = Inr ()"
  "ensure False e = Inl e"
  by (simp_all add: ensure_def)

lemma ensure_Inr [result_simps]: "ensure b e = Inr u \<longleftrightarrow> b"
  by (cases b) auto

lemma try_fold_append:
  "try_fold f s (xs @ ys) = and_then (try_fold f s xs) (\<lambda>s'. try_fold f s' ys)"
  by (induction xs arbitrary: s) (auto simp: and_then_assoc)

lemma try_fold_invariant:
  assumes "\<And>s x s'. x \<in> set xs \<Longrightarrow> I s \<Longrightarrow> f s x = Inr s' \<Longrightarrow> I s'"
    and "I s" and "try_fold f s xs = Inr s'"
  shows "I s'"
  using assms
proof (induction xs arbitrary: s)
  case Nil
  then show ?case by simp
next
  case (Cons x xs)
  from Cons.prems(3) obtain t where t: "f s x = Inr t" and rest: "try_fold f t xs = Inr s'"
    by (auto simp: and_then_Inr)
  have "I t"
    using Cons.prems(1) [OF _ Cons.prems(2) t] by simp
  with Cons.prems(1) rest show ?case
    by (intro Cons.IH [of t]) auto
qed

subsection \<open>Hash maps\<close>

type_synonym ('k, 'v) hmap = "('k \<times> 'v) list"

abbreviation hget :: "('k, 'v) hmap \<Rightarrow> 'k \<Rightarrow> 'v option" where
  "hget m k \<equiv> map_of m k"

abbreviation hput :: "'k \<Rightarrow> 'v \<Rightarrow> ('k, 'v) hmap \<Rightarrow> ('k, 'v) hmap" where
  "hput k v m \<equiv> AList.update k v m"

abbreviation hdel :: "'k \<Rightarrow> ('k, 'v) hmap \<Rightarrow> ('k, 'v) hmap" where
  "hdel k m \<equiv> AList.delete k m"

definition hkeys :: "('k, 'v) hmap \<Rightarrow> 'k set" where
  "hkeys m = fst ` set m"

definition hvals :: "('k, 'v) hmap \<Rightarrow> 'v set" where
  "hvals m = snd ` set m"

definition hmap_wf :: "('k, 'v) hmap \<Rightarrow> bool" where
  "hmap_wf m \<longleftrightarrow> distinct (map fst m)"

definition hmap_values :: "('k \<Rightarrow> 'v \<Rightarrow> 'w) \<Rightarrow> ('k, 'v) hmap \<Rightarrow> ('k, 'w) hmap" where
  "hmap_values f m = map (\<lambda>(k, v). (k, f k v)) m"

lemma hget_hput [simp, map_simps]: "hget (hput k v m) k' = (if k' = k then Some v else hget m k')"
  by (simp add: update_conv)

lemma hget_hdel [simp, map_simps]: "hget (hdel k m) k' = (if k' = k then None else hget m k')"
  by (simp add: delete_conv)

lemma hkeys_dom: "hkeys m = dom (map_of m)"
  by (simp add: hkeys_def dom_map_of_conv_image_fst)

lemma hkeys_simps [simp, map_simps]:
  "hkeys [] = {}"
  "hkeys (hput k v m) = insert k (hkeys m)"
  "hkeys (hdel k m) = hkeys m - {k}"
  by (auto simp: hkeys_dom dom_def split: if_splits)

lemma hkeys_hmap_values [simp, map_simps]: "hkeys (hmap_values f m) = hkeys m"
  by (force simp: hkeys_def hmap_values_def)

lemma hget_None_iff [map_simps]: "hget m k = None \<longleftrightarrow> k \<notin> hkeys m"
  by (simp add: hkeys_def map_of_eq_None_iff)

lemma hkeys_iff: "k \<in> hkeys m \<longleftrightarrow> (\<exists>v. hget m k = Some v)"
  by (metis hget_None_iff not_None_eq)

lemma hget_in_hkeys: "hget m k = Some v \<Longrightarrow> k \<in> hkeys m"
  by (simp add: hkeys_iff)

lemma finite_hkeys [simp, intro]: "finite (hkeys m)"
  by (simp add: hkeys_def)

lemma finite_hvals [simp, intro]: "finite (hvals m)"
  by (simp add: hvals_def)

lemma hvals_iff: "hmap_wf m \<Longrightarrow> v \<in> hvals m \<longleftrightarrow> (\<exists>k. hget m k = Some v)"
  by (force simp: hvals_def hmap_wf_def)

lemma hget_in_hvals: "hget m k = Some v \<Longrightarrow> v \<in> hvals m"
  by (force simp: hvals_def dest: map_of_SomeD)

lemma hget_hmap_values [simp, map_simps]: "hget (hmap_values f m) k = map_option (f k) (hget m k)"
  by (induction m) (auto simp: hmap_values_def)

lemma hmap_wf_simps [simp, intro]:
  "hmap_wf []"
  "hmap_wf m \<Longrightarrow> hmap_wf (hput k v m)"
  "hmap_wf m \<Longrightarrow> hmap_wf (hdel k m)"
  "hmap_wf m \<Longrightarrow> hmap_wf (hmap_values f m)"
  by (auto simp: hmap_wf_def hmap_values_def distinct_update distinct_delete comp_def case_prod_unfold)

lemma hmap_wf_map_of_eq: "hmap_wf m \<Longrightarrow> (k, v) \<in> set m \<longleftrightarrow> hget m k = Some v"
  by (simp add: hmap_wf_def)

end
