(* ===== verification/Visibility.thy ===== *)
theory Visibility
  imports Prelude_RedDB
begin

section \<open>The MVCC visibility predicate\<close>

text \<open>
  \<open>src/crates/reddb-engine/src/transaction/visibility.rs\<close> and the \<open>Snapshot\<close> type of
  \<open>transaction/snapshot.rs\<close>. A transaction identifier is a \<open>u64\<close>, read as a \<open>nat\<close>; the sets the code
  keeps in \<open>HashSet\<close>s are finite HOL sets. \<open>is_visible\<close> keeps the order of the checks of the source;
  \<open>writer_committed_before\<close> is the abstract reading of its seven rules.
\<close>

type_synonym xid = nat

definition xid_none :: xid where
  "xid_none = 0"

record snapshot =
  snap_xid :: xid
  snap_in_progress :: "xid set"

definition is_visible :: "xid \<Rightarrow> xid \<Rightarrow> xid \<Rightarrow> xid set \<Rightarrow> xid set \<Rightarrow> bool" where
  "is_visible xmin xmax snapshot_xid in_progress aborted =
     (if xmin \<noteq> xid_none \<and> xmin > snapshot_xid then False
      else if xmin \<noteq> xid_none \<and> xmin \<in> in_progress then False
      else if xmin \<noteq> xid_none \<and> xmin \<in> aborted then False
      else if xmax \<noteq> xid_none \<and> xmax \<le> snapshot_xid \<and> xmax \<notin> in_progress \<and> xmax \<notin> aborted
        then False
      else True)"

definition sees :: "snapshot \<Rightarrow> xid \<Rightarrow> xid \<Rightarrow> bool" where
  "sees s xmin xmax = is_visible xmin xmax (snap_xid s) (snap_in_progress s) {}"

text \<open>
  The abstract reading: a transaction counts for a reader exactly when it had committed before the
  reader's snapshot opened.
\<close>

definition writer_committed_before :: "xid \<Rightarrow> xid set \<Rightarrow> xid set \<Rightarrow> xid \<Rightarrow> bool" where
  "writer_committed_before snapshot_xid in_progress aborted x \<longleftrightarrow>
     x \<le> snapshot_xid \<and> x \<notin> in_progress \<and> x \<notin> aborted"

lemma is_visible_iff:
  "is_visible xmin xmax sx ip ab \<longleftrightarrow>
     (xmin = 0 \<or> writer_committed_before sx ip ab xmin) \<and>
     (xmax = 0 \<or> \<not> writer_committed_before sx ip ab xmax)"
  by (auto simp: is_visible_def xid_none_def writer_committed_before_def)

text \<open>What a snapshot excludes: the writers it must not see.\<close>

definition excludes :: "snapshot \<Rightarrow> xid \<Rightarrow> bool" where
  "excludes s x \<longleftrightarrow> snap_xid s < x \<or> x \<in> snap_in_progress s"

lemma sees_iff:
  "sees s xmin xmax \<longleftrightarrow> (xmin = 0 \<or> \<not> excludes s xmin) \<and> (xmax = 0 \<or> excludes s xmax)"
  by (auto simp: sees_def is_visible_iff writer_committed_before_def excludes_def)

lemma excluded_insert_hidden: "excludes s x \<Longrightarrow> x \<noteq> 0 \<Longrightarrow> \<not> sees s x xmax"
  by (simp add: sees_iff)

lemma excluded_delete_ignored: "excludes s x \<Longrightarrow> sees s xmin x = sees s xmin 0"
  by (auto simp: sees_iff)

lemma visible_row_deleter_excluded: "sees s xmin xmax \<Longrightarrow> xmax \<noteq> 0 \<Longrightarrow> excludes s xmax"
  by (simp add: sees_iff)

end
