(* ===== verification/Snapshot_Manager.thy ===== *)
theory Snapshot_Manager
  imports Visibility
begin

section \<open>The snapshot manager\<close>

text \<open>
  \<open>src/crates/reddb-engine/src/transaction/snapshot.rs\<close>: the xid allocator, the active, aborted and
  pinned sets, the retention horizons that bound garbage collection, the autocommit reservation pool
  and the serializable (SSI) read/write tracking.

  Every public method of \<open>SnapshotManager\<close> runs under the state lock, the pool lock or both, and
  every write of \<open>next_xid\<close> happens under the pool lock, so a method is one atomic step: a definition
  takes the manager and returns the new one. \<open>next_xid.fetch_add\<close> wraps at \<open>2\<^sup>6\<^sup>4\<close> as the atomic does;
  the compare-exchange loop of \<open>observe_committed_xid\<close> cannot be raced while the pool lock is held and
  is its first successful round. A \<open>panic\<close> (\<open>expect\<close>) is the value \<open>None\<close>.
\<close>

definition autocommit_pool_batch :: nat where
  "autocommit_pool_batch = 16"

record autocommit_pool =
  pool_next :: xid
  pool_end :: xid

type_synonym logical_row_key = "string \<times> nat"

record serializable_txn_state =
  read_set :: "logical_row_key set"
  vault_reads :: "(string \<times> string option \<times> string option) set"
  incoming_rw :: "xid set"
  outgoing_rw :: "xid set"
  ssi_committed :: bool

definition serializable_txn_default :: serializable_txn_state where
  "serializable_txn_default =
     \<lparr>read_set = {}, vault_reads = {}, incoming_rw = {}, outgoing_rw = {}, ssi_committed = False\<rparr>"

record manager_state =
  active :: "xid set"
  snapshot_horizons :: "(xid, xid) hmap"
  statement_horizons :: "(xid, nat) hmap"
  aborted :: "xid set"
  untracked_visibility_revision :: nat
  pinned :: "(xid, nat) hmap"
  serializable :: "(xid, serializable_txn_state) hmap"

record snapshot_manager =
  next_xid :: xid
  visibility_revision :: nat
  mgr :: manager_state
  pool :: autocommit_pool

definition manager_state_default :: manager_state where
  "manager_state_default =
     \<lparr>active = {}, snapshot_horizons = [], statement_horizons = [], aborted = {},
      untracked_visibility_revision = 0, pinned = [], serializable = []\<rparr>"

definition sm_new :: snapshot_manager where
  "sm_new = \<lparr>next_xid = 1, visibility_revision = 0, mgr = manager_state_default,
             pool = \<lparr>pool_next = 0, pool_end = 0\<rparr>\<rparr>"

abbreviation reserved :: "snapshot_manager \<Rightarrow> xid set" where
  "reserved m \<equiv> {pool_next (pool m)..<pool_end (pool m)}"

definition bump_revision :: "snapshot_manager \<Rightarrow> snapshot_manager" where
  "bump_revision m = m\<lparr>visibility_revision := wrapping_add64 (visibility_revision m) 1\<rparr>"

subsection \<open>Allocation and snapshots\<close>

definition sm_begin :: "snapshot_manager \<Rightarrow> xid \<times> snapshot_manager" where
  "sm_begin m =
     (let p = (pool m)\<lparr>pool_next := pool_end (pool m)\<rparr>;
          xid = next_xid m;
          st = (mgr m)\<lparr>active := insert xid (active (mgr m))\<rparr>
      in (xid, bump_revision (m\<lparr>next_xid := wrapping_add64 xid 1, mgr := st, pool := p\<rparr>)))"

definition fresh_read_snapshot :: "snapshot_manager \<Rightarrow> snapshot" where
  "fresh_read_snapshot m =
     \<lparr>snap_xid = next_xid m - 1, snap_in_progress = active (mgr m) \<union> reserved m\<rparr>"

definition retain_horizon :: "snapshot \<Rightarrow> xid" where
  "retain_horizon s = Min (insert (saturating_add64 (snap_xid s) 1) (snap_in_progress s))"

text \<open>The guard is the horizon it releases; \<open>entry(horizon).or_default() += 1\<close>.\<close>

definition retain_snapshot :: "snapshot \<Rightarrow> snapshot_manager \<Rightarrow> xid \<times> snapshot_manager" where
  "retain_snapshot s m =
     (let h = retain_horizon s;
          c = (case hget (statement_horizons (mgr m)) h of None \<Rightarrow> 0 | Some c \<Rightarrow> c);
          st = (mgr m)\<lparr>statement_horizons := hput h (wrapping_add64 c 1) (statement_horizons (mgr m))\<rparr>
      in (h, m\<lparr>mgr := st\<rparr>))"

definition fresh_retained_snapshot :: "snapshot_manager \<Rightarrow> (snapshot \<times> xid) \<times> snapshot_manager" where
  "fresh_retained_snapshot m =
     (let s = fresh_read_snapshot m; (h, m') = retain_snapshot s m in ((s, h), m'))"

definition release_guard :: "xid \<Rightarrow> snapshot_manager \<Rightarrow> snapshot_manager option" where
  "release_guard h m =
     (case hget (statement_horizons (mgr m)) h of
        None \<Rightarrow> None
      | Some c \<Rightarrow>
          Some (m\<lparr>mgr := (mgr m)\<lparr>statement_horizons :=
             (if c = 1 then hdel h (statement_horizons (mgr m))
              else hput h (c - 1) (statement_horizons (mgr m)))\<rparr>\<rparr>))"

definition sm_snapshot :: "xid \<Rightarrow> snapshot_manager \<Rightarrow> snapshot \<times> snapshot_manager" where
  "sm_snapshot x m =
     (let ip = (active (mgr m) - {x}) \<union> reserved m;
          s = \<lparr>snap_xid = x, snap_in_progress = ip\<rparr>;
          h = Min (insert x ip);
          hs = snapshot_horizons (mgr m);
          h' = (case hget hs x of None \<Rightarrow> h | Some prev \<Rightarrow> min prev h)
      in (s, if x \<in> active (mgr m) then m\<lparr>mgr := (mgr m)\<lparr>snapshot_horizons := hput x h' hs\<rparr>\<rparr> else m))"

definition allocate_committed_xid :: "snapshot_manager \<Rightarrow> xid \<times> snapshot_manager" where
  "allocate_committed_xid m =
     (let m1 = (if pool_next (pool m) \<ge> pool_end (pool m)
                then m\<lparr>next_xid := wrapping_add64 (next_xid m) autocommit_pool_batch,
                       pool := \<lparr>pool_next = next_xid m,
                                pool_end = wrapping_add64 (next_xid m) autocommit_pool_batch\<rparr>\<rparr>
                else m);
          x = pool_next (pool m1)
      in (x, m1\<lparr>pool := (pool m1)\<lparr>pool_next := wrapping_add64 x 1\<rparr>\<rparr>))"

subsection \<open>Outcomes\<close>

definition prune_serializable_state :: "manager_state \<Rightarrow> manager_state" where
  "prune_serializable_state st = (if active st = {} then st\<lparr>serializable := []\<rparr> else st)"

definition sm_commit :: "xid \<Rightarrow> snapshot_manager \<Rightarrow> snapshot_manager" where
  "sm_commit x m =
     (let st = mgr m;
          was_active = x \<in> active st;
          was_aborted = x \<in> aborted st;
          ssi = (case hget (serializable st) x of
                   None \<Rightarrow> serializable st
                 | Some t \<Rightarrow> hput x (t\<lparr>ssi_committed := True\<rparr>) (serializable st));
          st' = st\<lparr>active := active st - {x}, snapshot_horizons := hdel x (snapshot_horizons st),
                   aborted := aborted st - {x}, serializable := ssi\<rparr>;
          m' = m\<lparr>mgr := prune_serializable_state st'\<rparr>
      in if was_active \<or> was_aborted then bump_revision m' else m')"

definition drop_rw_edges :: "xid \<Rightarrow> serializable_txn_state \<Rightarrow> serializable_txn_state" where
  "drop_rw_edges x t = t\<lparr>incoming_rw := incoming_rw t - {x}, outgoing_rw := outgoing_rw t - {x}\<rparr>"

definition sm_rollback :: "xid \<Rightarrow> snapshot_manager \<Rightarrow> snapshot_manager option" where
  "sm_rollback x m =
     (let st = mgr m;
          was_active = x \<in> active st;
          newly_aborted = x \<notin> aborted st;
          rev = (if newly_aborted \<and> \<not> was_active
                 then checked_add64 (untracked_visibility_revision st) 1
                 else Some (untracked_visibility_revision st))
      in case rev of
           None \<Rightarrow> None
         | Some r \<Rightarrow>
             (let st' = st\<lparr>active := active st - {x}, snapshot_horizons := hdel x (snapshot_horizons st),
                          aborted := insert x (aborted st), untracked_visibility_revision := r,
                          serializable := hmap_values (\<lambda>_. drop_rw_edges x) (hdel x (serializable st))\<rparr>;
                  m' = m\<lparr>mgr := prune_serializable_state st'\<rparr>
              in Some (if was_active \<or> newly_aborted then bump_revision m' else m')))"

subsection \<open>Serializable tracking\<close>

definition begin_serializable :: "xid \<Rightarrow> snapshot_manager \<Rightarrow> snapshot_manager" where
  "begin_serializable x m =
     (case hget (serializable (mgr m)) x of
        Some _ \<Rightarrow> m
      | None \<Rightarrow> m\<lparr>mgr := (mgr m)\<lparr>serializable := hput x serializable_txn_default (serializable (mgr m))\<rparr>\<rparr>)"

definition update_ssi ::
  "xid \<Rightarrow> (serializable_txn_state \<Rightarrow> serializable_txn_state) \<Rightarrow> manager_state \<Rightarrow> manager_state" where
  "update_ssi x f st =
     (case hget (serializable st) x of
        None \<Rightarrow> st
      | Some t \<Rightarrow> st\<lparr>serializable := hput x (f t) (serializable st)\<rparr>)"

definition record_serializable_read ::
  "xid \<Rightarrow> string \<Rightarrow> nat \<Rightarrow> snapshot_manager \<Rightarrow> snapshot_manager" where
  "record_serializable_read reader collection logical_id m =
     m\<lparr>mgr := update_ssi reader
        (\<lambda>t. t\<lparr>read_set := insert (collection, logical_id) (read_set t)\<rparr>) (mgr m)\<rparr>"

definition record_serializable_vault_read ::
  "xid \<Rightarrow> string \<Rightarrow> string option \<Rightarrow> string option \<Rightarrow> snapshot_manager \<Rightarrow> snapshot_manager" where
  "record_serializable_vault_read reader collection tenant key m =
     m\<lparr>mgr := update_ssi reader
        (\<lambda>t. t\<lparr>vault_reads := insert (collection, tenant, key) (vault_reads t)\<rparr>) (mgr m)\<rparr>"

fun record_rw_edges :: "xid \<Rightarrow> xid list \<Rightarrow> manager_state \<Rightarrow> manager_state" where
  "record_rw_edges writer [] st = st"
| "record_rw_edges writer (reader # readers) st =
     record_rw_edges writer readers
       (update_ssi writer (\<lambda>t. t\<lparr>incoming_rw := insert reader (incoming_rw t)\<rparr>)
         (update_ssi reader (\<lambda>t. t\<lparr>outgoing_rw := insert writer (outgoing_rw t)\<rparr>) st))"

definition dangerous_pivot :: "xid \<Rightarrow> manager_state \<Rightarrow> bool" where
  "dangerous_pivot writer st =
     (case hget (serializable st) writer of
        None \<Rightarrow> False
      | Some t \<Rightarrow>
          incoming_rw t \<noteq> {} \<and>
          (\<exists>x \<in> outgoing_rw t. case hget (serializable st) x of None \<Rightarrow> False | Some u \<Rightarrow> ssi_committed u))"

definition serializable_readers_would_be_dangerous ::
  "xid \<Rightarrow> xid list \<Rightarrow> manager_state \<Rightarrow> bool \<times> manager_state" where
  "serializable_readers_would_be_dangerous writer readers st =
     (let st' = record_rw_edges writer readers st in (dangerous_pivot writer st', st'))"

definition conflicting_readers :: "xid \<Rightarrow> logical_row_key set \<Rightarrow> manager_state \<Rightarrow> xid list" where
  "conflicting_readers writer write_set st =
     map fst (filter (\<lambda>(reader, t). reader \<noteq> writer \<and> read_set t \<inter> write_set \<noteq> {}) (serializable st))"

definition serializable_commit_would_be_dangerous ::
  "xid \<Rightarrow> logical_row_key set \<Rightarrow> snapshot_manager \<Rightarrow> bool \<times> snapshot_manager" where
  "serializable_commit_would_be_dangerous writer write_set m =
     (if write_set = {} then (False, m)
      else if hget (serializable (mgr m)) writer = None then (False, m)
      else (let (b, st) = serializable_readers_would_be_dangerous writer
                            (conflicting_readers writer write_set (mgr m)) (mgr m)
            in (b, m\<lparr>mgr := st\<rparr>)))"

definition vault_read_hit ::
  "(string \<times> string option \<times> string) set \<Rightarrow> string \<times> string option \<times> string option \<Rightarrow> bool" where
  "vault_read_hit write_set =
     (\<lambda>(collection, tenant, key). \<exists>(wc, wt, wk) \<in> write_set.
        collection = wc \<and> tenant = wt \<and> (key = None \<or> key = Some wk))"

definition conflicting_vault_readers ::
  "xid \<Rightarrow> (string \<times> string option \<times> string) set \<Rightarrow> manager_state \<Rightarrow> xid list" where
  "conflicting_vault_readers writer write_set st =
     map fst (filter (\<lambda>(reader, t). reader \<noteq> writer \<and> (\<exists>r \<in> vault_reads t. vault_read_hit write_set r))
       (serializable st))"

definition serializable_vault_commit_would_be_dangerous ::
  "xid \<Rightarrow> (string \<times> string option \<times> string) set \<Rightarrow> snapshot_manager \<Rightarrow> bool \<times> snapshot_manager" where
  "serializable_vault_commit_would_be_dangerous writer write_set m =
     (if hget (serializable (mgr m)) writer = None then (False, m)
      else (let (b, st) = serializable_readers_would_be_dangerous writer
                            (conflicting_vault_readers writer write_set (mgr m)) (mgr m)
            in (b, m\<lparr>mgr := st\<rparr>)))"

subsection \<open>Queries, recovery and pinning\<close>

definition is_aborted :: "xid \<Rightarrow> snapshot_manager \<Rightarrow> bool" where
  "is_aborted x m = (x \<in> aborted (mgr m))"

definition is_active :: "xid \<Rightarrow> snapshot_manager \<Rightarrow> bool" where
  "is_active x m = (x \<in> active (mgr m))"

definition checkpoint_projection_state :: "snapshot_manager \<Rightarrow> nat \<times> xid set \<times> nat" where
  "checkpoint_projection_state m =
     (visibility_revision m, aborted (mgr m) \<union> active (mgr m), untracked_visibility_revision (mgr m))"

definition checkpoint_excluded_state :: "snapshot_manager \<Rightarrow> nat \<times> xid set" where
  "checkpoint_excluded_state m =
     (let (revision, excluded, _) = checkpoint_projection_state m in (revision, excluded))"

definition row_reserves_unique_key :: "xid \<Rightarrow> xid \<Rightarrow> xid set \<Rightarrow> snapshot_manager \<Rightarrow> bool" where
  "row_reserves_unique_key xmin xmax own_xids m =
     (if xmin \<in> aborted (mgr m) then False
      else if xmin \<in> active (mgr m) \<and> xmin \<notin> own_xids then True
      else if xmax = 0 \<or> xmax \<in> aborted (mgr m) then True
      else xmax \<notin> own_xids \<and> xmax \<in> active (mgr m))"

definition min_opt :: "nat set \<Rightarrow> nat option" where
  "min_opt S = (if S = {} then None else Some (Min S))"

definition oldest_active_xid :: "snapshot_manager \<Rightarrow> xid option" where
  "oldest_active_xid m = min_opt (active (mgr m))"

definition oldest_required_xid :: "snapshot_manager \<Rightarrow> xid option" where
  "oldest_required_xid m =
     min_opt (active (mgr m) \<union> hvals (snapshot_horizons (mgr m)) \<union>
              hkeys (statement_horizons (mgr m)) \<union> hkeys (pinned (mgr m)))"

definition oldest_pinned_xid :: "snapshot_manager \<Rightarrow> xid option" where
  "oldest_pinned_xid m = min_opt (hkeys (pinned (mgr m)))"

definition peek_next_xid :: "snapshot_manager \<Rightarrow> xid" where
  "peek_next_xid m = next_xid m"

definition observe_committed_xid :: "xid \<Rightarrow> snapshot_manager \<Rightarrow> snapshot_manager" where
  "observe_committed_xid x m =
     (if x = xid_none then m
      else let target = saturating_add64 x 1;
               p = (pool m)\<lparr>pool_next := max (pool_next (pool m)) (min target (pool_end (pool m)))\<rparr>
           in m\<lparr>pool := p, next_xid := (if next_xid m < target then target else next_xid m)\<rparr>)"

definition prune_aborted :: "xid \<Rightarrow> snapshot_manager \<Rightarrow> snapshot_manager" where
  "prune_aborted below m =
     (let kept = {x \<in> aborted (mgr m). x \<ge> below \<or> x \<in> hkeys (pinned (mgr m))};
          m' = m\<lparr>mgr := (mgr m)\<lparr>aborted := kept\<rparr>\<rparr>
      in if card (aborted (mgr m)) \<noteq> card kept then bump_revision m' else m')"

definition pin :: "xid \<Rightarrow> snapshot_manager \<Rightarrow> snapshot_manager" where
  "pin x m =
     (if x = xid_none then m
      else let c = (case hget (pinned (mgr m)) x of None \<Rightarrow> 0 | Some c \<Rightarrow> c)
           in m\<lparr>mgr := (mgr m)\<lparr>pinned := hput x ((c + 1) mod 2 ^ 32) (pinned (mgr m))\<rparr>\<rparr>)"

definition unpin :: "xid \<Rightarrow> snapshot_manager \<Rightarrow> snapshot_manager" where
  "unpin x m =
     (if x = xid_none then m
      else case hget (pinned (mgr m)) x of
             None \<Rightarrow> m
           | Some c \<Rightarrow> m\<lparr>mgr := (mgr m)\<lparr>pinned :=
               (if c \<le> 1 then hdel x (pinned (mgr m)) else hput x (c - 1) (pinned (mgr m)))\<rparr>\<rparr>)"

definition is_pinned :: "xid \<Rightarrow> snapshot_manager \<Rightarrow> bool" where
  "is_pinned x m = (x \<in> hkeys (pinned (mgr m)))"

definition pin_count :: "xid \<Rightarrow> snapshot_manager \<Rightarrow> nat" where
  "pin_count x m = (case hget (pinned (mgr m)) x of None \<Rightarrow> 0 | Some c \<Rightarrow> c)"

subsection \<open>The manager invariant\<close>

text \<open>
  \<open>sm_wf\<close> is what the locking protocol keeps true between calls: the allocator is ahead of every
  active xid and of the reservation pool, a reserved slot is never active, and horizons are kept for
  active transactions only.
\<close>

definition sm_wf :: "snapshot_manager \<Rightarrow> bool" where
  "sm_wf m \<longleftrightarrow>
     0 < next_xid m \<and> next_xid m \<le> u64_max \<and>
     pool_next (pool m) \<le> pool_end (pool m) \<and> pool_end (pool m) \<le> next_xid m \<and>
     finite (active (mgr m)) \<and> finite (aborted (mgr m)) \<and>
     (\<forall>x \<in> active (mgr m). 0 < x \<and> x < next_xid m) \<and>
     (\<forall>x \<in> reserved m. 0 < x \<and> x \<notin> active (mgr m)) \<and>
     hmap_wf (snapshot_horizons (mgr m)) \<and> hkeys (snapshot_horizons (mgr m)) \<subseteq> active (mgr m) \<and>
     hmap_wf (statement_horizons (mgr m)) \<and> hmap_wf (pinned (mgr m)) \<and> hmap_wf (serializable (mgr m))"

definition issuable :: "snapshot_manager \<Rightarrow> xid set" where
  "issuable m = reserved m \<union> {x. next_xid m \<le> x}"

lemma bump_revision_simps [simp]:
  "next_xid (bump_revision m) = next_xid m"
  "mgr (bump_revision m) = mgr m"
  "pool (bump_revision m) = pool m"
  by (simp_all add: bump_revision_def)

lemma sm_wf_bump [simp]: "sm_wf (bump_revision m) = sm_wf m"
  by (simp add: sm_wf_def)

lemma issuable_bump [simp]: "issuable (bump_revision m) = issuable m"
  by (simp add: issuable_def)

lemma sm_wf_new: "sm_wf sm_new"
  by (simp add: sm_wf_def sm_new_def manager_state_default_def u64_max_def)

lemma active_not_issuable: "sm_wf m \<Longrightarrow> x \<in> active (mgr m) \<Longrightarrow> x \<notin> issuable m"
  by (force simp: sm_wf_def issuable_def)

lemma zero_not_issuable: "sm_wf m \<Longrightarrow> 0 \<notin> issuable m"
  by (auto simp: sm_wf_def issuable_def)

lemma active_nonzero: "sm_wf m \<Longrightarrow> x \<in> active (mgr m) \<Longrightarrow> 0 < x"
  by (simp add: sm_wf_def)

text \<open>Frame facts: an operation on the manager state alone leaves the allocator where it was.\<close>

lemma issuable_mgr [simp]: "issuable (m\<lparr>mgr := st\<rparr>) = issuable m"
  by (simp add: issuable_def)

lemma update_ssi_frame [simp]:
  "active (update_ssi x f st) = active st"
  "aborted (update_ssi x f st) = aborted st"
  "snapshot_horizons (update_ssi x f st) = snapshot_horizons st"
  "statement_horizons (update_ssi x f st) = statement_horizons st"
  "pinned (update_ssi x f st) = pinned st"
  "hkeys (serializable (update_ssi x f st)) = hkeys (serializable st)"
  by (auto simp: update_ssi_def split: option.splits dest: hget_in_hkeys)

lemma update_ssi_wf [simp]: "hmap_wf (serializable st) \<Longrightarrow> hmap_wf (serializable (update_ssi x f st))"
  by (auto simp: update_ssi_def split: option.splits)

lemma hget_update_ssi [simp]:
  "hget (serializable (update_ssi x f st)) y =
     (if y = x then map_option f (hget (serializable st) x) else hget (serializable st) y)"
  by (auto simp: update_ssi_def split: option.splits)

lemma record_rw_edges_frame [simp]:
  "active (record_rw_edges w rs st) = active st"
  "aborted (record_rw_edges w rs st) = aborted st"
  "snapshot_horizons (record_rw_edges w rs st) = snapshot_horizons st"
  "statement_horizons (record_rw_edges w rs st) = statement_horizons st"
  "pinned (record_rw_edges w rs st) = pinned st"
  "hkeys (serializable (record_rw_edges w rs st)) = hkeys (serializable st)"
  by (induction rs arbitrary: st) auto

lemma record_rw_edges_wf [simp]:
  "hmap_wf (serializable st) \<Longrightarrow> hmap_wf (serializable (record_rw_edges w rs st))"
  by (induction rs arbitrary: st) auto

lemma prune_serializable_frame [simp]:
  "active (prune_serializable_state st) = active st"
  "aborted (prune_serializable_state st) = aborted st"
  "snapshot_horizons (prune_serializable_state st) = snapshot_horizons st"
  "statement_horizons (prune_serializable_state st) = statement_horizons st"
  "pinned (prune_serializable_state st) = pinned st"
  by (auto simp: prune_serializable_state_def)

lemma prune_serializable_wf [simp]:
  "hmap_wf (serializable st) \<Longrightarrow> hmap_wf (serializable (prune_serializable_state st))"
  by (auto simp: prune_serializable_state_def)

text \<open>The allocator: what is issued was issuable and is not issuable again.\<close>

lemma sm_begin_props:
  assumes "sm_wf m" and "next_xid m < u64_max" and "sm_begin m = (x, m')"
  shows "sm_wf m'" and "x \<in> issuable m" and "issuable m' \<subseteq> issuable m - {x}"
    and "active (mgr m') = insert x (active (mgr m))"
    and "aborted (mgr m') = aborted (mgr m)"
    and "snapshot_horizons (mgr m') = snapshot_horizons (mgr m)"
    and "statement_horizons (mgr m') = statement_horizons (mgr m)"
    and "x = next_xid m" and "next_xid m' = next_xid m + 1"
  using assms
  by (auto simp: sm_begin_def sm_wf_def issuable_def Let_def wrapping_add64_Suc less_Suc_eq)

definition pool_headroom :: "snapshot_manager \<Rightarrow> bool" where
  "pool_headroom m \<longleftrightarrow>
     pool_next (pool m) < pool_end (pool m) \<or> next_xid m + autocommit_pool_batch \<le> u64_max"

lemma allocate_committed_xid_props:
  assumes "sm_wf m" and "pool_headroom m" and "allocate_committed_xid m = (x, m')"
  shows "sm_wf m'" and "x \<in> issuable m" and "issuable m' \<subseteq> issuable m - {x}" and "mgr m' = mgr m"
proof -
  have ne: "pool_next (pool m) < pool_end (pool m) \<Longrightarrow> wrapping_add64 (pool_next (pool m)) 1 = pool_next (pool m) + 1"
    using assms(1) by (intro wrapping_add64_no_wrap) (auto simp: sm_wf_def)
  have refill: "\<not> pool_next (pool m) < pool_end (pool m) \<Longrightarrow>
      wrapping_add64 (next_xid m) autocommit_pool_batch = next_xid m + autocommit_pool_batch \<and>
      wrapping_add64 (next_xid m) 1 = next_xid m + 1"
    using assms(2)
    by (auto simp: pool_headroom_def autocommit_pool_batch_def wrapping_add64_no_wrap wrapping_add64_Suc)
  show "sm_wf m'"
    using assms ne refill
    by (force simp: allocate_committed_xid_def sm_wf_def Let_def pool_headroom_def
          autocommit_pool_batch_def split: if_splits)
  show "x \<in> issuable m" and "issuable m' \<subseteq> issuable m - {x}" and "mgr m' = mgr m"
    using assms ne refill
    by (auto simp: allocate_committed_xid_def sm_wf_def issuable_def Let_def pool_headroom_def
          autocommit_pool_batch_def split: if_splits)
qed

lemma observe_committed_xid_props:
  assumes "sm_wf m"
  shows "sm_wf (observe_committed_xid x m)"
    and "issuable (observe_committed_xid x m) \<subseteq> issuable m"
    and "mgr (observe_committed_xid x m) = mgr m"
proof -
  have "saturating_add64 x 1 \<le> u64_max" and "0 < saturating_add64 x 1"
    by (simp_all add: saturating_add64_def u64_max_def)
  with assms show "sm_wf (observe_committed_xid x m)"
    by (fastforce simp: observe_committed_xid_def sm_wf_def Let_def)
  show "issuable (observe_committed_xid x m) \<subseteq> issuable m"
    using assms by (auto simp: observe_committed_xid_def sm_wf_def issuable_def Let_def split: if_splits)
  show "mgr (observe_committed_xid x m) = mgr m"
    by (simp add: observe_committed_xid_def Let_def)
qed

text \<open>Outcomes and the bookkeeping operations move no allocator field.\<close>

lemma sm_commit_frame [simp]:
  "next_xid (sm_commit x m) = next_xid m"
  "pool (sm_commit x m) = pool m"
  "issuable (sm_commit x m) = issuable m"
  "active (mgr (sm_commit x m)) = active (mgr m) - {x}"
  "aborted (mgr (sm_commit x m)) = aborted (mgr m) - {x}"
  "snapshot_horizons (mgr (sm_commit x m)) = hdel x (snapshot_horizons (mgr m))"
  "statement_horizons (mgr (sm_commit x m)) = statement_horizons (mgr m)"
  "pinned (mgr (sm_commit x m)) = pinned (mgr m)"
  by (simp_all add: sm_commit_def Let_def issuable_def)

lemma sm_commit_ssi_wf:
  "hmap_wf (serializable (mgr m)) \<Longrightarrow> hmap_wf (serializable (mgr (sm_commit x m)))"
  by (auto simp: sm_commit_def Let_def prune_serializable_state_def split: option.splits)

lemma sm_wf_commit: "sm_wf m \<Longrightarrow> sm_wf (sm_commit x m)"
  by (auto simp: sm_wf_def sm_commit_ssi_wf)

lemma sm_rollback_frame:
  assumes "sm_rollback x m = Some m'"
  shows "next_xid m' = next_xid m" and "pool m' = pool m" and "issuable m' = issuable m"
    and "active (mgr m') = active (mgr m) - {x}"
    and "aborted (mgr m') = insert x (aborted (mgr m))"
    and "snapshot_horizons (mgr m') = hdel x (snapshot_horizons (mgr m))"
    and "statement_horizons (mgr m') = statement_horizons (mgr m)"
    and "pinned (mgr m') = pinned (mgr m)"
  using assms
  by (auto simp: sm_rollback_def Let_def issuable_def split: option.splits if_splits)

lemma sm_rollback_ssi_wf:
  "sm_rollback x m = Some m' \<Longrightarrow> hmap_wf (serializable (mgr m)) \<Longrightarrow> hmap_wf (serializable (mgr m'))"
  by (auto simp: sm_rollback_def Let_def prune_serializable_state_def split: option.splits if_splits)

lemma sm_wf_rollback: "sm_wf m \<Longrightarrow> sm_rollback x m = Some m' \<Longrightarrow> sm_wf m'"
  by (auto simp: sm_wf_def sm_rollback_frame sm_rollback_ssi_wf)

lemma sm_rollback_active: "x \<in> active (mgr m) \<Longrightarrow> \<exists>m'. sm_rollback x m = Some m'"
  by (simp add: sm_rollback_def Let_def)

lemma sm_snapshot_frame:
  assumes "sm_snapshot x m = (s, m')"
  shows "next_xid m' = next_xid m" and "pool m' = pool m" and "issuable m' = issuable m"
    and "active (mgr m') = active (mgr m)" and "aborted (mgr m') = aborted (mgr m)"
    and "statement_horizons (mgr m') = statement_horizons (mgr m)"
    and "pinned (mgr m') = pinned (mgr m)" and "serializable (mgr m') = serializable (mgr m)"
  using assms by (auto simp: sm_snapshot_def Let_def issuable_def split: if_splits)

lemma sm_wf_snapshot: "sm_wf m \<Longrightarrow> sm_snapshot x m = (s, m') \<Longrightarrow> sm_wf m'"
  by (auto simp: sm_snapshot_def sm_wf_def Let_def split: if_splits)

lemma retain_snapshot_frame:
  assumes "retain_snapshot s m = (h, m')"
  shows "next_xid m' = next_xid m" and "pool m' = pool m" and "issuable m' = issuable m"
    and "active (mgr m') = active (mgr m)" and "aborted (mgr m') = aborted (mgr m)"
    and "snapshot_horizons (mgr m') = snapshot_horizons (mgr m)"
    and "h = retain_horizon s"
  using assms by (auto simp: retain_snapshot_def Let_def issuable_def)

lemma sm_wf_retain: "sm_wf m \<Longrightarrow> retain_snapshot s m = (h, m') \<Longrightarrow> sm_wf m'"
  by (auto simp: retain_snapshot_def sm_wf_def Let_def)

lemma release_guard_frame:
  assumes "release_guard h m = Some m'"
  shows "next_xid m' = next_xid m" and "pool m' = pool m" and "issuable m' = issuable m"
    and "active (mgr m') = active (mgr m)" and "aborted (mgr m') = aborted (mgr m)"
    and "snapshot_horizons (mgr m') = snapshot_horizons (mgr m)"
  using assms by (auto simp: release_guard_def issuable_def split: option.splits)

lemma sm_wf_release: "sm_wf m \<Longrightarrow> release_guard h m = Some m' \<Longrightarrow> sm_wf m'"
  by (auto simp: release_guard_def sm_wf_def split: option.splits)

text \<open>
  The remaining operations touch only the SSI table, the aborted set or the pins:
  \<open>bookkeeping\<close> lists them, and one frame lemma covers the group.
\<close>

datatype bookkeeping =
    BeginSerializable xid
  | RecordRead xid string nat
  | RecordVaultRead xid string "string option" "string option"
  | CheckCommit xid "logical_row_key set"
  | CheckVaultCommit xid "(string \<times> string option \<times> string) set"
  | PruneAborted xid
  | Pin xid
  | Unpin xid

fun run_bookkeeping :: "bookkeeping \<Rightarrow> snapshot_manager \<Rightarrow> snapshot_manager" where
  "run_bookkeeping (BeginSerializable x) m = begin_serializable x m"
| "run_bookkeeping (RecordRead x c i) m = record_serializable_read x c i m"
| "run_bookkeeping (RecordVaultRead x c t k) m = record_serializable_vault_read x c t k m"
| "run_bookkeeping (CheckCommit x w) m = snd (serializable_commit_would_be_dangerous x w m)"
| "run_bookkeeping (CheckVaultCommit x w) m = snd (serializable_vault_commit_would_be_dangerous x w m)"
| "run_bookkeeping (PruneAborted b) m = prune_aborted b m"
| "run_bookkeeping (Pin x) m = pin x m"
| "run_bookkeeping (Unpin x) m = unpin x m"

lemmas bookkeeping_defs =
  begin_serializable_def record_serializable_read_def record_serializable_vault_read_def
  serializable_commit_would_be_dangerous_def serializable_vault_commit_would_be_dangerous_def
  serializable_readers_would_be_dangerous_def prune_aborted_def pin_def unpin_def

lemma run_bookkeeping_frame [simp]:
  "next_xid (run_bookkeeping b m) = next_xid m"
  "pool (run_bookkeeping b m) = pool m"
  "active (mgr (run_bookkeeping b m)) = active (mgr m)"
  "snapshot_horizons (mgr (run_bookkeeping b m)) = snapshot_horizons (mgr m)"
  "statement_horizons (mgr (run_bookkeeping b m)) = statement_horizons (mgr m)"
  by (cases b; simp add: bookkeeping_defs Let_def split: option.splits)+

lemma run_bookkeeping_issuable [simp]: "issuable (run_bookkeeping b m) = issuable m"
  by (simp add: issuable_def)

lemma run_bookkeeping_maps_wf:
  "hmap_wf (pinned (mgr m)) \<Longrightarrow> hmap_wf (pinned (mgr (run_bookkeeping b m)))"
  "hmap_wf (serializable (mgr m)) \<Longrightarrow> hmap_wf (serializable (mgr (run_bookkeeping b m)))"
  "finite (aborted (mgr m)) \<Longrightarrow> finite (aborted (mgr (run_bookkeeping b m)))"
  by (cases b; simp add: bookkeeping_defs Let_def split: option.splits)+

lemma sm_wf_bookkeeping: "sm_wf m \<Longrightarrow> sm_wf (run_bookkeeping b m)"
  by (simp add: sm_wf_def run_bookkeeping_maps_wf)

end
