(* ===== verification/Mvcc_Traces.thy ===== *)
theory Mvcc_Traces
  imports Snapshot_Manager
begin

section \<open>Runs of the snapshot manager\<close>

text \<open>
  The calls a process makes on the manager, in any order and from any number of connections, are the
  steps of \<open>mvcc_step\<close>: one rule per method, each with the guard that keeps the 64-bit counters from
  wrapping. A configuration is the manager with the retention guards that are alive (a
  \<open>SnapshotRetentionGuard\<close> is released by its \<open>Drop\<close>, once). The label of a step is the xid it issues.

  Two contracts are stated as locales and met by the manager: \<open>xid_allocator\<close> (an issued xid leaves the
  set of issuable ones for good) and \<open>snapshot_source\<close> (a captured snapshot excludes everything that
  can still be issued). Uniqueness of xids and the stability of snapshots are proved from them.
\<close>

type_synonym config = "snapshot_manager \<times> xid list"

inductive mvcc_step :: "config \<Rightarrow> xid option \<Rightarrow> config \<Rightarrow> bool" where
  step_begin: "next_xid m < u64_max \<Longrightarrow> sm_begin m = (x, m') \<Longrightarrow> mvcc_step (m, gs) (Some x) (m', gs)"
| step_allocate: "pool_headroom m \<Longrightarrow> allocate_committed_xid m = (x, m') \<Longrightarrow>
    mvcc_step (m, gs) (Some x) (m', gs)"
| step_snapshot: "sm_snapshot x m = (s, m') \<Longrightarrow> mvcc_step (m, gs) None (m', gs)"
| step_retain: "length gs < u64_max \<Longrightarrow> retain_snapshot s m = (h, m') \<Longrightarrow>
    mvcc_step (m, gs) None (m', h # gs)"
| step_release: "h \<in> set gs \<Longrightarrow> release_guard h m = Some m' \<Longrightarrow> mvcc_step (m, gs) None (m', remove1 h gs)"
| step_commit: "mvcc_step (m, gs) None (sm_commit x m, gs)"
| step_rollback: "sm_rollback x m = Some m' \<Longrightarrow> mvcc_step (m, gs) None (m', gs)"
| step_observe: "mvcc_step (m, gs) None (observe_committed_xid x m, gs)"
| step_bookkeeping: "mvcc_step (m, gs) None (run_bookkeeping b m, gs)"

inductive_cases mvcc_step_issueE: "mvcc_step c (Some x) c'"

inductive mvcc_run :: "config \<Rightarrow> xid list \<Rightarrow> config \<Rightarrow> bool" where
  run_refl: "mvcc_run c [] c"
| run_silent: "mvcc_run c xs c' \<Longrightarrow> mvcc_step c' None c'' \<Longrightarrow> mvcc_run c xs c''"
| run_issue: "mvcc_run c xs c' \<Longrightarrow> mvcc_step c' (Some x) c'' \<Longrightarrow> mvcc_run c (xs @ [x]) c''"

lemma mvcc_run_step: "mvcc_step c None c' \<Longrightarrow> mvcc_run c [] c'"
  by (rule run_silent [OF run_refl])

subsection \<open>The allocator contract\<close>

locale xid_allocator =
  fixes ok :: "'c \<Rightarrow> bool"
    and fresh :: "'c \<Rightarrow> nat set"
    and step :: "'c \<Rightarrow> nat option \<Rightarrow> 'c \<Rightarrow> bool"
    and run :: "'c \<Rightarrow> nat list \<Rightarrow> 'c \<Rightarrow> bool"
  assumes ok_step: "ok c \<Longrightarrow> step c l c' \<Longrightarrow> ok c'"
    and fresh_silent: "ok c \<Longrightarrow> step c None c' \<Longrightarrow> fresh c' \<subseteq> fresh c"
    and fresh_issue: "ok c \<Longrightarrow> step c (Some x) c' \<Longrightarrow> x \<in> fresh c \<and> fresh c' \<subseteq> fresh c - {x}"
    and run_induct: "run c xs c' \<Longrightarrow> P [] c \<Longrightarrow>
      (\<And>xs c' c''. P xs c' \<Longrightarrow> step c' None c'' \<Longrightarrow> P xs c'') \<Longrightarrow>
      (\<And>xs c' x c''. P xs c' \<Longrightarrow> step c' (Some x) c'' \<Longrightarrow> P (xs @ [x]) c'') \<Longrightarrow> P xs c'"
begin

lemma run_ok: "run c xs c' \<Longrightarrow> ok c \<Longrightarrow> ok c'"
  by (erule run_induct) (auto intro: ok_step)

lemma run_fresh:
  assumes "run c xs c'" and "ok c"
  shows "ok c' \<and> distinct xs \<and> set xs \<subseteq> fresh c \<and> fresh c' \<subseteq> fresh c - set xs"
  using assms(1)
proof (rule run_induct)
  show "ok c \<and> distinct [] \<and> set [] \<subseteq> fresh c \<and> fresh c \<subseteq> fresh c - set []"
    using assms(2) by simp
next
  fix xs c' c''
  assume IH: "ok c' \<and> distinct xs \<and> set xs \<subseteq> fresh c \<and> fresh c' \<subseteq> fresh c - set xs"
    and st: "step c' None c''"
  then have "ok c''" and "fresh c'' \<subseteq> fresh c'"
    using ok_step fresh_silent by blast+
  with IH show "ok c'' \<and> distinct xs \<and> set xs \<subseteq> fresh c \<and> fresh c'' \<subseteq> fresh c - set xs"
    by auto
next
  fix xs c' x c''
  assume IH: "ok c' \<and> distinct xs \<and> set xs \<subseteq> fresh c \<and> fresh c' \<subseteq> fresh c - set xs"
    and st: "step c' (Some x) c''"
  then have "ok c''" and "x \<in> fresh c'" and "fresh c'' \<subseteq> fresh c' - {x}"
    using ok_step fresh_issue by blast+
  with IH show "ok c'' \<and> distinct (xs @ [x]) \<and> set (xs @ [x]) \<subseteq> fresh c \<and>
      fresh c'' \<subseteq> fresh c - set (xs @ [x])"
    by auto
qed

lemma issued_distinct: "run c xs c' \<Longrightarrow> ok c \<Longrightarrow> distinct xs"
  using run_fresh by blast

lemma issued_fresh: "run c xs c' \<Longrightarrow> ok c \<Longrightarrow> x \<in> set xs \<Longrightarrow> x \<in> fresh c"
  using run_fresh by blast

lemma run_fresh_mono: "run c xs c' \<Longrightarrow> ok c \<Longrightarrow> fresh c' \<subseteq> fresh c"
  using run_fresh by blast

end

text \<open>A snapshot source adds a capture that excludes every xid that may still be issued.\<close>

locale snapshot_source = xid_allocator ok fresh step run
  for ok :: "'c \<Rightarrow> bool" and fresh :: "'c \<Rightarrow> nat set"
    and step :: "'c \<Rightarrow> nat option \<Rightarrow> 'c \<Rightarrow> bool" and run :: "'c \<Rightarrow> nat list \<Rightarrow> 'c \<Rightarrow> bool" +
  fixes capture :: "'c \<Rightarrow> snapshot"
  assumes capture_excludes: "ok c \<Longrightarrow> x \<in> fresh c \<Longrightarrow> excludes (capture c) x"
    and fresh_nonzero: "ok c \<Longrightarrow> 0 \<notin> fresh c"
begin

lemma later_insert_hidden:
  assumes "ok c" and "run c xs c'" and "x \<in> set xs"
  shows "\<not> sees (capture c) x xmax"
proof -
  have "x \<in> fresh c"
    using issued_fresh [OF assms(2,1,3)] .
  with capture_excludes [OF assms(1)] fresh_nonzero [OF assms(1)] show ?thesis
    by (metis excluded_insert_hidden)
qed

lemma later_delete_ignored:
  assumes "ok c" and "run c xs c'" and "x \<in> set xs"
  shows "sees (capture c) xmin x = sees (capture c) xmin 0"
  using capture_excludes [OF assms(1) issued_fresh [OF assms(2,1,3)]]
  by (rule excluded_delete_ignored)

end

subsection \<open>The manager meets both contracts\<close>

abbreviation cfg_ok :: "config \<Rightarrow> bool" where
  "cfg_ok c \<equiv> sm_wf (fst c)"

abbreviation cfg_issuable :: "config \<Rightarrow> xid set" where
  "cfg_issuable c \<equiv> issuable (fst c)"

lemma mvcc_step_wf: "mvcc_step c l c' \<Longrightarrow> cfg_ok c \<Longrightarrow> cfg_ok c'"
  by (induction rule: mvcc_step.induct)
    (auto intro: sm_begin_props(1) allocate_committed_xid_props(1) sm_wf_snapshot sm_wf_retain
      sm_wf_release sm_wf_commit sm_wf_rollback observe_committed_xid_props(1) sm_wf_bookkeeping)

lemma mvcc_step_silent: "mvcc_step c None c' \<Longrightarrow> cfg_ok c \<Longrightarrow> cfg_issuable c' \<subseteq> cfg_issuable c"
  by (erule mvcc_step.cases)
    (auto simp: sm_snapshot_frame retain_snapshot_frame release_guard_frame sm_rollback_frame
      dest: observe_committed_xid_props(2) [THEN subsetD])

lemma mvcc_step_issue:
  "mvcc_step c (Some x) c' \<Longrightarrow> cfg_ok c \<Longrightarrow> x \<in> cfg_issuable c \<and> cfg_issuable c' \<subseteq> cfg_issuable c - {x}"
  by (erule mvcc_step_issueE)
    (use sm_begin_props(2,3) allocate_committed_xid_props(2,3) in force)+

interpretation sm_alloc: xid_allocator cfg_ok cfg_issuable mvcc_step mvcc_run
proof unfold_locales
  fix c xs c' and P :: "xid list \<Rightarrow> config \<Rightarrow> bool"
  assume "mvcc_run c xs c'" and "P [] c"
    and "\<And>xs c' c''. P xs c' \<Longrightarrow> mvcc_step c' None c'' \<Longrightarrow> P xs c''"
    and "\<And>xs c' x c''. P xs c' \<Longrightarrow> mvcc_step c' (Some x) c'' \<Longrightarrow> P (xs @ [x]) c''"
  then show "P xs c'"
    by (induction rule: mvcc_run.induct) auto
qed (auto intro: mvcc_step_wf dest: mvcc_step_silent [THEN subsetD] mvcc_step_issue)

lemma fresh_snapshot_excludes:
  "sm_wf m \<Longrightarrow> excludes (fresh_read_snapshot m) x \<longleftrightarrow> x \<in> active (mgr m) \<or> x \<in> issuable m"
  by (auto simp: excludes_def fresh_read_snapshot_def issuable_def sm_wf_def)

interpretation sm_fresh: snapshot_source cfg_ok cfg_issuable mvcc_step mvcc_run
  "\<lambda>c. fresh_read_snapshot (fst c)"
  by unfold_locales (auto simp: fresh_snapshot_excludes zero_not_issuable)

text \<open>
  A transaction's own snapshot, taken for an active xid, excludes the same: everything that can still
  be issued and every other active writer.
\<close>

lemma txn_snapshot_excludes:
  assumes "sm_wf m" and "x \<in> active (mgr m)" and "sm_snapshot x m = (s, m')"
  shows "y \<in> issuable m \<Longrightarrow> excludes s y"
    and "y \<in> active (mgr m) \<Longrightarrow> y \<noteq> x \<Longrightarrow> excludes s y"
    and "\<not> excludes s x"
  using assms by (force simp: excludes_def sm_snapshot_def issuable_def sm_wf_def Let_def)+

subsection \<open>Retention guards and garbage collection\<close>

text \<open>
  The counters of \<open>statement_horizons\<close> are the live guards: the count of a horizon is the number of
  guards that hold it.
\<close>

definition guard_count :: "snapshot_manager \<Rightarrow> xid \<Rightarrow> nat" where
  "guard_count m h = (case hget (statement_horizons (mgr m)) h of None \<Rightarrow> 0 | Some c \<Rightarrow> c)"

definition guards_inv :: "config \<Rightarrow> bool" where
  "guards_inv c \<longleftrightarrow>
     (\<forall>h. guard_count (fst c) h = count_list (snd c) h) \<and>
     (\<forall>h. hget (statement_horizons (mgr (fst c))) h \<noteq> Some 0) \<and> length (snd c) \<le> u64_max"

lemma guards_inv_new: "guards_inv (sm_new, [])"
  by (simp add: guards_inv_def guard_count_def sm_new_def manager_state_default_def)

lemma guards_inv_same_horizons:
  "guards_inv (m, gs) \<Longrightarrow> statement_horizons (mgr m') = statement_horizons (mgr m) \<Longrightarrow> guards_inv (m', gs)"
  by (simp add: guards_inv_def guard_count_def)

lemma guard_count_retain:
  "retain_snapshot s m = (h, m') \<Longrightarrow>
     guard_count m' y = (if y = h then wrapping_add64 (guard_count m h) 1 else guard_count m y)"
  by (auto simp: retain_snapshot_def guard_count_def Let_def)

lemma retain_nonzero:
  "retain_snapshot s m = (h, m') \<Longrightarrow> hget (statement_horizons (mgr m')) y =
     (if y = h then Some (wrapping_add64 (guard_count m h) 1) else hget (statement_horizons (mgr m)) y)"
  by (auto simp: retain_snapshot_def guard_count_def Let_def)

lemma guards_inv_retain:
  assumes inv: "guards_inv (m, gs)" and room: "length gs < u64_max" and st: "retain_snapshot s m = (h, m')"
  shows "guards_inv (m', h # gs)"
proof -
  have "guard_count m h \<le> length gs"
    using inv by (simp add: guards_inv_def count_le_length)
  with room have "wrapping_add64 (guard_count m h) 1 = guard_count m h + 1"
    by (intro wrapping_add64_no_wrap) simp
  with inv room show ?thesis
    by (simp add: guards_inv_def guard_count_retain [OF st] retain_nonzero [OF st])
qed

lemma guard_count_release:
  "release_guard h m = Some m' \<Longrightarrow> hget (statement_horizons (mgr m)) h \<noteq> Some 0 \<Longrightarrow>
     guard_count m' y = (if y = h then guard_count m h - 1 else guard_count m y)"
  by (auto simp: release_guard_def guard_count_def split: option.splits if_splits)

lemma release_nonzero:
  "release_guard h m = Some m' \<Longrightarrow> \<forall>y. hget (statement_horizons (mgr m)) y \<noteq> Some 0 \<Longrightarrow>
     hget (statement_horizons (mgr m')) y \<noteq> Some 0"
  by (auto simp: release_guard_def le_Suc_eq split: option.splits if_splits)

lemma count_list_remove1: "count_list (remove1 x xs) y = count_list xs y - (if x = y then 1 else 0)"
  by (induction xs) auto

lemma guards_inv_release:
  assumes inv: "guards_inv (m, gs)" and st: "release_guard h m = Some m'"
  shows "guards_inv (m', remove1 h gs)"
proof -
  from inv have nz: "\<forall>y. hget (statement_horizons (mgr m)) y \<noteq> Some 0"
    by (simp add: guards_inv_def)
  have "length (remove1 h gs) \<le> length gs"
    by (simp add: length_remove1)
  with inv nz show ?thesis
    by (simp add: guards_inv_def guard_count_release [OF st] release_nonzero [OF st] count_list_remove1)
qed

lemma mvcc_step_guards: "mvcc_step c l c' \<Longrightarrow> cfg_ok c \<Longrightarrow> guards_inv c \<Longrightarrow> guards_inv c'"
proof (induction rule: mvcc_step.induct)
  case (step_allocate m x m' gs)
  then show ?case
    using allocate_committed_xid_props(4) [of m x m'] by (auto intro: guards_inv_same_horizons)
next
  case (step_observe m gs x)
  then show ?case
    using observe_committed_xid_props(3) [of m x] by (auto intro: guards_inv_same_horizons)
next
  case (step_begin m x m' gs)
  then show ?case
    using sm_begin_props(7) [of m x m'] by (auto intro: guards_inv_same_horizons)
qed (auto intro: guards_inv_same_horizons guards_inv_retain guards_inv_release
      simp: sm_snapshot_frame sm_rollback_frame)

lemma mvcc_run_guards:
  assumes "mvcc_run c xs c'" and "cfg_ok c" and "guards_inv c"
  shows "cfg_ok c' \<and> guards_inv c'"
  using assms
  by (induction rule: mvcc_run.induct) (auto intro: mvcc_step_wf mvcc_step_guards)

lemma live_guard_registered:
  assumes "guards_inv (m, gs)" and "h \<in> set gs"
  shows "h \<in> hkeys (statement_horizons (mgr m))"
proof -
  from assms have "guard_count m h \<noteq> 0"
    by (auto simp: guards_inv_def count_list_0_iff)
  then show ?thesis
    by (auto simp: guard_count_def hkeys_iff split: option.splits)
qed

text \<open>A live guard can always be released: its \<open>expect\<close> never fires.\<close>

lemma live_guard_release:
  assumes "guards_inv (m, gs)" and "h \<in> set gs"
  shows "\<exists>m'. release_guard h m = Some m'"
  using live_guard_registered [OF assms] by (auto simp: release_guard_def hkeys_iff)

lemma min_opt_le: "finite S \<Longrightarrow> x \<in> S \<Longrightarrow> \<exists>c. min_opt S = Some c \<and> c \<le> x"
  by (auto simp: min_opt_def)

lemma oldest_required_le:
  assumes "sm_wf m"
    and "h \<in> active (mgr m) \<union> hvals (snapshot_horizons (mgr m)) \<union> hkeys (statement_horizons (mgr m)) \<union>
      hkeys (pinned (mgr m))"
  shows "\<exists>c. oldest_required_xid m = Some c \<and> c \<le> h"
  unfolding oldest_required_xid_def
  by (rule min_opt_le) (use assms in \<open>auto simp: sm_wf_def\<close>)

lemma retain_horizon_le:
  assumes "finite (snap_in_progress s)" and "excludes s x" and "x \<le> u64_max"
  shows "retain_horizon s \<le> x"
proof (cases "x \<in> snap_in_progress s")
  case True
  with assms(1) show ?thesis
    by (simp add: retain_horizon_def)
next
  case False
  with assms(2,3) have "saturating_add64 (snap_xid s) 1 \<le> x"
    by (intro saturating_succ_le) (auto simp: excludes_def)
  moreover have "retain_horizon s \<le> saturating_add64 (snap_xid s) 1"
    using assms(1) by (simp add: retain_horizon_def)
  ultimately show ?thesis by linarith
qed

text \<open>An active transaction's horizon stays registered, and only moves down, until it ends.\<close>

definition txn_horizon_kept :: "xid \<Rightarrow> xid \<Rightarrow> snapshot_manager \<Rightarrow> bool" where
  "txn_horizon_kept x h m \<longleftrightarrow>
     x \<notin> issuable m \<and>
     (x \<in> active (mgr m) \<longrightarrow> (\<exists>h'. hget (snapshot_horizons (mgr m)) x = Some h' \<and> h' \<le> h))"

lemma txn_horizon_kept_step:
  "mvcc_step c l c' \<Longrightarrow> cfg_ok c \<Longrightarrow> txn_horizon_kept x h (fst c) \<Longrightarrow> txn_horizon_kept x h (fst c')"
proof (induction rule: mvcc_step.induct)
  case (step_begin m y m' gs)
  then show ?case
    using sm_begin_props [of m y m'] by (auto simp: txn_horizon_kept_def)
next
  case (step_allocate m y m' gs)
  then show ?case
    using allocate_committed_xid_props [of m y m'] by (auto simp: txn_horizon_kept_def)
next
  case (step_observe m gs y)
  then show ?case
    using observe_committed_xid_props [of m y] by (auto simp: txn_horizon_kept_def)
next
  case (step_snapshot y m s m' gs)
  then show ?case
    by (auto simp: txn_horizon_kept_def sm_snapshot_def Let_def issuable_def
        split: if_splits option.splits)
qed (auto simp: txn_horizon_kept_def retain_snapshot_frame release_guard_frame sm_rollback_frame)

lemma txn_horizon_kept_run:
  "mvcc_run c xs c' \<Longrightarrow> cfg_ok c \<Longrightarrow> txn_horizon_kept x h (fst c) \<Longrightarrow> txn_horizon_kept x h (fst c')"
  by (induction rule: mvcc_run.induct)
    (auto intro: txn_horizon_kept_step sm_alloc.run_ok)

lemma txn_snapshot_horizon:
  assumes "sm_wf m" and "x \<in> active (mgr m)" and "sm_snapshot x m = (s, m')"
  shows "\<exists>h. txn_horizon_kept x h m' \<and> (\<forall>y. excludes s y \<longrightarrow> h \<le> y)"
proof -
  let ?h = "Min (insert x (snap_in_progress s))"
  from assms have fin: "finite (snap_in_progress s)" and sx: "snap_xid s = x"
    by (auto simp: sm_snapshot_def Let_def sm_wf_def)
  have "txn_horizon_kept x ?h m'"
    using assms active_not_issuable [OF assms(1,2)]
    by (auto simp: txn_horizon_kept_def sm_snapshot_def Let_def issuable_def split: option.splits)
  moreover have "?h \<le> y" if "excludes s y" for y
  proof -
    have "?h \<le> x" using fin by simp
    moreover have "y \<in> snap_in_progress s \<Longrightarrow> ?h \<le> y" using fin by simp
    ultimately show ?thesis using that sx by (auto simp: excludes_def)
  qed
  ultimately show ?thesis by blast
qed

lemma horizon_bounds_visible_row:
  assumes "sm_wf m" and "guards_inv (m, gs)" and "retain_horizon s \<in> set gs" and "finite (snap_in_progress s)"
    and "sees s xmin xmax" and "xmax \<noteq> 0" and "xmax \<le> u64_max"
  shows "\<exists>cutoff. oldest_required_xid m = Some cutoff \<and> cutoff \<le> xmax"
proof -
  have "retain_horizon s \<le> xmax"
    using assms(4-7) by (intro retain_horizon_le) (auto dest: visible_row_deleter_excluded)
  moreover have "retain_horizon s \<in> hkeys (statement_horizons (mgr m))"
    using live_guard_registered [OF assms(2,3)] .
  ultimately show ?thesis
    using oldest_required_le [OF assms(1), of "retain_horizon s"] by auto
qed

lemma txn_horizon_bounds_visible_row:
  assumes "sm_wf m" and "txn_horizon_kept x h m" and "x \<in> active (mgr m)" and "h \<le> xmax"
  shows "\<exists>cutoff. oldest_required_xid m = Some cutoff \<and> cutoff \<le> xmax"
proof -
  obtain h' where "hget (snapshot_horizons (mgr m)) x = Some h'" "h' \<le> h"
    using assms(2,3) by (auto simp: txn_horizon_kept_def)
  then have "h' \<in> hvals (snapshot_horizons (mgr m))" and "h' \<le> xmax"
    using assms(4) by (auto dest: hget_in_hvals)
  then show ?thesis
    using oldest_required_le [OF assms(1), of h'] by auto
qed

subsection \<open>Properties\<close>

text \<open>A concrete run for the witnesses: a transaction begins, then an autocommit xid is allocated.\<close>

definition demo1 :: snapshot_manager where
  "demo1 = snd (sm_begin sm_new)"

definition demo2 :: snapshot_manager where
  "demo2 = snd (allocate_committed_xid demo1)"

lemmas demo_defs = demo1_def demo2_def sm_begin_def sm_new_def manager_state_default_def
  allocate_committed_xid_def bump_revision_def wrapping_add64_def autocommit_pool_batch_def

lemma demo_run: "mvcc_run (sm_new, []) [1, 2] (demo2, [])"
proof -
  have "mvcc_step (sm_new, []) (Some 1) (demo1, [])"
    by (rule step_begin) (simp_all add: demo_defs u64_max_def)
  moreover have "mvcc_step (demo1, []) (Some 2) (demo2, [])"
    by (rule step_allocate) (simp_all add: demo_defs u64_max_def pool_headroom_def Let_def)
  ultimately show ?thesis
    using run_issue [OF run_issue [OF run_refl]] by fastforce
qed

text \<open>
  C2: transaction identifiers are unique. Whatever calls are interleaved on a manager, no xid is
  issued twice, none is the reserved \<open>XID_NONE\<close>, none belongs to a transaction that was active at the
  start, and the manager invariant holds at the end.
\<close>

theorem xids_issued_once:
  assumes "sm_wf (fst c)" and "mvcc_run c xs c'"
  shows "distinct xs \<and> 0 \<notin> set xs \<and> set xs \<inter> active (mgr (fst c)) = {} \<and> sm_wf (fst c')"
  using sm_alloc.run_fresh [OF assms(2,1)] zero_not_issuable [OF assms(1)] active_not_issuable [OF assms(1)]
  by blast

theorem xids_issued_once_witness:
  "mvcc_run (sm_new, []) [1, 2] (demo2, []) \<and> distinct [1, 2 :: xid] \<and> sm_wf demo2"
  using xids_issued_once [of "(sm_new, [])" "[1, 2]" "(demo2, [])"] demo_run sm_wf_new by simp

text \<open>
  C5: a statement snapshot is stable. Rows inserted by a transaction that gets its xid after the
  snapshot was taken stay hidden from it, and rows such a transaction deletes stay as visible as they
  were, however the calls of other sessions are interleaved.
\<close>

theorem fresh_snapshot_stable:
  assumes "sm_wf (fst c)" and "mvcc_run c xs c'" and "x \<in> set xs"
  shows "\<not> sees (fresh_read_snapshot (fst c)) x xmax \<and>
    sees (fresh_read_snapshot (fst c)) xmin x = sees (fresh_read_snapshot (fst c)) xmin 0"
  using sm_fresh.later_insert_hidden [OF assms] sm_fresh.later_delete_ignored [OF assms] by blast

theorem fresh_snapshot_stable_witness:
  "\<not> sees (fresh_read_snapshot sm_new) 2 0 \<and>
   sees (fresh_read_snapshot sm_new) 0 2 = sees (fresh_read_snapshot sm_new) 0 0"
  using fresh_snapshot_stable [of "(sm_new, [])" "[1, 2]" "(demo2, [])" 2 0 0] demo_run sm_wf_new by simp

text \<open>
  A fresh snapshot sees a writer exactly when the writer has an outcome: an xid that is neither
  active nor still issuable, reserved autocommit slots included.
\<close>

theorem fresh_snapshot_exact:
  assumes "sm_wf m" and "x \<noteq> 0"
  shows "sees (fresh_read_snapshot m) x 0 \<longleftrightarrow> x \<notin> active (mgr m) \<and> x \<notin> issuable m"
  using assms by (simp add: sees_iff fresh_snapshot_excludes)

theorem fresh_snapshot_exact_witness:
  "sees (fresh_read_snapshot sm_new) 1 0 \<longleftrightarrow> 1 \<notin> active (mgr sm_new) \<and> 1 \<notin> issuable sm_new"
  using fresh_snapshot_exact [of sm_new 1] sm_wf_new by simp

text \<open>
  C3: garbage collection never reclaims a version a live statement can see. After a snapshot is
  retained and any run of calls, as long as its guard is alive the cutoff \<open>oldest_required_xid\<close> is at
  most the \<open>xmax\<close> of every deleted version the snapshot sees.
\<close>

theorem retained_version_not_reclaimed:
  assumes "sm_wf m" and "guards_inv (m, gs)" and "length gs < u64_max" and "finite (snap_in_progress s)"
    and "retain_snapshot s m = (h, m1)" and "mvcc_run (m1, h # gs) xs (m2, gs2)" and "h \<in> set gs2"
    and "sees s xmin xmax" and "xmax \<noteq> 0" and "xmax \<le> u64_max"
  shows "\<exists>cutoff. oldest_required_xid m2 = Some cutoff \<and> cutoff \<le> xmax"
proof -
  have "sm_wf m1" and "guards_inv (m1, h # gs)"
    using assms(1-3,5) by (auto intro: sm_wf_retain guards_inv_retain)
  with assms(6) have "sm_wf m2" and "guards_inv (m2, gs2)"
    using mvcc_run_guards [of "(m1, h # gs)" xs "(m2, gs2)"] by auto
  with assms(4,7-10) retain_snapshot_frame(7) [OF assms(5)] show ?thesis
    using horizon_bounds_visible_row by blast
qed

theorem retained_version_not_reclaimed_witness:
  "\<exists>cutoff. oldest_required_xid (snd (retain_snapshot \<lparr>snap_xid = 0, snap_in_progress = {}\<rparr> sm_new)) = Some cutoff \<and>
     cutoff \<le> 7"
  by (rule retained_version_not_reclaimed [where m = sm_new and gs = "[]" and xs = "[]" and xmin = 0
        and s = "\<lparr>snap_xid = 0, snap_in_progress = {}\<rparr>" and h = 1 and ?gs2.0 = "[1]"
        and ?m1.0 = "snd (retain_snapshot \<lparr>snap_xid = 0, snap_in_progress = {}\<rparr> sm_new)"])
    (simp_all add: sm_wf_new guards_inv_new u64_max_def sees_iff excludes_def run_refl retain_snapshot_def
      retain_horizon_def saturating_add64_def Let_def)

text \<open>
  nor a version an open transaction can see. As long as a transaction that took its snapshot is
  active, the cutoff is at most the \<open>xmax\<close> of every deleted version its snapshot sees.
\<close>

theorem open_transaction_version_not_reclaimed:
  assumes "sm_wf m" and "x \<in> active (mgr m)" and "sm_snapshot x m = (s, m1)"
    and "mvcc_run (m1, gs) xs (m2, gs2)" and "x \<in> active (mgr m2)" and "sees s xmin xmax" and "xmax \<noteq> 0"
  shows "\<exists>cutoff. oldest_required_xid m2 = Some cutoff \<and> cutoff \<le> xmax"
proof -
  obtain h where h: "txn_horizon_kept x h m1" "\<forall>y. excludes s y \<longrightarrow> h \<le> y"
    using txn_snapshot_horizon [OF assms(1-3)] by blast
  have wf1: "sm_wf m1" using sm_wf_snapshot [OF assms(1,3)] .
  have "txn_horizon_kept x h m2" and "sm_wf m2"
    using txn_horizon_kept_run [OF assms(4)] sm_alloc.run_ok [OF assms(4)] h(1) wf1 by auto
  moreover have "h \<le> xmax" using h(2) visible_row_deleter_excluded [OF assms(6,7)] by blast
  ultimately show ?thesis using txn_horizon_bounds_visible_row assms(5) by blast
qed

theorem open_transaction_version_not_reclaimed_witness:
  "\<exists>cutoff. oldest_required_xid (snd (sm_snapshot 1 demo1)) = Some cutoff \<and> cutoff \<le> 9"
proof (rule open_transaction_version_not_reclaimed [of demo1 1 "fst (sm_snapshot 1 demo1)"
      "snd (sm_snapshot 1 demo1)" "[]" "[]" _ "[]" 0 9])
  show "sm_wf demo1"
    by (simp add: demo_defs sm_wf_def u64_max_def)
  show "mvcc_run (snd (sm_snapshot 1 demo1), []) [] (snd (sm_snapshot 1 demo1), [])"
    by (rule run_refl)
qed (simp_all add: demo_defs sm_snapshot_def Let_def sees_iff excludes_def)

end
