(* ===== verification/Serializable_Tracking.thy ===== *)
theory Serializable_Tracking
  imports Mvcc_Traces
begin

section \<open>Serializable conflict tracking\<close>

text \<open>
  The SSI part of \<open>transaction/snapshot.rs\<close>: what \<open>record_rw_edges\<close> leaves in the table, the exact
  condition under which a commit is refused, the detection of write skew between two serializable
  transactions while other connections go on, and the two orders of calls in which it is missed.
\<close>

lemma hget_record_rw_edges:
  "w \<notin> set rs \<Longrightarrow>
     hget (serializable (record_rw_edges w rs st)) y =
       map_option (\<lambda>t. if y = w then t\<lparr>incoming_rw := incoming_rw t \<union> set rs\<rparr>
                       else if y \<in> set rs then t\<lparr>outgoing_rw := insert w (outgoing_rw t)\<rparr> else t)
         (hget (serializable st) y)"
proof (induction rs arbitrary: st)
  case Nil
  then show ?case
    by (cases "hget (serializable st) y") auto
next
  case (Cons r rs)
  then show ?case
    by (cases "hget (serializable st) y") (auto simp: insert_absorb)
qed

lemma conflicting_readers_set:
  "hmap_wf (serializable st) \<Longrightarrow>
     set (conflicting_readers w ws st) =
       {r. r \<noteq> w \<and> (\<exists>t. hget (serializable st) r = Some t \<and> read_set t \<inter> ws \<noteq> {})}"
  unfolding conflicting_readers_def
  by (auto simp: hmap_wf_map_of_eq image_iff simp flip: ex_simps)

lemma dangerous_pivot_edges:
  assumes "hget (serializable st) w = Some t" and "w \<notin> set rs"
  shows "dangerous_pivot w (record_rw_edges w rs st) \<longleftrightarrow>
    (incoming_rw t \<noteq> {} \<or> rs \<noteq> []) \<and>
    (\<exists>x \<in> outgoing_rw t. \<exists>u. hget (serializable st) x = Some u \<and> ssi_committed u)"
proof -
  have committed: "(case hget (serializable (record_rw_edges w rs st)) x of
        None \<Rightarrow> False | Some s \<Rightarrow> ssi_committed s) \<longleftrightarrow>
      (\<exists>u. hget (serializable st) x = Some u \<and> ssi_committed u)" for x
    by (cases "hget (serializable st) x") (auto simp: hget_record_rw_edges [OF assms(2)])
  show ?thesis
    unfolding dangerous_pivot_def committed
    using assms(1) by (simp add: hget_record_rw_edges [OF assms(2)])
qed

lemma serializable_commit_dangerous_iff:
  assumes "hmap_wf (serializable (mgr m))" and "hget (serializable (mgr m)) w = Some t" and "ws \<noteq> {}"
  shows "fst (serializable_commit_would_be_dangerous w ws m) \<longleftrightarrow>
    (incoming_rw t \<noteq> {} \<or>
     (\<exists>r u. r \<noteq> w \<and> hget (serializable (mgr m)) r = Some u \<and> read_set u \<inter> ws \<noteq> {})) \<and>
    (\<exists>x \<in> outgoing_rw t. \<exists>u. hget (serializable (mgr m)) x = Some u \<and> ssi_committed u)"
proof -
  have "set (conflicting_readers w ws (mgr m)) \<noteq> {} \<longleftrightarrow>
      (\<exists>r u. r \<noteq> w \<and> hget (serializable (mgr m)) r = Some u \<and> read_set u \<inter> ws \<noteq> {})"
    unfolding conflicting_readers_set [OF assms(1)] by simp
  moreover have "w \<notin> set (conflicting_readers w ws (mgr m))"
    using conflicting_readers_set [OF assms(1)] by simp
  ultimately show ?thesis
    using assms(2,3)
    by (simp add: serializable_commit_would_be_dangerous_def serializable_readers_would_be_dangerous_def
        Let_def dangerous_pivot_edges)
qed

text \<open>A check leaves an edge from every conflicting reader to the writer.\<close>

lemma check_records_outgoing:
  assumes "hmap_wf (serializable (mgr m))" and "hget (serializable (mgr m)) w = Some t"
    and "hget (serializable (mgr m)) r = Some u" and "r \<noteq> w" and "k \<in> read_set u" and "k \<in> ws"
    and "m' = snd (serializable_commit_would_be_dangerous w ws m)"
  shows "\<exists>u'. hget (serializable (mgr m')) r = Some u' \<and> w \<in> outgoing_rw u' \<and> read_set u' = read_set u"
    and "\<exists>t'. hget (serializable (mgr m')) w = Some t' \<and> read_set t' = read_set t"
    and "hmap_wf (serializable (mgr m'))" and "active (mgr m') = active (mgr m)"
proof -
  have ws: "ws \<noteq> {}" using assms(6) by auto
  have w: "w \<notin> set (conflicting_readers w ws (mgr m))"
    using conflicting_readers_set [OF assms(1)] by simp
  have r: "r \<in> set (conflicting_readers w ws (mgr m))"
    using conflicting_readers_set [OF assms(1), of w ws] assms(3-6) by auto
  have m': "mgr m' = record_rw_edges w (conflicting_readers w ws (mgr m)) (mgr m)"
    using assms(2,7) ws
    by (simp add: serializable_commit_would_be_dangerous_def serializable_readers_would_be_dangerous_def
        Let_def)
  show "\<exists>u'. hget (serializable (mgr m')) r = Some u' \<and> w \<in> outgoing_rw u' \<and> read_set u' = read_set u"
    using assms(3,4) r w by (simp add: m' hget_record_rw_edges)
  show "\<exists>t'. hget (serializable (mgr m')) w = Some t' \<and> read_set t' = read_set t"
    using assms(2) w by (simp add: m' hget_record_rw_edges)
  show "hmap_wf (serializable (mgr m'))" and "active (mgr m') = active (mgr m)"
    using assms(1) by (simp_all add: m')
qed

lemma hget_commit_ssi:
  assumes "active (mgr m) - {x} \<noteq> {}"
  shows "hget (serializable (mgr (sm_commit x m))) y =
    (if y = x then map_option (\<lambda>t. t\<lparr>ssi_committed := True\<rparr>) (hget (serializable (mgr m)) x)
     else hget (serializable (mgr m)) y)"
  using assms
  by (auto simp: sm_commit_def Let_def prune_serializable_state_def split: option.splits)

subsection \<open>Other callers in between\<close>

text \<open>
  \<open>spares T c c'\<close>: a call of any kind on the manager that neither ends a live transaction of \<open>T\<close> nor rolls one of
  them back. What such a call keeps of a registered transaction of \<open>T\<close>: its reads, its outgoing edges inside
  \<open>T\<close> and the mark that it committed.
\<close>

definition spares :: "xid set \<Rightarrow> config \<Rightarrow> config \<Rightarrow> bool" where
  "spares T c c' \<longleftrightarrow> (\<exists>l. mvcc_step c l c') \<and> T \<inter> active (mgr (fst c)) \<subseteq> active (mgr (fst c')) \<and> T \<inter> aborted (mgr (fst c')) = {}"

definition ssi_kept :: "xid set \<Rightarrow> serializable_txn_state \<Rightarrow> serializable_txn_state \<Rightarrow> bool" where
  "ssi_kept T t t' \<longleftrightarrow> read_set t \<subseteq> read_set t' \<and> outgoing_rw t \<inter> T \<subseteq> outgoing_rw t' \<and> (ssi_committed t \<longrightarrow> ssi_committed t')"

lemma ssi_kept_refl [simp]: "ssi_kept T t t"
  by (simp add: ssi_kept_def)

lemma ssi_kept_trans: "ssi_kept T t u \<Longrightarrow> ssi_kept T u v \<Longrightarrow> ssi_kept T t v"
  by (auto simp: ssi_kept_def)

lemma update_ssi_kept:
  assumes "\<And>t. ssi_kept T t (f t)" and "hget (serializable st) y = Some t"
  shows "\<exists>t'. hget (serializable (update_ssi x f st)) y = Some t' \<and> ssi_kept T t t'"
  using assms by auto

lemma record_rw_edges_kept:
  "hget (serializable st) y = Some t \<Longrightarrow> \<exists>t'. hget (serializable (record_rw_edges w rs st)) y = Some t' \<and> ssi_kept T t t'"
proof (induction rs arbitrary: st t)
  case (Cons r rs)
  let ?st1 = "update_ssi r (\<lambda>t. t\<lparr>outgoing_rw := insert w (outgoing_rw t)\<rparr>) st"
  let ?st2 = "update_ssi w (\<lambda>t. t\<lparr>incoming_rw := insert r (incoming_rw t)\<rparr>) ?st1"
  have "\<exists>t1. hget (serializable ?st1) y = Some t1 \<and> ssi_kept T t t1"
    by (rule update_ssi_kept [OF _ Cons.prems]) (auto simp: ssi_kept_def)
  then obtain t1 where t1: "hget (serializable ?st1) y = Some t1" "ssi_kept T t t1" by auto
  have "\<exists>t2. hget (serializable ?st2) y = Some t2 \<and> ssi_kept T t1 t2"
    by (rule update_ssi_kept [OF _ t1(1)]) (auto simp: ssi_kept_def)
  then obtain t2 where t2: "hget (serializable ?st2) y = Some t2" "ssi_kept T t1 t2" by auto
  from Cons.IH [OF t2(1)] show ?case using ssi_kept_trans [OF ssi_kept_trans [OF t1(2) t2(2)]] by auto
qed simp

lemma bookkeeping_kept:
  assumes "hget (serializable (mgr m)) y = Some t"
  shows "\<exists>t'. hget (serializable (mgr (run_bookkeeping b m))) y = Some t' \<and> ssi_kept T t t'"
proof (cases b)
  case (BeginSerializable x)
  with assms show ?thesis by (auto simp: begin_serializable_def split: option.splits)
next
  case (RecordRead x c i)
  have "\<exists>t'. hget (serializable (update_ssi x f (mgr m))) y = Some t' \<and> ssi_kept T t t'" if "\<And>t. ssi_kept T t (f t)" for f
    by (rule update_ssi_kept [OF that assms])
  then show ?thesis using RecordRead by (simp add: record_serializable_read_def ssi_kept_def subset_insertI del: hget_update_ssi)
next
  case (RecordVaultRead x c n k)
  have "\<exists>t'. hget (serializable (update_ssi x f (mgr m))) y = Some t' \<and> ssi_kept T t t'" if "\<And>t. ssi_kept T t (f t)" for f
    by (rule update_ssi_kept [OF that assms])
  then show ?thesis using RecordVaultRead by (simp add: record_serializable_vault_read_def ssi_kept_def subset_insertI del: hget_update_ssi)
next
  case (CheckCommit x w)
  with assms record_rw_edges_kept [OF assms] show ?thesis
    by (auto simp: serializable_commit_would_be_dangerous_def serializable_readers_would_be_dangerous_def Let_def)
next
  case (CheckVaultCommit x w)
  with assms record_rw_edges_kept [OF assms] show ?thesis
    by (auto simp: serializable_vault_commit_would_be_dangerous_def serializable_readers_would_be_dangerous_def Let_def)
qed (use assms in \<open>auto simp: prune_aborted_def pin_def unpin_def Let_def split: option.splits\<close>)

lemma hget_rollback_ssi:
  assumes "sm_rollback x m = Some m'" and "active (mgr m) - {x} \<noteq> {}" and "y \<noteq> x"
  shows "hget (serializable (mgr m')) y = map_option (drop_rw_edges x) (hget (serializable (mgr m)) y)"
proof -
  have pruned: "active st \<noteq> {} \<Longrightarrow> serializable (prune_serializable_state st) = serializable st" for st
    by (simp add: prune_serializable_state_def)
  let ?st = "\<lambda>r. (mgr m)\<lparr>active := active (mgr m) - {x}, snapshot_horizons := hdel x (snapshot_horizons (mgr m)), aborted := insert x (aborted (mgr m)),
    untracked_visibility_revision := r, serializable := hmap_values (\<lambda>_. drop_rw_edges x) (hdel x (serializable (mgr m)))\<rparr>"
  let ?c = "x \<in> active (mgr m) \<or> x \<notin> aborted (mgr m)" and ?m = "\<lambda>r. m\<lparr>mgr := prune_serializable_state (?st r)\<rparr>"
  obtain r where "m' = (if ?c then bump_revision (?m r) else ?m r)"
    using assms(1) unfolding sm_rollback_def Let_def by (split option.split_asm) blast+
  then have "serializable (mgr m') = serializable (prune_serializable_state (?st r))" by simp
  also have "\<dots> = hmap_values (\<lambda>_. drop_rw_edges x) (hdel x (serializable (mgr m)))" using assms(2) by (subst pruned) simp_all
  finally show ?thesis using assms(3) by simp
qed

lemma spares_kept:
  assumes "spares T c c'" and "T \<inter> active (mgr (fst c)) \<noteq> {}" and "y \<in> T" and "hget (serializable (mgr (fst c))) y = Some t"
  shows "\<exists>t'. hget (serializable (mgr (fst c'))) y = Some t' \<and> ssi_kept T t t'"
proof -
  obtain l where step: "mvcc_step c l c'" and live: "active (mgr (fst c')) \<noteq> {}" and ab: "T \<inter> aborted (mgr (fst c')) = {}"
    using assms(1,2) by (auto simp: spares_def)
  from step show ?thesis
  proof cases
    case (step_commit m gs x)
    have "active (mgr m) - {x} \<noteq> {}" using live step_commit by auto
    then show ?thesis using assms(4) step_commit by (auto simp: hget_commit_ssi ssi_kept_def)
  next
    case (step_rollback x m m' gs)
    have live': "active (mgr m) - {x} \<noteq> {}" and x: "x \<notin> T" using live ab step_rollback sm_rollback_frame [OF step_rollback(4)] by auto
    have "y \<noteq> x" using x assms(3) by auto
    from hget_rollback_ssi [OF step_rollback(4) live' this] show ?thesis
      using assms(4) step_rollback x by (auto simp: ssi_kept_def drop_rw_edges_def)
  next
    case (step_bookkeeping m gs b)
    with bookkeeping_kept assms(4) show ?thesis by simp
  next
    case (step_begin m x m' gs)
    with assms(4) show ?thesis by (auto simp: sm_begin_def Let_def)
  next
    case (step_allocate m x m' gs)
    with assms(4) show ?thesis by (auto simp: allocate_committed_xid_def Let_def split: if_splits)
  next
    case (step_snapshot x m s m' gs)
    with assms(4) sm_snapshot_frame(8) show ?thesis by auto
  next
    case (step_retain gs s m h m')
    with assms(4) show ?thesis by (auto simp: retain_snapshot_def Let_def)
  next
    case (step_release h gs m m')
    with assms(4) show ?thesis by (auto simp: release_guard_def split: option.splits)
  next
    case (step_observe m gs x)
    with assms(4) show ?thesis by (auto simp: observe_committed_xid_def Let_def)
  qed
qed

lemma spares_run:
  assumes "(spares T)\<^sup>*\<^sup>* c c'" and "cfg_ok c" and "x \<in> T" and "x \<in> active (mgr (fst c))"
    and "y \<in> T" and "hget (serializable (mgr (fst c))) y = Some t"
  shows "cfg_ok c' \<and> x \<in> active (mgr (fst c')) \<and> (\<exists>t'. hget (serializable (mgr (fst c'))) y = Some t' \<and> ssi_kept T t t')"
  using assms(1)
proof (induction rule: rtranclp_induct)
  case base
  then show ?case using assms by auto
next
  case (step c1 c2)
  then obtain t1 where t1: "hget (serializable (mgr (fst c1))) y = Some t1" "ssi_kept T t t1" and x: "x \<in> active (mgr (fst c1))" by auto
  have "\<exists>t2. hget (serializable (mgr (fst c2))) y = Some t2 \<and> ssi_kept T t1 t2"
    using spares_kept [OF step(2) _ assms(5) t1(1)] x assms(3) by blast
  moreover have "x \<in> active (mgr (fst c2))" using step(2) x assms(3) by (auto simp: spares_def)
  moreover have "cfg_ok c2" using step(2,3) mvcc_step_wf [of c1 _ c2] by (auto simp: spares_def)
  ultimately show ?case using t1(2) by (auto intro: ssi_kept_trans)
qed

subsection \<open>Properties\<close>

text \<open>
  C4: write skew is refused once the first transaction has committed. Two serializable transactions each read a
  row the other writes, the second one before the first one's commit check. When the first one has passed its
  check and its commit has been published, with any calls of other connections in between, the commit check of
  the second, which is still active, answers that the commit is dangerous, again after any calls in between.
  The order matters: the check of the second comes after the commit of the first, and its read before the
  first one's check. The lemma \<open>write_skew_missed\<close> below shows that the code lets both commit otherwise.
\<close>

theorem write_skew_detected:
  assumes "sm_wf m" and "t1 \<noteq> t2" and "t2 \<in> active (mgr m)"
    and "hget (serializable (mgr m)) t1 = Some u1" and "hget (serializable (mgr m)) t2 = Some u2"
    and "k1 \<in> read_set u1" and "k2 \<in> read_set u2" and "k2 \<in> ws1" and "k1 \<in> ws2"
    and "(spares {t1, t2})\<^sup>*\<^sup>* (snd (serializable_commit_would_be_dangerous t1 ws1 m), gs) (m1, gs1)"
    and "(spares {t1, t2})\<^sup>*\<^sup>* (sm_commit t1 m1, gs1) (m2, gs2)"
  shows "fst (serializable_commit_would_be_dangerous t2 ws2 m2)"
proof -
  let ?T = "{t1, t2}" and ?m0 = "snd (serializable_commit_would_be_dangerous t1 ws1 m)"
  have wf: "hmap_wf (serializable (mgr m))" using assms(1) by (simp add: sm_wf_def)
  have ok0: "sm_wf ?m0" using sm_wf_bookkeeping [OF assms(1), of "CheckCommit t1 ws1"] by simp
  note c = check_records_outgoing [OF wf assms(4,5) assms(2) [symmetric] assms(7,8) refl]
  obtain v2 where v2: "hget (serializable (mgr ?m0)) t2 = Some v2" "t1 \<in> outgoing_rw v2" using c(1) by auto
  obtain v1 where v1: "hget (serializable (mgr ?m0)) t1 = Some v1" "read_set v1 = read_set u1" using c(2) by auto
  have act: "t2 \<in> active (mgr ?m0)" using assms(3) c(4) by simp
  obtain x2 where x2: "hget (serializable (mgr m1)) t2 = Some x2" "ssi_kept ?T v2 x2" and m1: "sm_wf m1" "t2 \<in> active (mgr m1)"
    using spares_run [OF assms(10), of t2 t2 v2] ok0 act v2 by auto
  obtain x1 where x1: "hget (serializable (mgr m1)) t1 = Some x1" "ssi_kept ?T v1 x1"
    using spares_run [OF assms(10), of t2 t1 v1] ok0 act v1 by auto
  let ?m1 = "sm_commit t1 m1"
  have live: "active (mgr m1) - {t1} \<noteq> {}" using m1(2) assms(2) by auto
  have s1: "hget (serializable (mgr ?m1)) t1 = Some (x1\<lparr>ssi_committed := True\<rparr>)" and s2: "hget (serializable (mgr ?m1)) t2 = Some x2"
    using x1 x2 assms(2) by (simp_all add: hget_commit_ssi [OF live])
  have act1: "t2 \<in> active (mgr ?m1)" using m1(2) assms(2) by (simp add: sm_commit_def Let_def)
  have ok1: "sm_wf ?m1" by (rule sm_wf_commit [OF m1(1)])
  obtain y2 where y2: "hget (serializable (mgr m2)) t2 = Some y2" "ssi_kept ?T x2 y2" and ok2: "sm_wf m2"
    using spares_run [OF assms(11), of t2 t2 x2] ok1 act1 s2 by auto
  obtain y1 where y1: "hget (serializable (mgr m2)) t1 = Some y1" "ssi_kept ?T (x1\<lparr>ssi_committed := True\<rparr>) y1"
    using spares_run [OF assms(11), of t2 t1 "x1\<lparr>ssi_committed := True\<rparr>"] ok1 act1 s1 by auto
  have "ssi_committed y1" "k1 \<in> read_set y1" "t1 \<in> outgoing_rw y2"
    using x1 x2 y1 y2 v1 v2 assms(6) by (auto simp: ssi_kept_def)
  moreover have "hmap_wf (serializable (mgr m2))" "ws2 \<noteq> {}" using ok2 assms(9) by (auto simp: sm_wf_def)
  ultimately show ?thesis using y1(1) assms(2,9) by (subst serializable_commit_dangerous_iff [OF _ y2(1)]) blast+
qed

definition skew_demo :: snapshot_manager where
  "skew_demo = record_serializable_read 2 ''t'' 8 (record_serializable_read 1 ''t'' 7
     (begin_serializable 2 (begin_serializable 1 (snd (sm_begin (snd (sm_begin sm_new)))))))"

lemma skew_demo_wf: "sm_wf skew_demo"
proof -
  have "sm_wf (snd (sm_begin (snd (sm_begin sm_new))))"
    by (simp add: demo_defs sm_wf_def u64_max_def)
  then have "sm_wf (run_bookkeeping (RecordRead 2 ''t'' 8) (run_bookkeeping (RecordRead 1 ''t'' 7)
      (run_bookkeeping (BeginSerializable 2) (run_bookkeeping (BeginSerializable 1)
        (snd (sm_begin (snd (sm_begin sm_new))))))))"
    by (intro sm_wf_bookkeeping)
  then show ?thesis by (simp add: skew_demo_def)
qed

theorem write_skew_detected_witness:
  "fst (serializable_commit_would_be_dangerous 2 {(''t'', 7)}
    (snd (sm_begin (sm_commit 1 (snd (serializable_commit_would_be_dangerous 1 {(''t'', 8)} skew_demo))))))"
proof -
  let ?m1 = "snd (serializable_commit_would_be_dangerous 1 {(''t'', 8)} skew_demo)"
  have demo: "next_xid skew_demo = 3" "active (mgr skew_demo) = {1, 2}" "aborted (mgr skew_demo) = {}"
    by (auto simp: skew_demo_def demo_defs record_serializable_read_def begin_serializable_def update_ssi_def serializable_txn_default_def)
  have "aborted (mgr ?m1) = aborted (mgr skew_demo)"
    by (simp add: serializable_commit_would_be_dangerous_def serializable_readers_would_be_dangerous_def Let_def)
  with demo have defs: "next_xid (sm_commit 1 ?m1) = 3" "active (mgr (sm_commit 1 ?m1)) = {2}" "aborted (mgr (sm_commit 1 ?m1)) = {}"
    using run_bookkeeping_frame(1,3) [of "CheckCommit 1 {(''t'', 8)}" skew_demo] by simp_all
  have "mvcc_step (sm_commit 1 ?m1, []) (Some (fst (sm_begin (sm_commit 1 ?m1)))) (snd (sm_begin (sm_commit 1 ?m1)), [])"
    by (rule step_begin) (use defs(1) in \<open>simp_all add: u64_max_def\<close>)
  then have other: "(spares {1, 2})\<^sup>*\<^sup>* (sm_commit 1 ?m1, []) (snd (sm_begin (sm_commit 1 ?m1)), [])"
    using defs by (intro r_into_rtranclp) (auto simp: spares_def sm_begin_def Let_def)
  show ?thesis
    by (rule write_skew_detected [OF skew_demo_wf _ _ _ _ _ _ _ _ rtranclp.rtrancl_refl other, where ?k1.0 = "(''t'', 7)" and ?k2.0 = "(''t'', 8)"
          and ?u1.0 = "serializable_txn_default\<lparr>read_set := {(''t'', 7)}\<rparr>"
          and ?u2.0 = "serializable_txn_default\<lparr>read_set := {(''t'', 8)}\<rparr>"])
      (simp_all add: skew_demo_def demo_defs record_serializable_read_def begin_serializable_def serializable_txn_default_def)
qed

text \<open>
  Write skew that is not refused. Two registered transactions without edges, each reading a row the other writes.
  If both checks come before either commit, which the server allows, since it takes the publication lock only
  after validation, both pass. And if the second reads its row only after the first has been checked and
  has committed, from the snapshot it took before, no edge is recorded for that read and its check passes too.
\<close>

lemma write_skew_missed:
  assumes "sm_wf m" and "t1 \<noteq> t2" and "t2 \<in> active (mgr m)" and "ws1 \<noteq> {}" and "ws2 \<noteq> {}"
    and "hget (serializable (mgr m)) t1 = Some u1" and "hget (serializable (mgr m)) t2 = Some u2"
    and "\<And>x u. hget (serializable (mgr m)) x = Some u \<Longrightarrow> \<not> ssi_committed u" and "outgoing_rw u1 = {}" and "outgoing_rw u2 = {}"
  defines "checked \<equiv> snd (serializable_commit_would_be_dangerous t1 ws1 m)"
  shows "\<not> fst (serializable_commit_would_be_dangerous t1 ws1 m) \<and> \<not> fst (serializable_commit_would_be_dangerous t2 ws2 checked)"
    and "read_set u2 \<inter> ws1 = {} \<Longrightarrow>
      \<not> fst (serializable_commit_would_be_dangerous t2 ws2 (record_serializable_read t2 c i (sm_commit t1 checked)))"
proof -
  have wf: "hmap_wf (serializable (mgr m))" using assms(1) by (simp add: sm_wf_def)
  have checked: "mgr checked = record_rw_edges t1 (conflicting_readers t1 ws1 (mgr m)) (mgr m)" and t1: "t1 \<notin> set (conflicting_readers t1 ws1 (mgr m))"
    using assms(4,6) conflicting_readers_set [OF wf]
    by (simp_all add: checked_def serializable_commit_would_be_dangerous_def serializable_readers_would_be_dangerous_def Let_def)
  have get: "hget (serializable (mgr checked)) y = map_option (\<lambda>t. if y = t1 then t\<lparr>incoming_rw := incoming_rw t \<union> set (conflicting_readers t1 ws1 (mgr m))\<rparr>
      else if y \<in> set (conflicting_readers t1 ws1 (mgr m)) then t\<lparr>outgoing_rw := insert t1 (outgoing_rw t)\<rparr> else t) (hget (serializable (mgr m)) y)" for y
    unfolding checked by (rule hget_record_rw_edges [OF t1])
  have wfc: "hmap_wf (serializable (mgr checked))" using wf by (simp add: checked)
  have first: "\<not> fst (serializable_commit_would_be_dangerous t1 ws1 m)"
    unfolding serializable_commit_dangerous_iff [OF wf assms(6,4)] using assms(8) by blast
  have none: "\<not> ssi_committed u" if "hget (serializable (mgr checked)) x = Some u" for x u
    using that assms(8) [of x] by (auto simp: get split: if_splits)
  obtain v2 where v2: "hget (serializable (mgr checked)) t2 = Some v2" using assms(7) by (simp add: get)
  have "\<not> fst (serializable_commit_would_be_dangerous t2 ws2 checked)"
    unfolding serializable_commit_dangerous_iff [OF wfc v2 assms(5)] using none by blast
  with first show "\<not> fst (serializable_commit_would_be_dangerous t1 ws1 m) \<and> \<not> fst (serializable_commit_would_be_dangerous t2 ws2 checked)" by simp
  assume "read_set u2 \<inter> ws1 = {}"
  then have "t2 \<notin> set (conflicting_readers t1 ws1 (mgr m))" using assms(7) conflicting_readers_set [OF wf] by simp
  then have t2: "hget (serializable (mgr checked)) t2 = Some u2" using assms(2,7) by (simp add: get)
  have "active (mgr checked) - {t1} \<noteq> {}" using assms(2,3) by (auto simp: checked)
  note commit = hget_commit_ssi [OF this]
  let ?m = "record_serializable_read t2 c i (sm_commit t1 checked)"
  have "hget (serializable (mgr ?m)) t2 = Some (u2\<lparr>read_set := insert (c, i) (read_set u2)\<rparr>)"
    using t2 assms(2) by (simp add: record_serializable_read_def commit)
  moreover have "hmap_wf (serializable (mgr ?m))" using sm_commit_ssi_wf [OF wfc] by (simp add: record_serializable_read_def)
  ultimately show "\<not> fst (serializable_commit_would_be_dangerous t2 ws2 ?m)"
    using assms(5,10) by (subst serializable_commit_dangerous_iff) auto
qed

text \<open>
  The exact refusal condition. A registered writer with a non-empty write set is refused exactly
  when it is a pivot: some transaction read what it writes (now or recorded earlier), and it read what
  a transaction that has since committed wrote.
\<close>

theorem commit_refused_iff_pivot:
  assumes "sm_wf m" and "hget (serializable (mgr m)) w = Some t" and "ws \<noteq> {}"
  shows "fst (serializable_commit_would_be_dangerous w ws m) \<longleftrightarrow>
    (incoming_rw t \<noteq> {} \<or>
     (\<exists>r u. r \<noteq> w \<and> hget (serializable (mgr m)) r = Some u \<and> read_set u \<inter> ws \<noteq> {})) \<and>
    (\<exists>x u. x \<in> outgoing_rw t \<and> hget (serializable (mgr m)) x = Some u \<and> ssi_committed u)"
proof -
  have wf: "hmap_wf (serializable (mgr m))" using assms(1) by (simp add: sm_wf_def)
  show ?thesis
    unfolding serializable_commit_dangerous_iff [OF wf assms(2,3)] by blast
qed

theorem commit_refused_iff_pivot_witness:
  "\<not> fst (serializable_commit_would_be_dangerous 1 {(''t'', 8)} skew_demo)"
proof -
  have reg: "hget (serializable (mgr skew_demo)) 1 = Some (serializable_txn_default\<lparr>read_set := {(''t'', 7)}\<rparr>)"
    by (simp add: skew_demo_def demo_defs record_serializable_read_def begin_serializable_def
        serializable_txn_default_def)
  show ?thesis
    unfolding commit_refused_iff_pivot [OF skew_demo_wf reg insert_not_empty]
    by (simp add: serializable_txn_default_def)
qed

end
