(* ===== verification/Transaction_State.thy ===== *)
theory Transaction_State
  imports Mvcc_Traces "HOL-Library.Multiset"
begin

section \<open>Connection transactions\<close>

text \<open>
  \<open>src/crates/reddb-engine/src/transaction/state.rs\<close>: the per-connection transaction contexts with
  their savepoints. The closure \<open>prepare\<close> of
  \<open>commit\<close> and of \<open>rollback_to_savepoint_with\<close> is host code (validation and WAL append): it is an
  argument, which may call back into the snapshot manager. A \<open>panic\<close> of the manager is \<open>None\<close>.
\<close>

datatype isolation_level = ReadUncommitted | ReadCommitted | SnapshotIsolation | Serializable

record txn_context =
  ctx_xid :: xid
  ctx_isolation :: isolation_level
  ctx_snapshot :: snapshot
  ctx_savepoints :: "(string \<times> xid) list"
  ctx_released :: "xid list"

definition ctx_writer_xid :: "txn_context \<Rightarrow> xid" where
  "ctx_writer_xid c = (if ctx_savepoints c = [] then ctx_xid c else snd (last (ctx_savepoints c)))"

datatype savepoint_error = SavepointError string

record rollback_to =
  rb_savepoint_xid :: xid
  rb_aborted_xids :: "xid list"

record transaction_state =
  ts_manager :: snapshot_manager
  contexts :: "(nat, txn_context) hmap"
  local_tenants :: "(nat, string option) hmap"

definition ts_new :: transaction_state where
  "ts_new = \<lparr>ts_manager = sm_new, contexts = [], local_tenants = []\<rparr>"

definition ts_begin :: "nat \<Rightarrow> isolation_level \<Rightarrow> transaction_state \<Rightarrow> xid \<times> transaction_state" where
  "ts_begin conn isolation ts =
     (let (xid, m1) = sm_begin (ts_manager ts);
          m2 = (if isolation = Serializable then begin_serializable xid m1 else m1);
          (snap, m3) = sm_snapshot xid m2;
          c = \<lparr>ctx_xid = xid, ctx_isolation = isolation, ctx_snapshot = snap, ctx_savepoints = [],
               ctx_released = []\<rparr>
      in (xid, ts\<lparr>ts_manager := m3, contexts := hput conn c (contexts ts)\<rparr>))"

text \<open>The loops of \<open>commit\<close> and \<open>rollback_context\<close>: savepoints, then released sub-xids, then the parent.\<close>

definition ctx_xids :: "txn_context \<Rightarrow> xid list" where
  "ctx_xids c = map snd (ctx_savepoints c) @ ctx_released c @ [ctx_xid c]"

fun commit_all :: "xid list \<Rightarrow> snapshot_manager \<Rightarrow> snapshot_manager" where
  "commit_all [] m = m"
| "commit_all (x # xs) m = commit_all xs (sm_commit x m)"

fun rollback_all :: "xid list \<Rightarrow> snapshot_manager \<Rightarrow> snapshot_manager option" where
  "rollback_all [] m = Some m"
| "rollback_all (x # xs) m = Option.bind (sm_rollback x m) (rollback_all xs)"

definition rollback_context :: "txn_context \<Rightarrow> snapshot_manager \<Rightarrow> snapshot_manager option" where
  "rollback_context c m = rollback_all (ctx_xids c) m"

type_synonym ('e, 'p) prepare = "txn_context \<Rightarrow> snapshot_manager \<Rightarrow> ('e + 'p) \<times> snapshot_manager"

definition ts_commit ::
  "nat \<Rightarrow> ('e, 'p) prepare \<Rightarrow> transaction_state \<Rightarrow> (('e + txn_context option) \<times> transaction_state) option" where
  "ts_commit conn prepare ts0 =
     (let ts = ts0\<lparr>local_tenants := hdel conn (local_tenants ts0)\<rparr>
      in case hget (contexts ts) conn of
           None \<Rightarrow> Some (Inr None, ts)
         | Some c \<Rightarrow>
             (let ts1 = ts\<lparr>contexts := hdel conn (contexts ts)\<rparr>
              in case prepare c (ts_manager ts1) of
                   (Inl e, m) \<Rightarrow>
                     map_option (\<lambda>m'. (Inl e, ts1\<lparr>ts_manager := m'\<rparr>)) (rollback_context c m)
                 | (Inr _, m) \<Rightarrow>
                     Some (Inr (Some c), ts1\<lparr>ts_manager := commit_all (ctx_xids c) m\<rparr>)))"

definition ts_rollback ::
  "nat \<Rightarrow> transaction_state \<Rightarrow> (txn_context option \<times> transaction_state) option" where
  "ts_rollback conn ts0 =
     (let ts = ts0\<lparr>local_tenants := hdel conn (local_tenants ts0)\<rparr>
      in case hget (contexts ts) conn of
           None \<Rightarrow> Some (None, ts)
         | Some c \<Rightarrow>
             map_option (\<lambda>m'. (Some c, ts\<lparr>contexts := hdel conn (contexts ts), ts_manager := m'\<rparr>))
               (rollback_context c (ts_manager ts)))"

definition has_savepoint :: "nat \<Rightarrow> string \<Rightarrow> transaction_state \<Rightarrow> bool" where
  "has_savepoint conn name ts =
     (case hget (contexts ts) conn of
        None \<Rightarrow> False
      | Some c \<Rightarrow> list_ex (\<lambda>(existing, _). existing = name) (ctx_savepoints c))"

definition savepoint :: "nat \<Rightarrow> string \<Rightarrow> transaction_state \<Rightarrow> xid option \<times> transaction_state" where
  "savepoint conn name ts =
     (case hget (contexts ts) conn of
        None \<Rightarrow> (None, ts)
      | Some c \<Rightarrow>
          (let (xid, m) = sm_begin (ts_manager ts);
               c' = c\<lparr>ctx_savepoints := ctx_savepoints c @ [(name, xid)]\<rparr>
           in (Some xid, ts\<lparr>ts_manager := m, contexts := hput conn c' (contexts ts)\<rparr>)))"

text \<open>\<open>iter().position(..)\<close>: the first index with that name.\<close>

fun savepoint_position :: "string \<Rightarrow> (string \<times> xid) list \<Rightarrow> nat option" where
  "savepoint_position name [] = None"
| "savepoint_position name ((n, _) # sps) =
     (if n = name then Some 0 else map_option Suc (savepoint_position name sps))"

definition release_savepoint ::
  "nat \<Rightarrow> string \<Rightarrow> transaction_state \<Rightarrow> (savepoint_error + nat option) \<times> transaction_state" where
  "release_savepoint conn name ts =
     (case hget (contexts ts) conn of
        None \<Rightarrow> (Inr None, ts)
      | Some c \<Rightarrow>
          (case savepoint_position name (ctx_savepoints c) of
             None \<Rightarrow> (Inl (SavepointError name), ts)
           | Some p \<Rightarrow>
               (let sps = ctx_savepoints c;
                    c' = c\<lparr>ctx_savepoints := take p sps,
                           ctx_released := ctx_released c @ map snd (drop p sps)\<rparr>
                in (Inr (Some (length sps - p)), ts\<lparr>contexts := hput conn c' (contexts ts)\<rparr>))))"

definition rollback_to_savepoint_with ::
  "nat \<Rightarrow> string \<Rightarrow> (rollback_to \<Rightarrow> snapshot_manager \<Rightarrow> ('e + 't) \<times> snapshot_manager) \<Rightarrow>
   (savepoint_error \<Rightarrow> 'e) \<Rightarrow> transaction_state \<Rightarrow>
   (('e + (rollback_to \<times> 't) option) \<times> transaction_state) option" where
  "rollback_to_savepoint_with conn name prepare from_err ts =
     (case hget (contexts ts) conn of
        None \<Rightarrow> Some (Inr None, ts)
      | Some c \<Rightarrow>
          (case savepoint_position name (ctx_savepoints c) of
             None \<Rightarrow> Some (Inl (from_err (SavepointError name)), ts)
           | Some p \<Rightarrow>
               (let sps = ctx_savepoints c;
                    rb = \<lparr>rb_savepoint_xid = snd (sps ! p), rb_aborted_xids = map snd (drop p sps)\<rparr>;
                    ts1 = ts\<lparr>contexts := hput conn (c\<lparr>ctx_savepoints := take p sps\<rparr>) (contexts ts)\<rparr>;
                    (prepared, m) = prepare rb (ts_manager ts1)
                in map_option
                     (\<lambda>m'. (case prepared of Inl e \<Rightarrow> Inl e | Inr t \<Rightarrow> Inr (Some (rb, t)),
                            ts1\<lparr>ts_manager := m'\<rparr>))
                     (rollback_all (rb_aborted_xids rb) m))))"

definition rollback_to_savepoint ::
  "nat \<Rightarrow> string \<Rightarrow> transaction_state \<Rightarrow>
   ((savepoint_error + rollback_to option) \<times> transaction_state) option" where
  "rollback_to_savepoint conn name ts =
     map_option (\<lambda>(r, ts'). (case r of Inl e \<Rightarrow> Inl e | Inr x \<Rightarrow> Inr (map_option fst x), ts'))
       (rollback_to_savepoint_with conn name (\<lambda>_ m. (Inr (), m)) (\<lambda>e. e) ts)"

definition in_transaction :: "nat \<Rightarrow> transaction_state \<Rightarrow> bool" where
  "in_transaction conn ts = (conn \<in> hkeys (contexts ts))"

definition current_snapshot :: "nat \<Rightarrow> transaction_state \<Rightarrow> snapshot" where
  "current_snapshot conn ts =
     (case hget (contexts ts) conn of
        Some c \<Rightarrow> (if ctx_isolation c = ReadCommitted then fresh_read_snapshot (ts_manager ts)
                   else ctx_snapshot c)
      | None \<Rightarrow> fresh_read_snapshot (ts_manager ts))"

definition retained_current_snapshot ::
  "nat \<Rightarrow> transaction_state \<Rightarrow> (snapshot \<times> xid) \<times> transaction_state" where
  "retained_current_snapshot conn ts =
     (case hget (contexts ts) conn of
        Some c \<Rightarrow>
          (if ctx_isolation c \<noteq> ReadCommitted
           then (let (h, m) = retain_snapshot (ctx_snapshot c) (ts_manager ts)
                 in ((ctx_snapshot c, h), ts\<lparr>ts_manager := m\<rparr>))
           else (let (g, m) = fresh_retained_snapshot (ts_manager ts) in (g, ts\<lparr>ts_manager := m\<rparr>)))
      | None \<Rightarrow> (let (g, m) = fresh_retained_snapshot (ts_manager ts) in (g, ts\<lparr>ts_manager := m\<rparr>)))"

definition ts_writer_xid :: "nat \<Rightarrow> transaction_state \<Rightarrow> xid option" where
  "ts_writer_xid conn ts = map_option ctx_writer_xid (hget (contexts ts) conn)"

definition own_xids :: "nat \<Rightarrow> transaction_state \<Rightarrow> xid set" where
  "own_xids conn ts =
     (case hget (contexts ts) conn of
        None \<Rightarrow> {}
      | Some c \<Rightarrow> insert (ctx_xid c) (set (map snd (ctx_savepoints c)) \<union> set (ctx_released c)))"

definition set_local_tenant :: "nat \<Rightarrow> string option \<Rightarrow> transaction_state \<Rightarrow> transaction_state" where
  "set_local_tenant conn tenant ts = ts\<lparr>local_tenants := hput conn tenant (local_tenants ts)\<rparr>"

definition local_tenant :: "nat \<Rightarrow> transaction_state \<Rightarrow> string option option" where
  "local_tenant conn ts = hget (local_tenants ts) conn"

subsection \<open>The outcome of a list of xids\<close>

lemma commit_all_frame [simp]:
  "active (mgr (commit_all xs m)) = active (mgr m) - set xs"
  "aborted (mgr (commit_all xs m)) = aborted (mgr m) - set xs"
  "issuable (commit_all xs m) = issuable m"
  "next_xid (commit_all xs m) = next_xid m"
  "pool (commit_all xs m) = pool m"
  by (induction xs arbitrary: m) auto

lemma commit_all_append: "commit_all (xs @ ys) m = commit_all ys (commit_all xs m)"
  by (induction xs arbitrary: m) auto

lemma sm_wf_commit_all: "sm_wf m \<Longrightarrow> sm_wf (commit_all xs m)"
  by (induction xs arbitrary: m) (auto intro: sm_wf_commit)

lemma rollback_all_active:
  assumes "distinct xs" and "set xs \<subseteq> active (mgr m)" and "sm_wf m"
  obtains m' where "rollback_all xs m = Some m'" and "sm_wf m'"
    and "active (mgr m') = active (mgr m) - set xs" and "aborted (mgr m') = aborted (mgr m) \<union> set xs"
    and "issuable m' = issuable m"
  using assms
proof (induction xs arbitrary: m thesis)
  case Nil
  then show ?case by auto
next
  case (Cons x xs)
  then obtain m1 where m1: "sm_rollback x m = Some m1"
    using sm_rollback_active [of x m] by auto
  have "set xs \<subseteq> active (mgr m1)" and "sm_wf m1"
    using Cons.prems m1 by (auto simp: sm_rollback_frame(4) [OF m1] intro: sm_wf_rollback)
  with Cons.prems(2) obtain m' where m': "rollback_all xs m1 = Some m'" "sm_wf m'"
      "active (mgr m') = active (mgr m1) - set xs" "aborted (mgr m') = aborted (mgr m1) \<union> set xs"
      "issuable m' = issuable m1"
    using Cons.IH [of m1] by auto
  with m1 show ?case
    by (intro Cons.prems(1) [of m']) (auto simp: sm_rollback_frame [OF m1])
qed

lemma fold_bookkeeping_frame [simp]:
  "active (mgr (fold run_bookkeeping bs m)) = active (mgr m)"
  "issuable (fold run_bookkeeping bs m) = issuable m"
  "next_xid (fold run_bookkeeping bs m) = next_xid m"
  by (induction bs arbitrary: m) auto

lemma sm_wf_fold_bookkeeping: "sm_wf m \<Longrightarrow> sm_wf (fold run_bookkeeping bs m)"
  by (induction bs arbitrary: m) (auto intro: sm_wf_bookkeeping)

subsection \<open>The invariant of the connection table\<close>

text \<open>
  Every xid of an open context is active, no xid is held twice, and no two connections share one.
\<close>

definition ts_wf :: "transaction_state \<Rightarrow> bool" where
  "ts_wf ts \<longleftrightarrow>
     sm_wf (ts_manager ts) \<and> hmap_wf (contexts ts) \<and>
     (\<forall>conn c. hget (contexts ts) conn = Some c \<longrightarrow> distinct (ctx_xids c)) \<and>
     (\<forall>conn c x. hget (contexts ts) conn = Some c \<longrightarrow> x \<in> set (ctx_xids c) \<longrightarrow>
        x \<in> active (mgr (ts_manager ts))) \<and>
     (\<forall>conn1 conn2 c1 c2 x. hget (contexts ts) conn1 = Some c1 \<longrightarrow> hget (contexts ts) conn2 = Some c2 \<longrightarrow>
        x \<in> set (ctx_xids c1) \<longrightarrow> x \<in> set (ctx_xids c2) \<longrightarrow> conn1 = conn2)"

lemma ts_wfD:
  assumes "ts_wf ts"
  shows "sm_wf (ts_manager ts)" and "hmap_wf (contexts ts)"
    and "hget (contexts ts) conn = Some c \<Longrightarrow> distinct (ctx_xids c)"
    and "hget (contexts ts) conn = Some c \<Longrightarrow> x \<in> set (ctx_xids c) \<Longrightarrow> x \<in> active (mgr (ts_manager ts))"
    and "hget (contexts ts) conn = Some c \<Longrightarrow> hget (contexts ts) conn' = Some c' \<Longrightarrow>
      x \<in> set (ctx_xids c) \<Longrightarrow> x \<in> set (ctx_xids c') \<Longrightarrow> conn = conn'"
  using assms unfolding ts_wf_def by blast+

lemma ts_wf_new: "ts_wf ts_new"
  by (simp add: ts_wf_def ts_new_def sm_wf_new)

text \<open>Adding or replacing the context of one connection, and removing it.\<close>

lemma ts_wf_put:
  assumes "ts_wf ts" and "sm_wf m" and "distinct (ctx_xids c)" and "set (ctx_xids c) \<subseteq> active (mgr m)"
    and "\<And>conn' c' x. conn' \<noteq> conn \<Longrightarrow> hget (contexts ts) conn' = Some c' \<Longrightarrow> x \<in> set (ctx_xids c') \<Longrightarrow>
      x \<in> active (mgr m) \<and> x \<notin> set (ctx_xids c)"
  shows "ts_wf (ts\<lparr>ts_manager := m, contexts := hput conn c (contexts ts)\<rparr>)"
  unfolding ts_wf_def
  using assms(2-4) by (auto split: if_splits dest: assms(5) ts_wfD(3-5) [OF assms(1)] intro: ts_wfD(2) [OF assms(1)])

lemma ts_wf_del:
  assumes "ts_wf ts" and "hget (contexts ts) conn = Some c" and "sm_wf m"
    and "active (mgr m) = active (mgr (ts_manager ts)) - set (ctx_xids c)"
  shows "ts_wf (ts\<lparr>local_tenants := lt, contexts := hdel conn (contexts ts), ts_manager := m\<rparr>)"
proof -
  have "x \<notin> set (ctx_xids c)" if "conn' \<noteq> conn" "hget (contexts ts) conn' = Some c'" "x \<in> set (ctx_xids c')"
    for conn' c' x
    using that ts_wfD(5) [OF assms(1) assms(2)] by blast
  with assms(3) show ?thesis
    unfolding ts_wf_def
    by (auto simp: assms(4) split: if_splits dest: ts_wfD(3-5) [OF assms(1)] intro: ts_wfD(2) [OF assms(1)])
qed

subsection \<open>The operations keep the invariant and do what they promise\<close>

lemma ctx_xids_own: "hget (contexts ts) conn = Some c \<Longrightarrow> own_xids conn ts = set (ctx_xids c)"
  by (auto simp: own_xids_def ctx_xids_def)

lemma ctx_writer_in_xids: "ctx_writer_xid c \<in> set (ctx_xids c)"
  by (auto simp: ctx_writer_xid_def ctx_xids_def)

lemma begin_serializable_frame [simp]:
  "active (mgr (begin_serializable x m)) = active (mgr m)"
  "issuable (begin_serializable x m) = issuable m"
  "aborted (mgr (begin_serializable x m)) = aborted (mgr m)"
  using run_bookkeeping_frame(3) [of "BeginSerializable x" m] run_bookkeeping_issuable [of "BeginSerializable x" m]
  by (simp_all add: begin_serializable_def split: option.splits)

lemma sm_wf_begin_serializable: "sm_wf m \<Longrightarrow> sm_wf (begin_serializable x m)"
  using sm_wf_bookkeeping [of m "BeginSerializable x"] by simp

lemma ts_begin_props:
  assumes "ts_wf ts" and "next_xid (ts_manager ts) < u64_max" and "ts_begin conn isolation ts = (x, ts')"
  shows "ts_wf ts'"
    and "\<exists>s. hget (contexts ts') conn =
           Some \<lparr>ctx_xid = x, ctx_isolation = isolation, ctx_snapshot = s, ctx_savepoints = [], ctx_released = []\<rparr> \<and>
         snap_xid s = x \<and> finite (snap_in_progress s) \<and>
         (\<forall>y. y \<in> issuable (ts_manager ts') \<longrightarrow> excludes s y) \<and>
         (\<forall>y \<in> active (mgr (ts_manager ts)). excludes s y)"
    and "active (mgr (ts_manager ts')) = insert x (active (mgr (ts_manager ts)))"
    and "x \<in> issuable (ts_manager ts)"
    and "aborted (mgr (ts_manager ts')) = aborted (mgr (ts_manager ts))"
    and "issuable (ts_manager ts') \<subseteq> issuable (ts_manager ts)"
    and "conn' \<noteq> conn \<Longrightarrow> hget (contexts ts') conn' = hget (contexts ts) conn'"
proof -
  obtain m1 where b: "sm_begin (ts_manager ts) = (x, m1)"
    using assms(3) by (auto simp: ts_begin_def Let_def split: prod.splits)
  define m2 where "m2 = (if isolation = Serializable then begin_serializable x m1 else m1)"
  obtain s m3 where sn: "sm_snapshot x m2 = (s, m3)" by (cases "sm_snapshot x m2")
  let ?c = "\<lparr>ctx_xid = x, ctx_isolation = isolation, ctx_snapshot = s, ctx_savepoints = [], ctx_released = []\<rparr>"
  have ts': "ts' = ts\<lparr>ts_manager := m3, contexts := hput conn ?c (contexts ts)\<rparr>"
    using assms(3) b sn by (simp add: ts_begin_def Let_def m2_def)
  note wf = ts_wfD [OF assms(1)]
  note b_props = sm_begin_props [OF wf(1) assms(2) b]
  have m2: "sm_wf m2" "active (mgr m2) = insert x (active (mgr (ts_manager ts)))" "issuable m2 = issuable m1"
      "aborted (mgr m2) = aborted (mgr (ts_manager ts))"
    using b_props by (auto simp: m2_def intro: sm_wf_begin_serializable)
  note m3 = sm_snapshot_frame [OF sn] sm_wf_snapshot [OF m2(1) sn]
  have new: "x \<notin> active (mgr (ts_manager ts))"
    using active_not_issuable [OF wf(1)] b_props(2) by blast
  have xs: "ctx_xids ?c = [x]" by (simp add: ctx_xids_def)
  show "ts_wf ts'"
    unfolding ts' using m3 m2 new
    by (intro ts_wf_put [OF assms(1)]) (auto simp: xs dest: wf(4))
  show "active (mgr (ts_manager ts')) = insert x (active (mgr (ts_manager ts)))"
    using m3(4) m2(2) by (simp add: ts')
  show "x \<in> issuable (ts_manager ts)"
    by (rule b_props(2))
  show "aborted (mgr (ts_manager ts')) = aborted (mgr (ts_manager ts))"
    and "issuable (ts_manager ts') \<subseteq> issuable (ts_manager ts)"
    and "conn' \<noteq> conn \<Longrightarrow> hget (contexts ts') conn' = hget (contexts ts) conn'"
    using m3(3,5) m2(3,4) b_props(3) by (auto simp: ts')
  have "x \<in> active (mgr m2)" by (simp add: m2(2))
  note ex = txn_snapshot_excludes [OF m2(1) this sn]
  have "finite (snap_in_progress s)" and "snap_xid s = x"
    using sn m2(1) by (auto simp: sm_snapshot_def Let_def sm_wf_def)
  then show "\<exists>s. hget (contexts ts') conn =
           Some \<lparr>ctx_xid = x, ctx_isolation = isolation, ctx_snapshot = s, ctx_savepoints = [], ctx_released = []\<rparr> \<and>
         snap_xid s = x \<and> finite (snap_in_progress s) \<and>
         (\<forall>y. y \<in> issuable (ts_manager ts') \<longrightarrow> excludes s y) \<and>
         (\<forall>y \<in> active (mgr (ts_manager ts)). excludes s y)"
    using ex m3(3) m2 new by (auto simp: ts')
qed

text \<open>Committing: the prepared transaction's xids, sub-transactions included, leave the active set together.\<close>

lemma ts_commit_ok:
  assumes "ts_wf ts" and "hget (contexts ts) conn = Some c"
    and "prepare c (ts_manager ts) = (Inr p, fold run_bookkeeping bs (ts_manager ts))"
  obtains ts' where "ts_commit conn prepare ts = Some (Inr (Some c), ts')" and "ts_wf ts'"
    and "contexts ts' = hdel conn (contexts ts)"
    and "active (mgr (ts_manager ts')) = active (mgr (ts_manager ts)) - set (ctx_xids c)"
    and "aborted (mgr (ts_manager ts')) =
      aborted (mgr (fold run_bookkeeping bs (ts_manager ts))) - set (ctx_xids c)"
    and "issuable (ts_manager ts') = issuable (ts_manager ts)"
proof -
  let ?m = "commit_all (ctx_xids c) (fold run_bookkeeping bs (ts_manager ts))"
  let ?ts = "ts\<lparr>local_tenants := hdel conn (local_tenants ts), contexts := hdel conn (contexts ts),
                ts_manager := ?m\<rparr>"
  have "ts_commit conn prepare ts = Some (Inr (Some c), ?ts)"
    using assms(2,3) by (simp add: ts_commit_def Let_def)
  moreover have "ts_wf ?ts"
    using ts_wfD(1) [OF assms(1)]
    by (intro ts_wf_del [OF assms(1,2)]) (auto intro: sm_wf_commit_all sm_wf_fold_bookkeeping)
  ultimately show thesis
    by (rule that) auto
qed

text \<open>A failed preparation aborts every xid of the transaction; the rollback cannot panic.\<close>

lemma ts_commit_failed:
  assumes "ts_wf ts" and "hget (contexts ts) conn = Some c"
    and "prepare c (ts_manager ts) = (Inl e, fold run_bookkeeping bs (ts_manager ts))"
  obtains ts' where "ts_commit conn prepare ts = Some (Inl e, ts')" and "ts_wf ts'"
    and "contexts ts' = hdel conn (contexts ts)"
    and "active (mgr (ts_manager ts')) = active (mgr (ts_manager ts)) - set (ctx_xids c)"
    and "aborted (mgr (ts_manager ts')) =
      aborted (mgr (fold run_bookkeeping bs (ts_manager ts))) \<union> set (ctx_xids c)"
    and "issuable (ts_manager ts') = issuable (ts_manager ts)"
proof -
  let ?m = "fold run_bookkeeping bs (ts_manager ts)"
  note wf = ts_wfD [OF assms(1)]
  have "set (ctx_xids c) \<subseteq> active (mgr ?m)" using wf(4) [OF assms(2)] by auto
  then obtain m' where m': "rollback_all (ctx_xids c) ?m = Some m'" "sm_wf m'"
      "active (mgr m') = active (mgr ?m) - set (ctx_xids c)" "aborted (mgr m') = aborted (mgr ?m) \<union> set (ctx_xids c)"
      "issuable m' = issuable ?m"
    using rollback_all_active [OF wf(3) [OF assms(2)]] sm_wf_fold_bookkeeping [OF wf(1)] by metis
  let ?ts = "ts\<lparr>local_tenants := hdel conn (local_tenants ts), contexts := hdel conn (contexts ts),
                ts_manager := m'\<rparr>"
  have "ts_commit conn prepare ts = Some (Inl e, ?ts)"
    using assms(2,3) m'(1) by (simp add: ts_commit_def Let_def rollback_context_def)
  moreover have "ts_wf ?ts"
    using m' by (intro ts_wf_del [OF assms(1,2)]) auto
  ultimately show thesis
    using m' by (intro that [of ?ts]) auto
qed

lemma ts_rollback_ok:
  assumes "ts_wf ts" and "hget (contexts ts) conn = Some c"
  obtains ts' where "ts_rollback conn ts = Some (Some c, ts')" and "ts_wf ts'"
    and "contexts ts' = hdel conn (contexts ts)"
    and "active (mgr (ts_manager ts')) = active (mgr (ts_manager ts)) - set (ctx_xids c)"
    and "aborted (mgr (ts_manager ts')) = aborted (mgr (ts_manager ts)) \<union> set (ctx_xids c)"
    and "issuable (ts_manager ts') = issuable (ts_manager ts)"
proof -
  note wf = ts_wfD [OF assms(1)]
  have "set (ctx_xids c) \<subseteq> active (mgr (ts_manager ts))" using wf(4) [OF assms(2)] by auto
  then obtain m' where m': "rollback_all (ctx_xids c) (ts_manager ts) = Some m'" "sm_wf m'"
      "active (mgr m') = active (mgr (ts_manager ts)) - set (ctx_xids c)"
      "aborted (mgr m') = aborted (mgr (ts_manager ts)) \<union> set (ctx_xids c)"
      "issuable m' = issuable (ts_manager ts)"
    using rollback_all_active [OF wf(3) [OF assms(2)]] wf(1) by metis
  let ?ts = "ts\<lparr>local_tenants := hdel conn (local_tenants ts), contexts := hdel conn (contexts ts),
                ts_manager := m'\<rparr>"
  have "ts_rollback conn ts = Some (Some c, ?ts)"
    using assms(2) m'(1) by (simp add: ts_rollback_def Let_def rollback_context_def)
  moreover have "ts_wf ?ts"
    using m' by (intro ts_wf_del [OF assms(1,2)]) auto
  ultimately show thesis
    using m' by (intro that [of ?ts]) auto
qed

subsection \<open>Savepoints\<close>

lemma savepoint_position_Some:
  "savepoint_position name sps = Some p \<longleftrightarrow>
     p < length sps \<and> fst (sps ! p) = name \<and> (\<forall>i<p. fst (sps ! i) \<noteq> name)"
proof (induction sps arbitrary: p)
  case Nil
  then show ?case by simp
next
  case (Cons sp sps)
  then show ?case
    by (cases sp; cases p) (auto simp: All_less_Suc2)
qed

lemma savepoint_position_None: "savepoint_position name sps = None \<longleftrightarrow> name \<notin> fst ` set sps"
  by (induction name sps rule: savepoint_position.induct) auto

lemma has_savepoint_iff:
  "has_savepoint conn name ts \<longleftrightarrow>
     (\<exists>c p. hget (contexts ts) conn = Some c \<and> savepoint_position name (ctx_savepoints c) = Some p)"
proof (cases "hget (contexts ts) conn")
  case (Some c)
  have "has_savepoint conn name ts \<longleftrightarrow> savepoint_position name (ctx_savepoints c) \<noteq> None"
    unfolding has_savepoint_def savepoint_position_None using Some by (force simp: list_ex_iff)
  with Some show ?thesis by auto
qed (simp add: has_savepoint_def)

lemma savepoint_props:
  assumes "ts_wf ts" and "hget (contexts ts) conn = Some c" and "next_xid (ts_manager ts) < u64_max"
  obtains x ts' where "savepoint conn name ts = (Some x, ts')" and "ts_wf ts'"
    and "hget (contexts ts') conn = Some (c\<lparr>ctx_savepoints := ctx_savepoints c @ [(name, x)]\<rparr>)"
    and "x \<in> issuable (ts_manager ts)" and "x \<notin> own_xids conn ts"
    and "active (mgr (ts_manager ts')) = insert x (active (mgr (ts_manager ts)))"
    and "aborted (mgr (ts_manager ts')) = aborted (mgr (ts_manager ts))"
    and "issuable (ts_manager ts') \<subseteq> issuable (ts_manager ts)"
    and "\<And>conn'. conn' \<noteq> conn \<Longrightarrow> hget (contexts ts') conn' = hget (contexts ts) conn'"
    and "own_xids conn ts' = insert x (own_xids conn ts)" and "ts_writer_xid conn ts' = Some x"
proof -
  obtain x m where b: "sm_begin (ts_manager ts) = (x, m)" by (cases "sm_begin (ts_manager ts)")
  note wf = ts_wfD [OF assms(1)] and b_props = sm_begin_props [OF ts_wfD(1) [OF assms(1)] assms(3) b]
  let ?c = "c\<lparr>ctx_savepoints := ctx_savepoints c @ [(name, x)]\<rparr>"
  let ?ts = "ts\<lparr>ts_manager := m, contexts := hput conn ?c (contexts ts)\<rparr>"
  have st: "savepoint conn name ts = (Some x, ?ts)"
    using assms(2) b by (simp add: savepoint_def)
  have new: "x \<notin> active (mgr (ts_manager ts))"
    using active_not_issuable [OF wf(1)] b_props(2) by blast
  then have new_own: "x \<notin> set (ctx_xids c)" using wf(4) [OF assms(2)] by blast
  have xs: "mset (ctx_xids ?c) = add_mset x (mset (ctx_xids c))" by (simp add: ctx_xids_def)
  then have set_xs: "set (ctx_xids ?c) = insert x (set (ctx_xids c))"
    by (metis set_mset_add_mset_insert set_mset_mset)
  have "distinct (ctx_xids ?c)"
    using wf(3) [OF assms(2)] new_own by (auto simp: ctx_xids_def)
  then have "ts_wf ?ts"
    using b_props(1,4) new wf(5) [OF assms(2)] wf(4) [OF assms(2)]
    by (intro ts_wf_put [OF assms(1)]) (auto simp: set_xs dest: wf(4))
  then show thesis
    using new_own set_xs b_props(2-5)
    by (intro that [OF st]) (auto simp: ctx_xids_own [OF assms(2)] ctx_xids_own [of ?ts conn ?c]
        ts_writer_xid_def ctx_writer_xid_def)
qed

lemma take_drop_savepoints:
  "set (ctx_xids (c\<lparr>ctx_savepoints := take p (ctx_savepoints c),
      ctx_released := ctx_released c @ map snd (drop p (ctx_savepoints c))\<rparr>)) = set (ctx_xids c)"
  "distinct (ctx_xids (c\<lparr>ctx_savepoints := take p (ctx_savepoints c),
      ctx_released := ctx_released c @ map snd (drop p (ctx_savepoints c))\<rparr>)) = distinct (ctx_xids c)"
proof -
  have "mset (map snd (take p (ctx_savepoints c))) + mset (map snd (drop p (ctx_savepoints c))) =
      mset (map snd (ctx_savepoints c))"
    unfolding mset_append [symmetric] map_append [symmetric] append_take_drop_id ..
  then have "mset (ctx_xids (c\<lparr>ctx_savepoints := take p (ctx_savepoints c),
      ctx_released := ctx_released c @ map snd (drop p (ctx_savepoints c))\<rparr>)) = mset (ctx_xids c)"
    by (simp add: ctx_xids_def ac_simps)
  then show "set (ctx_xids (c\<lparr>ctx_savepoints := take p (ctx_savepoints c),
      ctx_released := ctx_released c @ map snd (drop p (ctx_savepoints c))\<rparr>)) = set (ctx_xids c)"
    and "distinct (ctx_xids (c\<lparr>ctx_savepoints := take p (ctx_savepoints c),
      ctx_released := ctx_released c @ map snd (drop p (ctx_savepoints c))\<rparr>)) = distinct (ctx_xids c)"
    by (metis mset_eq_setD, metis mset_eq_imp_distinct_iff)
qed

text \<open>Releasing a savepoint moves its xids and changes nothing else: they stay owned, active and due at commit.\<close>

lemma release_savepoint_props:
  assumes "ts_wf ts" and "hget (contexts ts) conn = Some c"
    and "savepoint_position name (ctx_savepoints c) = Some p"
  obtains ts' where
    "release_savepoint conn name ts = (Inr (Some (length (ctx_savepoints c) - p)), ts')" and "ts_wf ts'"
    and "ts_manager ts' = ts_manager ts" and "own_xids conn ts' = own_xids conn ts"
    and "\<And>conn'. conn' \<noteq> conn \<Longrightarrow> hget (contexts ts') conn' = hget (contexts ts) conn'"
    and "\<not> has_savepoint conn name ts'"
proof -
  let ?c = "c\<lparr>ctx_savepoints := take p (ctx_savepoints c),
      ctx_released := ctx_released c @ map snd (drop p (ctx_savepoints c))\<rparr>"
  let ?ts = "ts\<lparr>contexts := hput conn ?c (contexts ts)\<rparr>"
  note wf = ts_wfD [OF assms(1)]
  have ts: "?ts = ts\<lparr>ts_manager := ts_manager ts, contexts := hput conn ?c (contexts ts)\<rparr>" by simp
  have wf': "ts_wf ?ts"
    unfolding ts using wf(1) wf(3) [OF assms(2)] wf(4) [OF assms(2)] wf(5) [OF assms(2)]
    by (intro ts_wf_put [OF assms(1)]) (auto simp only: take_drop_savepoints dest: wf(4))
  have "name \<notin> fst ` set (take p (ctx_savepoints c))"
    using assms(3) by (clarsimp simp: savepoint_position_Some in_set_conv_nth) (metis fst_conv)
  then have "\<not> has_savepoint conn name ?ts"
    by (force simp: has_savepoint_def list_ex_iff)
  with wf' show thesis
    using assms(2,3)
    by (intro that [of ?ts]) (simp_all add: release_savepoint_def Let_def take_drop_savepoints
        ctx_xids_own [OF assms(2)] ctx_xids_own [of ?ts conn ?c])
qed

text \<open>
  Rolling back to a savepoint aborts that savepoint and every later one, whether the undo closure
  succeeds or not, and leaves the rest of the transaction and every other connection as they were.
\<close>

lemma rollback_to_savepoint_with_props:
  assumes "ts_wf ts" and "hget (contexts ts) conn = Some c"
    and "savepoint_position name (ctx_savepoints c) = Some p"
    and "rb = \<lparr>rb_savepoint_xid = snd (ctx_savepoints c ! p), rb_aborted_xids = map snd (drop p (ctx_savepoints c))\<rparr>"
    and "prepare rb (ts_manager ts) = (res, fold run_bookkeeping bs (ts_manager ts))"
  obtains ts' where
    "rollback_to_savepoint_with conn name prepare from_err ts =
       Some (case res of Inl e \<Rightarrow> Inl e | Inr t \<Rightarrow> Inr (Some (rb, t)), ts')"
    and "ts_wf ts'" and "set (rb_aborted_xids rb) \<subseteq> own_xids conn ts"
    and "aborted (mgr (ts_manager ts')) =
      aborted (mgr (fold run_bookkeeping bs (ts_manager ts))) \<union> set (rb_aborted_xids rb)"
    and "active (mgr (ts_manager ts')) = active (mgr (ts_manager ts)) - set (rb_aborted_xids rb)"
    and "issuable (ts_manager ts') = issuable (ts_manager ts)"
    and "own_xids conn ts' = own_xids conn ts - set (rb_aborted_xids rb)"
    and "hget (contexts ts') conn = Some (c\<lparr>ctx_savepoints := take p (ctx_savepoints c)\<rparr>)"
    and "\<And>conn'. conn' \<noteq> conn \<Longrightarrow> hget (contexts ts') conn' = hget (contexts ts) conn'"
proof -
  let ?m = "fold run_bookkeeping bs (ts_manager ts)" and ?xs = "rb_aborted_xids rb"
  let ?c = "c\<lparr>ctx_savepoints := take p (ctx_savepoints c)\<rparr>"
  note wf = ts_wfD [OF assms(1)]
  have "map snd (ctx_savepoints c) = map snd (take p (ctx_savepoints c)) @ ?xs"
    using assms(4) by (simp flip: map_append)
  then have ctx: "ctx_xids c = map snd (take p (ctx_savepoints c)) @ ?xs @ ctx_released c @ [ctx_xid c]"
    by (simp add: ctx_xids_def)
  have dist: "distinct ?xs" "distinct (ctx_xids ?c)" and split: "set (ctx_xids c) = set (ctx_xids ?c) \<union> set ?xs"
      and disj: "set (ctx_xids ?c) = set (ctx_xids c) - set ?xs"
    using wf(3) [OF assms(2)] unfolding ctx by (auto simp: ctx_xids_def)
  have sub: "x \<in> set (ctx_xids c)" if "x \<in> set ?xs" for x
    using that split by blast
  have act: "set ?xs \<subseteq> active (mgr ?m)"
    using wf(4) [OF assms(2)] by (auto simp: split)
  obtain m' where m': "rollback_all ?xs ?m = Some m'" "sm_wf m'"
      "active (mgr m') = active (mgr ?m) - set ?xs" "aborted (mgr m') = aborted (mgr ?m) \<union> set ?xs"
      "issuable m' = issuable ?m"
    using rollback_all_active [OF dist(1) act sm_wf_fold_bookkeeping [OF wf(1)]] by metis
  let ?ts = "ts\<lparr>ts_manager := m', contexts := hput conn ?c (contexts ts)\<rparr>"
  have "ts_wf ?ts"
    using m' dist(2) wf(4) [OF assms(2)] wf(5) [OF assms(2)]
    by (intro ts_wf_put [OF assms(1)]) (auto simp: disj dest: wf(4) sub)
  moreover have "rollback_to_savepoint_with conn name prepare from_err ts =
       Some (case res of Inl e \<Rightarrow> Inl e | Inr t \<Rightarrow> Inr (Some (rb, t)), ?ts)"
    using assms(2,3,5) m'(1) unfolding assms(4)
    by (simp add: rollback_to_savepoint_with_def Let_def)
  ultimately show thesis
    using m' disj sub
    by (intro that [of ?ts]) (auto simp: ctx_xids_own [OF assms(2)] ctx_xids_own [of ?ts conn ?c])
qed

end
