(* ===== verification/Read_Resolver.thy ===== *)
theory Read_Resolver
  imports Transaction_State
begin

section \<open>The read path\<close>

text \<open>
  \<open>src/crates/reddb-engine/src/transaction/read.rs\<close> with the parts of \<open>storage/entity.rs\<close> it uses: the
  visibility of a version for a statement, and the selection of the version of a row that the
  statement reads, once over a version list and once over a fallible stream. The host's visibility
  closure and the payload type of an entity are parameters.
\<close>

datatype entity_kind =
    TableRow string nat
  | GraphNode string string
  | GraphEdge string string string string nat
  | VectorKind string
  | TimeSeriesPoint string string
  | QueueMessage string nat

fun kind_collection :: "entity_kind \<Rightarrow> string" where
  "kind_collection (TableRow table _) = table"
| "kind_collection (GraphNode label _) = label"
| "kind_collection (GraphEdge label _ _ _ _) = label"
| "kind_collection (VectorKind collection) = collection"
| "kind_collection (TimeSeriesPoint series _) = series"
| "kind_collection (QueueMessage queue _) = queue"

record 'd unified_entity =
  ent_id :: nat
  ent_logical_id :: "nat option"
  ent_kind :: entity_kind
  ent_created_at :: nat
  ent_updated_at :: nat
  ent_data :: 'd
  ent_sequence_id :: nat
  ent_field_bloom :: nat
  ent_xmin :: xid
  ent_xmax :: xid

definition logical_id :: "'d unified_entity \<Rightarrow> nat" where
  "logical_id e = (case ent_logical_id e of Some i \<Rightarrow> i | None \<Rightarrow> ent_id e)"

record snapshot_context =
  sc_snapshot :: snapshot
  sc_manager :: snapshot_manager
  sc_own_xids :: "xid set"
  sc_requires_index_fallback :: bool
  sc_serializable_reader :: "xid option"

text \<open>The manager is shared: the read is recorded in it, so the recording returns the new manager.\<close>

definition record_entity_read :: "snapshot_context \<Rightarrow> 'd unified_entity \<Rightarrow> snapshot_manager" where
  "record_entity_read ctx e =
     (case sc_serializable_reader ctx of
        None \<Rightarrow> sc_manager ctx
      | Some reader \<Rightarrow>
          (case ent_kind e of
             TableRow _ _ \<Rightarrow>
               record_serializable_read reader (kind_collection (ent_kind e)) (logical_id e) (sc_manager ctx)
           | _ \<Rightarrow> sc_manager ctx))"

definition visibility_check :: "snapshot_context \<Rightarrow> xid \<Rightarrow> xid \<Rightarrow> bool" where
  "visibility_check ctx xmin xmax =
     (if xmin \<noteq> 0 \<and> is_aborted xmin (sc_manager ctx) then False
      else let effective_xmax = (if xmax \<noteq> 0 \<and> is_aborted xmax (sc_manager ctx) then 0 else xmax);
               own_xmin = (xmin \<noteq> 0 \<and> xmin \<in> sc_own_xids ctx);
               own_xmax = (effective_xmax \<noteq> 0 \<and> effective_xmax \<in> sc_own_xids ctx)
           in if own_xmax then False
              else if own_xmin then True
              else sees (sc_snapshot ctx) xmin effective_xmax)"

text \<open>\<open>Iterator::max_by_key\<close>: of several maximal elements, the last one.\<close>

fun max_by_key :: "('a \<Rightarrow> nat) \<Rightarrow> 'a list \<Rightarrow> 'a option" where
  "max_by_key f [] = None"
| "max_by_key f (x # xs) =
     (case max_by_key f xs of
        None \<Rightarrow> Some x
      | Some y \<Rightarrow> (if f x \<le> f y then Some y else Some x))"

definition resolve_logical_id ::
  "(string \<Rightarrow> nat \<Rightarrow> 'd unified_entity list) \<Rightarrow> (string \<Rightarrow> nat \<Rightarrow> 'd unified_entity option) \<Rightarrow>
   string \<Rightarrow> nat \<Rightarrow> bool \<Rightarrow> ('d unified_entity \<Rightarrow> bool) \<Rightarrow> 'd unified_entity option" where
  "resolve_logical_id versions current collection lid select_versions visible =
     (if select_versions then max_by_key ent_xmin (filter visible (versions collection lid))
      else Option.bind (current collection lid) (\<lambda>e. if visible e then Some e else None))"

text \<open>
  A fallible store streams its versions to the visitor and may fail after any of them: it is the list
  it visits and the error it ends with, if any. The visitor of the source always asks for more.
\<close>

definition visit_version ::
  "('d unified_entity \<Rightarrow> bool) \<Rightarrow> 'd unified_entity option \<Rightarrow> 'd unified_entity \<Rightarrow> 'd unified_entity option" where
  "visit_version visible selected e =
     (if visible e \<and> (case selected of None \<Rightarrow> True | Some old \<Rightarrow> ent_xmin e \<ge> ent_xmin old)
      then Some e else selected)"

definition try_resolve_logical_id ::
  "(string \<Rightarrow> nat \<Rightarrow> 'd unified_entity list \<times> 'e option) \<Rightarrow>
   (string \<Rightarrow> nat \<Rightarrow> 'e + 'd unified_entity option) \<Rightarrow>
   string \<Rightarrow> nat \<Rightarrow> bool \<Rightarrow> ('d unified_entity \<Rightarrow> bool) \<Rightarrow> 'e + 'd unified_entity option" where
  "try_resolve_logical_id stream current collection lid select_versions visible =
     (if \<not> select_versions
      then and_then (current collection lid)
             (\<lambda>r. Inr (Option.bind r (\<lambda>e. if visible e then Some e else None)))
      else (let (es, failure) = stream collection lid;
                selected = foldl (visit_version visible) None es
            in case failure of Some err \<Rightarrow> Inl err | None \<Rightarrow> Inr selected))"

subsection \<open>Selection\<close>

lemma max_by_key_snoc:
  "max_by_key f (xs @ [x]) =
     (case max_by_key f xs of None \<Rightarrow> Some x | Some y \<Rightarrow> (if f y \<le> f x then Some x else Some y))"
  by (induction xs) (auto split: option.splits)

lemma max_by_key_None: "max_by_key f xs = None \<longleftrightarrow> xs = []"
  by (cases xs) (auto split: option.splits)

lemma max_by_key_Some:
  "max_by_key f xs = Some y \<Longrightarrow> y \<in> set xs \<and> (\<forall>x \<in> set xs. f x \<le> f y)"
proof (induction xs arbitrary: y)
  case (Cons x xs)
  then show ?case
    by (cases "max_by_key f xs") (auto simp: max_by_key_None split: if_splits)
qed simp

text \<open>The streaming selection computes the batch one: same version, ties included.\<close>

lemma visit_versions_max:
  "foldl (visit_version visible) None es = max_by_key ent_xmin (filter visible es)"
  by (induction es rule: rev_induct)
    (auto simp: visit_version_def max_by_key_snoc split: option.splits)

subsection \<open>Visibility\<close>

text \<open>Without own writes the check is the visibility predicate with the manager's aborted set.\<close>

lemma visibility_check_foreign:
  assumes "xmin \<notin> sc_own_xids ctx" and "xmax \<notin> sc_own_xids ctx"
  shows "visibility_check ctx xmin xmax =
    is_visible xmin xmax (snap_xid (sc_snapshot ctx)) (snap_in_progress (sc_snapshot ctx))
      (aborted (mgr (sc_manager ctx)))"
  using assms
  by (auto simp: visibility_check_def Let_def is_aborted_def sees_def is_visible_iff
      writer_committed_before_def)

lemma visibility_check_aborted: "is_aborted x (sc_manager ctx) \<Longrightarrow> x \<noteq> 0 \<Longrightarrow> \<not> visibility_check ctx x xmax"
  by (simp add: visibility_check_def)

lemma visibility_check_own:
  assumes "x \<in> sc_own_xids ctx" and "x \<noteq> 0" and "\<not> is_aborted x (sc_manager ctx)"
  shows "visibility_check ctx x 0" and "\<not> visibility_check ctx xmin x"
  using assms by (auto simp: visibility_check_def Let_def)

lemma visibility_check_excluded:
  assumes "excludes (sc_snapshot ctx) x" and "x \<notin> sc_own_xids ctx" and "x \<noteq> 0"
  shows "\<not> visibility_check ctx x xmax" and "visibility_check ctx xmin x = visibility_check ctx xmin 0"
  using assms by (auto simp: visibility_check_def Let_def sees_iff)

text \<open>The context a statement of a connection reads with, without an \<open>AS OF\<close> clause.\<close>

definition statement_context :: "nat \<Rightarrow> transaction_state \<Rightarrow> snapshot_context" where
  "statement_context conn ts =
     \<lparr>sc_snapshot = current_snapshot conn ts, sc_manager = ts_manager ts, sc_own_xids = own_xids conn ts,
      sc_requires_index_fallback = in_transaction conn ts,
      sc_serializable_reader =
        (case hget (contexts ts) conn of
           Some c \<Rightarrow> (if ctx_isolation c = Serializable then Some (ctx_xid c) else None)
         | None \<Rightarrow> None)\<rparr>"

lemma statement_context_simps [simp]:
  "sc_snapshot (statement_context conn ts) = current_snapshot conn ts"
  "sc_manager (statement_context conn ts) = ts_manager ts"
  "sc_own_xids (statement_context conn ts) = own_xids conn ts"
  by (simp_all add: statement_context_def)

subsection \<open>Properties\<close>

text \<open>
  the streaming resolver computes what the batch resolver computes. On a store that streams the
  same versions, \<open>try_resolve_logical_id\<close> returns the selection of \<open>resolve_logical_id\<close>, ties on \<open>xmin\<close>
  included; a failure at any point of the stream, or of the single-row lookup, is returned as the error.
\<close>

theorem try_resolve_refines_resolve:
  "try_resolve_logical_id (\<lambda>c i. (versions c i, None)) (\<lambda>c i. Inr (current c i)) coll lid sel visible =
     Inr (resolve_logical_id versions current coll lid sel visible) \<and>
   try_resolve_logical_id (\<lambda>c i. (versions c i, Some e)) (\<lambda>c i. Inl e) coll lid sel visible = Inl e"
  by (simp add: try_resolve_logical_id_def resolve_logical_id_def visit_versions_max Let_def)

text \<open>
  The version a statement reads is the newest visible one, and a row is read whenever some version
  of it is visible.
\<close>

theorem resolve_newest_visible:
  "case resolve_logical_id versions current coll lid True visible of
     Some e \<Rightarrow> e \<in> set (versions coll lid) \<and> visible e \<and>
       (\<nexists>e'. e' \<in> set (versions coll lid) \<and> visible e' \<and> ent_xmin e < ent_xmin e')
   | None \<Rightarrow> (\<nexists>e. e \<in> set (versions coll lid) \<and> visible e)"
  using max_by_key_Some [of ent_xmin "filter visible (versions coll lid)"]
    max_by_key_None [of ent_xmin "filter visible (versions coll lid)"]
  by (fastforce simp: resolve_logical_id_def filter_empty_conv not_less split: option.splits)

text \<open>
  The read path implements the MVCC rules. For a version of foreign writers the check is the
  \<open>is_visible\<close> predicate over the manager's current aborted set, that is: the inserter committed before
  the snapshot (or predates MVCC) and the deleter, if any, did not.
\<close>

theorem visibility_check_rules:
  assumes "xmin \<notin> sc_own_xids ctx" and "xmax \<notin> sc_own_xids ctx"
  shows "visibility_check ctx xmin xmax =
      is_visible xmin xmax (snap_xid (sc_snapshot ctx)) (snap_in_progress (sc_snapshot ctx))
        (aborted (mgr (sc_manager ctx))) \<and>
    (is_visible xmin xmax sx ip ab \<longleftrightarrow>
      (xmin = 0 \<or> writer_committed_before sx ip ab xmin) \<and> (xmax = 0 \<or> \<not> writer_committed_before sx ip ab xmax))"
  using visibility_check_foreign [OF assms] is_visible_iff by blast

theorem visibility_check_rules_witness:
  "visibility_check (statement_context 0 ts_new) 0 5 =
     is_visible 0 5 (snap_xid (current_snapshot 0 ts_new)) (snap_in_progress (current_snapshot 0 ts_new))
       (aborted (mgr (ts_manager ts_new)))"
  using visibility_check_rules [of 0 "statement_context 0 ts_new" 5]
  by (simp add: own_xids_def ts_new_def)

text \<open>
  A key that is not reserved is free for the writer that asks. When \<open>row_reserves_unique_key\<close> answers
  no for a version it did not insert itself, no statement of that writer on a fresh snapshot sees the
  version.
\<close>

theorem unreserved_key_not_visible:
  assumes "sm_wf m" and "\<not> row_reserves_unique_key xmin xmax own m" and "xmin \<noteq> 0" and "xmin \<notin> own"
    and "xmax \<notin> issuable m"
  shows "\<not> visibility_check \<lparr>sc_snapshot = fresh_read_snapshot m, sc_manager = m, sc_own_xids = own,
    sc_requires_index_fallback = fb, sc_serializable_reader = sr\<rparr> xmin xmax"
  using assms fresh_snapshot_excludes [OF assms(1), of xmax]
  by (auto simp: row_reserves_unique_key_def visibility_check_def Let_def is_aborted_def sees_iff split: if_splits)

theorem unreserved_key_not_visible_witness:
  "\<not> visibility_check \<lparr>sc_snapshot = fresh_read_snapshot demo2, sc_manager = demo2, sc_own_xids = {1},
    sc_requires_index_fallback = False, sc_serializable_reader = None\<rparr> 2 1"
proof (rule unreserved_key_not_visible)
  show "sm_wf demo2"
    by (simp add: demo_defs sm_wf_def u64_max_def Let_def)
qed (simp_all add: row_reserves_unique_key_def issuable_def demo_defs Let_def)

end
