(* ===== verification/Txn_Isolation.thy ===== *)
theory Txn_Isolation
  imports Read_Resolver
begin

section \<open>Isolation between connections\<close>

text \<open>
  The calls of all connections on one \<open>TransactionState\<close>, interleaved in any order, as the step
  relation \<open>ts_step\<close> (labelled with the calling connection). The host's \<open>prepare\<close> closures may use the
  manager's serializable tracking and pins; they do not prune the aborted set, which is vacuum's.
  The theory shows that the steps keep \<open>ts_wf\<close> and that what an open snapshot-isolation transaction
  sees does not depend on the steps of the others.
\<close>

fun tracks_only :: "bookkeeping \<Rightarrow> bool" where
  "tracks_only (PruneAborted _) = False"
| "tracks_only _ = True"

definition host_effect :: "snapshot_manager \<Rightarrow> snapshot_manager \<Rightarrow> bool" where
  "host_effect m m' \<longleftrightarrow> (\<exists>bs. list_all tracks_only bs \<and> m' = fold run_bookkeeping bs m)"

inductive ts_step :: "nat \<Rightarrow> transaction_state \<Rightarrow> transaction_state \<Rightarrow> bool" where
  ts_step_begin: "next_xid (ts_manager ts) < u64_max \<Longrightarrow> ts_begin conn isolation ts = (x, ts') \<Longrightarrow>
    ts_step conn ts ts'"
| ts_step_commit: "(\<And>c m. host_effect m (snd (prepare c m))) \<Longrightarrow>
    ts_commit conn (prepare :: (string, unit) prepare) ts = Some (r, ts') \<Longrightarrow> ts_step conn ts ts'"
| ts_step_rollback: "ts_rollback conn ts = Some (r, ts') \<Longrightarrow> ts_step conn ts ts'"
| ts_step_savepoint: "next_xid (ts_manager ts) < u64_max \<Longrightarrow> savepoint conn name ts = (r, ts') \<Longrightarrow>
    ts_step conn ts ts'"
| ts_step_release: "release_savepoint conn name ts = (r, ts') \<Longrightarrow> ts_step conn ts ts'"
| ts_step_rollback_to: "(\<And>rb m. host_effect m (snd (prepare rb m))) \<Longrightarrow>
    rollback_to_savepoint_with conn name (prepare :: rollback_to \<Rightarrow> snapshot_manager \<Rightarrow> (string + unit) \<times> snapshot_manager)
      from_err ts = Some (r, ts') \<Longrightarrow> ts_step conn ts ts'"
| ts_step_autocommit: "pool_headroom (ts_manager ts) \<Longrightarrow> allocate_committed_xid (ts_manager ts) = (x, m) \<Longrightarrow>
    ts_step conn ts (ts\<lparr>ts_manager := m\<rparr>)"
| ts_step_track: "tracks_only b \<Longrightarrow> ts_step conn ts (ts\<lparr>ts_manager := run_bookkeeping b (ts_manager ts)\<rparr>)"
| ts_step_tenant: "ts_step conn ts (set_local_tenant conn tenant ts)"

inductive ts_steps :: "nat set \<Rightarrow> transaction_state \<Rightarrow> transaction_state \<Rightarrow> bool" where
  ts_steps_refl: "ts_steps conns ts ts"
| ts_steps_step: "ts_steps conns ts ts' \<Longrightarrow> conn \<in> conns \<Longrightarrow> ts_step conn ts' ts'' \<Longrightarrow> ts_steps conns ts ts''"

lemma run_bookkeeping_aborted:
  "tracks_only b \<Longrightarrow> aborted (mgr (run_bookkeeping b m)) = aborted (mgr m)"
  by (cases b; simp add: bookkeeping_defs Let_def split: option.splits)

lemma fold_bookkeeping_aborted:
  "list_all tracks_only bs \<Longrightarrow> aborted (mgr (fold run_bookkeeping bs m)) = aborted (mgr m)"
  by (induction bs arbitrary: m) (auto simp: run_bookkeeping_aborted)

text \<open>What one step may change, seen from another connection.\<close>

definition step_effect :: "nat \<Rightarrow> transaction_state \<Rightarrow> transaction_state \<Rightarrow> bool" where
  "step_effect conn ts ts' \<longleftrightarrow>
     ts_wf ts' \<and> (\<forall>k. k \<noteq> conn \<longrightarrow> hget (contexts ts') k = hget (contexts ts) k) \<and>
     issuable (ts_manager ts') \<subseteq> issuable (ts_manager ts) \<and>
     active (mgr (ts_manager ts')) \<subseteq> active (mgr (ts_manager ts)) \<union> issuable (ts_manager ts) \<and>
     (\<forall>y. (y \<in> aborted (mgr (ts_manager ts))) \<noteq> (y \<in> aborted (mgr (ts_manager ts'))) \<longrightarrow>
        y \<in> own_xids conn ts)"

lemma step_effect_tenants:
  "ts_wf ts \<Longrightarrow> step_effect conn ts (ts\<lparr>local_tenants := lt\<rparr>)"
  by (simp add: step_effect_def ts_wf_def)

lemma commit_effect:
  assumes "ts_wf ts" and "\<And>c m. host_effect m (snd (prepare c m))"
    and "ts_commit conn prepare ts = Some (r, ts')"
  shows "step_effect conn ts ts'"
proof (cases "hget (contexts ts) conn")
  case None
  with assms(3) have "ts' = ts\<lparr>local_tenants := hdel conn (local_tenants ts)\<rparr>"
    by (simp add: ts_commit_def Let_def)
  with assms(1) show ?thesis by (simp add: step_effect_tenants)
next
  case (Some c)
  obtain res m where p: "prepare c (ts_manager ts) = (res, m)" by (cases "prepare c (ts_manager ts)")
  with assms(2) [of "ts_manager ts" c] obtain bs where bs: "list_all tracks_only bs" "m = fold run_bookkeeping bs (ts_manager ts)"
    by (auto simp: host_effect_def)
  note own = ctx_xids_own [OF Some] and ab = fold_bookkeeping_aborted [OF bs(1)]
  show ?thesis
  proof (cases res)
    case (Inl e)
    obtain ts1 where "ts_commit conn prepare ts = Some (Inl e, ts1)" and ok: "ts_wf ts1"
        "contexts ts1 = hdel conn (contexts ts)"
        "active (mgr (ts_manager ts1)) = active (mgr (ts_manager ts)) - set (ctx_xids c)"
        "aborted (mgr (ts_manager ts1)) = aborted (mgr (fold run_bookkeeping bs (ts_manager ts))) \<union> set (ctx_xids c)"
        "issuable (ts_manager ts1) = issuable (ts_manager ts)"
      using ts_commit_failed [OF assms(1) Some, of prepare e bs] p bs(2) Inl by metis
    with assms(3) show ?thesis
      by (auto simp: step_effect_def ab own)
  next
    case (Inr u)
    obtain ts1 where "ts_commit conn prepare ts = Some (Inr (Some c), ts1)" and ok: "ts_wf ts1"
        "contexts ts1 = hdel conn (contexts ts)"
        "active (mgr (ts_manager ts1)) = active (mgr (ts_manager ts)) - set (ctx_xids c)"
        "aborted (mgr (ts_manager ts1)) = aborted (mgr (fold run_bookkeeping bs (ts_manager ts))) - set (ctx_xids c)"
        "issuable (ts_manager ts1) = issuable (ts_manager ts)"
      using ts_commit_ok [OF assms(1) Some, of prepare u bs] p bs(2) Inr by metis
    with assms(3) show ?thesis
      by (auto simp: step_effect_def ab own)
  qed
qed

lemma rollback_effect:
  assumes "ts_wf ts" and "ts_rollback conn ts = Some (r, ts')"
  shows "step_effect conn ts ts'"
proof (cases "hget (contexts ts) conn")
  case None
  with assms(2) have "ts' = ts\<lparr>local_tenants := hdel conn (local_tenants ts)\<rparr>"
    by (simp add: ts_rollback_def Let_def)
  with assms(1) show ?thesis by (simp add: step_effect_tenants)
next
  case (Some c)
  show ?thesis
    by (rule ts_rollback_ok [OF assms(1) Some])
      (use assms(2) in \<open>auto simp: step_effect_def ctx_xids_own [OF Some]\<close>)
qed

lemma rollback_to_effect:
  assumes "ts_wf ts" and "\<And>rb m. host_effect m (snd (prepare rb m))"
    and "rollback_to_savepoint_with conn name prepare from_err ts = Some (r, ts')"
  shows "step_effect conn ts ts'"
proof (cases "\<exists>c p. hget (contexts ts) conn = Some c \<and> savepoint_position name (ctx_savepoints c) = Some p")
  case False
  with assms(3) have "ts' = ts"
    by (auto simp: rollback_to_savepoint_with_def split: option.splits)
  with assms(1) show ?thesis by (simp add: step_effect_def)
next
  case True
  then obtain c p where c: "hget (contexts ts) conn = Some c" and pos: "savepoint_position name (ctx_savepoints c) = Some p"
    by auto
  define rb where "rb = \<lparr>rb_savepoint_xid = snd (ctx_savepoints c ! p), rb_aborted_xids = map snd (drop p (ctx_savepoints c))\<rparr>"
  obtain res m where p: "prepare rb (ts_manager ts) = (res, m)" by (cases "prepare rb (ts_manager ts)")
  with assms(2) [of "ts_manager ts" rb] obtain bs where bs: "list_all tracks_only bs" "m = fold run_bookkeeping bs (ts_manager ts)"
    by (auto simp: host_effect_def)
  show ?thesis
    by (rule rollback_to_savepoint_with_props [OF assms(1) c pos rb_def, of prepare res bs from_err])
      (use p bs(2) assms(3) in \<open>auto simp: step_effect_def fold_bookkeeping_aborted [OF bs(1)]\<close>)
qed

lemma ts_step_effect: "ts_step conn ts ts' \<Longrightarrow> ts_wf ts \<Longrightarrow> step_effect conn ts ts'"
proof (induction rule: ts_step.induct)
  case (ts_step_begin ts conn isolation x ts')
  then show ?case
    using ts_begin_props [OF ts_step_begin(3,1,2)] by (auto simp: step_effect_def)
next
  case (ts_step_commit prepare conn ts r ts')
  then show ?case by (intro commit_effect)
next
  case (ts_step_rollback conn ts r ts')
  then show ?case by (intro rollback_effect)
next
  case (ts_step_savepoint ts conn name r ts')
  show ?case
  proof (cases "hget (contexts ts) conn")
    case None
    with ts_step_savepoint show ?thesis by (simp add: savepoint_def step_effect_def)
  next
    case (Some c)
    from ts_step_savepoint(2) show ?thesis
      by (rule_tac savepoint_props [OF ts_step_savepoint(3) Some ts_step_savepoint(1), of name])
        (auto simp: step_effect_def)
  qed
next
  case (ts_step_release conn name ts r ts')
  show ?case
  proof (cases "\<exists>c p. hget (contexts ts) conn = Some c \<and> savepoint_position name (ctx_savepoints c) = Some p")
    case False
    with ts_step_release show ?thesis
      by (auto simp: release_savepoint_def step_effect_def split: option.splits)
  next
    case True
    then obtain c p where "hget (contexts ts) conn = Some c" "savepoint_position name (ctx_savepoints c) = Some p"
      by auto
    with ts_step_release show ?thesis
      by (elim release_savepoint_props [of ts conn c name p]) (auto simp: step_effect_def)
  qed
next
  case (ts_step_rollback_to prepare conn name from_err ts r ts')
  then show ?case by (intro rollback_to_effect)
next
  case (ts_step_autocommit ts x m conn)
  note a = allocate_committed_xid_props [OF ts_wfD(1) [OF ts_step_autocommit(3)] ts_step_autocommit(1,2)]
  with ts_step_autocommit(3) show ?case
    by (auto simp: step_effect_def ts_wf_def)
next
  case (ts_step_track b conn ts)
  then show ?case
    by (auto simp: step_effect_def ts_wf_def sm_wf_bookkeeping run_bookkeeping_aborted)
next
  case (ts_step_tenant conn ts tenant)
  then show ?case by (simp add: set_local_tenant_def step_effect_tenants)
qed

lemma ts_steps_wf: "ts_steps conns ts ts' \<Longrightarrow> ts_wf ts \<Longrightarrow> ts_wf ts'"
  by (induction rule: ts_steps.induct) (auto dest: ts_step_effect simp: step_effect_def)

subsection \<open>Stability of an open snapshot\<close>

text \<open>
  What holds of an open transaction \<open>c\<close> of a connection from its \<open>begin\<close> on: every writer that is
  active or still to come, its own xids apart, is excluded by its snapshot.
\<close>

definition open_reader :: "nat \<Rightarrow> txn_context \<Rightarrow> transaction_state \<Rightarrow> bool" where
  "open_reader conn c ts \<longleftrightarrow>
     ts_wf ts \<and> hget (contexts ts) conn = Some c \<and>
     (\<forall>y \<in> active (mgr (ts_manager ts)). y \<notin> set (ctx_xids c) \<longrightarrow> excludes (ctx_snapshot c) y) \<and>
     (\<forall>y. y \<in> issuable (ts_manager ts) \<longrightarrow> excludes (ctx_snapshot c) y)"

lemma open_reader_begin:
  assumes "ts_wf ts" and "next_xid (ts_manager ts) < u64_max" and "ts_begin conn isolation ts = (x, ts')"
  shows "\<exists>c. open_reader conn c ts' \<and> ctx_isolation c = isolation \<and> ctx_xids c = [x]"
  using ts_begin_props [OF assms] by (fastforce simp: open_reader_def ctx_xids_def)

lemma open_reader_step:
  assumes "open_reader conn c ts" and "ts_step conn' ts ts'" and "conn' \<noteq> conn"
  shows "open_reader conn c ts'"
  using assms(1,3) ts_step_effect [OF assms(2)]
  unfolding open_reader_def step_effect_def subset_iff by auto

text \<open>The verdict on a version depends on the aborted set only through xids the snapshot does not exclude.\<close>

lemma visibility_check_aborted_irrelevant:
  assumes "\<And>y. (y \<in> aborted (mgr (sc_manager ctx))) \<noteq> (y \<in> aborted (mgr m)) \<Longrightarrow>
      excludes (sc_snapshot ctx) y \<and> y \<notin> sc_own_xids ctx"
  shows "visibility_check (ctx\<lparr>sc_manager := m\<rparr>) xmin xmax = visibility_check ctx xmin xmax"
  using assms [of xmin] assms [of xmax]
  by (auto simp: visibility_check_def Let_def is_aborted_def sees_iff)

lemma visibility_step:
  assumes "open_reader conn c ts" and "ctx_isolation c \<noteq> ReadCommitted" and "ts_step conn' ts ts'"
    and "conn' \<noteq> conn"
  shows "visibility_check (statement_context conn ts') xmin xmax =
    visibility_check (statement_context conn ts) xmin xmax"
proof -
  have c: "hget (contexts ts) conn = Some c" and wf: "ts_wf ts" using assms(1) by (auto simp: open_reader_def)
  note eff = ts_step_effect [OF assms(3) wf]
  have c': "hget (contexts ts') conn = Some c" using eff assms(4) c by (auto simp: step_effect_def)
  have ctx: "statement_context conn ts' = (statement_context conn ts)\<lparr>sc_manager := ts_manager ts'\<rparr>"
    using c c' assms(2)
    by (simp add: statement_context_def current_snapshot_def own_xids_def in_transaction_def hkeys_iff)
  show ?thesis
    unfolding ctx
  proof (rule visibility_check_aborted_irrelevant)
    fix y
    assume "(y \<in> aborted (mgr (sc_manager (statement_context conn ts)))) \<noteq> (y \<in> aborted (mgr (ts_manager ts')))"
    then have y: "y \<in> own_xids conn' ts" using eff by (auto simp: step_effect_def)
    then obtain c2 where c2: "hget (contexts ts) conn' = Some c2" by (auto simp: own_xids_def split: option.splits)
    with y have "y \<in> set (ctx_xids c2)" by (simp add: ctx_xids_own)
    then have "y \<in> active (mgr (ts_manager ts))" "y \<notin> set (ctx_xids c)"
      using ts_wfD(4,5) [OF wf c2] c assms(4) by blast+
    with assms(1,2) c show "excludes (sc_snapshot (statement_context conn ts)) y \<and>
        y \<notin> sc_own_xids (statement_context conn ts)"
      by (auto simp: open_reader_def current_snapshot_def ctx_xids_own)
  qed
qed

lemma visibility_steps:
  assumes "ts_steps conns ts ts'" and "conn \<notin> conns" and "open_reader conn c ts"
    and "ctx_isolation c \<noteq> ReadCommitted"
  shows "open_reader conn c ts' \<and> visibility_check (statement_context conn ts') xmin xmax =
    visibility_check (statement_context conn ts) xmin xmax"
  using assms
proof (induction rule: ts_steps.induct)
  case (ts_steps_step conns ts ts' conn' ts'')
  then have "conn' \<noteq> conn" by auto
  with ts_steps_step show ?case
    using open_reader_step visibility_step by metis
qed simp

text \<open>
  A multi-xid commit, observed between its steps: after the first \<open>k\<close> sub-commits a fresh snapshot
  sees the rows of exactly those \<open>k\<close> xids.
\<close>

lemma commit_prefix_visible:
  assumes "ts_wf ts" and "hget (contexts ts) conn = Some c" and "k \<le> length (ctx_xids c)"
    and "i < length (ctx_xids c)"
  shows "sees (fresh_read_snapshot (commit_all (take k (ctx_xids c)) (ts_manager ts))) (ctx_xids c ! i) 0
    \<longleftrightarrow> i < k"
proof -
  let ?m = "commit_all (take k (ctx_xids c)) (ts_manager ts)"
  note wf = ts_wfD [OF assms(1)]
  have x: "ctx_xids c ! i \<in> active (mgr (ts_manager ts))"
    using wf(4) [OF assms(2)] assms(4) by simp
  have "ctx_xids c ! i \<in> set (take k (ctx_xids c)) \<longleftrightarrow> i < k"
    using wf(3) [OF assms(2)] assms(3,4) by (auto simp: in_set_conv_nth nth_eq_iff_index_eq)
  moreover have "ctx_xids c ! i \<notin> issuable (ts_manager ts)" "ctx_xids c ! i \<noteq> 0"
    using active_not_issuable [OF wf(1) x] active_nonzero [OF wf(1) x] by auto
  ultimately show ?thesis
    using x fresh_snapshot_excludes [OF sm_wf_commit_all [OF wf(1)], of "take k (ctx_xids c)" "ctx_xids c ! i"]
    by (simp add: sees_iff)
qed

subsection \<open>Properties\<close>

text \<open>A concrete state for the witnesses: connection 1 has begun and set a savepoint.\<close>

definition demo_ts1 :: transaction_state where
  "demo_ts1 = snd (ts_begin 1 SnapshotIsolation ts_new)"

definition demo_ts2 :: transaction_state where
  "demo_ts2 = snd (savepoint 1 ''a'' demo_ts1)"

lemmas demo_ts_defs = demo_ts1_def demo_ts2_def ts_begin_def savepoint_def ts_new_def sm_snapshot_def demo_defs

lemma demo_ts1_begin: "ts_begin 1 SnapshotIsolation ts_new = (1, demo_ts1)"
  by (simp add: demo_ts_defs Let_def)

lemma demo_ts1_wf: "ts_wf demo_ts1"
  using ts_begin_props(1) [OF ts_wf_new _ demo_ts1_begin] by (simp add: ts_new_def sm_new_def u64_max_def)

definition demo_ctx :: txn_context where
  "demo_ctx = \<lparr>ctx_xid = 1, ctx_isolation = SnapshotIsolation,
     ctx_snapshot = \<lparr>snap_xid = 1, snap_in_progress = {}\<rparr>, ctx_savepoints = [(''a'', 2)], ctx_released = []\<rparr>"

lemma demo_ts2_ctx: "hget (contexts demo_ts2) 1 = Some demo_ctx"
  by (simp add: demo_ts_defs Let_def demo_ctx_def)

lemma demo_ctx_xid: "2 \<in> set (ctx_xids demo_ctx)"
  by (simp add: demo_ctx_def ctx_xids_def)

lemma demo_ts2_step: "ts_step 1 demo_ts1 demo_ts2"
proof (rule ts_step_savepoint [where name = "''a''"])
  show "savepoint 1 ''a'' demo_ts1 = (Some 2, demo_ts2)"
    by (simp add: demo_ts_defs Let_def)
qed (simp add: demo_ts_defs Let_def u64_max_def)

lemma demo_ts2_wf: "ts_wf demo_ts2"
  using ts_step_effect [OF demo_ts2_step demo_ts1_wf] by (simp add: step_effect_def)

text \<open>
  C1: snapshot isolation. From \<open>BEGIN\<close> on, at any level other than read committed, the verdict of the
  read path on every version is the same after any interleaving of the calls of the other connections:
  their begins, commits, failed commits, rollbacks, savepoints and autocommits.
\<close>

theorem snapshot_isolation:
  assumes "ts_wf ts0" and "next_xid (ts_manager ts0) < u64_max" and "ts_begin conn isolation ts0 = (x, ts)"
    and "isolation \<noteq> ReadCommitted" and "ts_steps (- {conn}) ts ts'"
  shows "visibility_check (statement_context conn ts') xmin xmax =
    visibility_check (statement_context conn ts) xmin xmax"
proof -
  obtain c where "open_reader conn c ts" "ctx_isolation c = isolation"
    using open_reader_begin [OF assms(1-3)] by blast
  then show ?thesis using visibility_steps [OF assms(5)] assms(4) by auto
qed

theorem snapshot_isolation_witness:
  "visibility_check (statement_context 1 (snd (ts_begin 2 Serializable demo_ts1))) 2 0 =
   visibility_check (statement_context 1 demo_ts1) 2 0"
proof (rule snapshot_isolation [OF ts_wf_new _ demo_ts1_begin])
  have "ts_step 2 demo_ts1 (snd (ts_begin 2 Serializable demo_ts1))"
    by (rule ts_step_begin) (auto simp: demo_ts_defs Let_def u64_max_def intro: surjective_pairing)
  then show "ts_steps (- {1}) demo_ts1 (snd (ts_begin 2 Serializable demo_ts1))"
    by (intro ts_steps_step [OF ts_steps_refl, of 2]) auto
qed (simp_all add: ts_new_def sm_new_def u64_max_def)

text \<open>
  C8: the connection table stays consistent. Every call of every connection keeps the invariant: each
  xid of an open transaction is active and belongs to one connection only.
\<close>

theorem connection_table_invariant:
  assumes "ts_steps UNIV ts_new ts"
  shows "ts_wf ts"
  using ts_steps_wf [OF assms ts_wf_new] .

theorem connection_table_invariant_witness: "ts_wf demo_ts2"
proof (rule connection_table_invariant)
  have "ts_step 1 ts_new demo_ts1"
    by (rule ts_step_begin [OF _ demo_ts1_begin]) (simp add: ts_new_def sm_new_def u64_max_def)
  then show "ts_steps UNIV ts_new demo_ts2"
    using ts_steps_step [OF ts_steps_step [OF ts_steps_refl]] demo_ts2_step by blast
qed

text \<open>
  a failed commit aborts everything. When the host's validation refuses, the transaction and all
  its savepoints, released ones included, end up aborted and inactive, the context is gone and no
  later reader sees a row any of them inserted; the rollback itself cannot panic.
\<close>

theorem failed_commit_aborts_all:
  assumes "ts_wf ts" and "hget (contexts ts) conn = Some c"
    and "prepare c (ts_manager ts) = (Inl e, fold run_bookkeeping bs (ts_manager ts))"
  shows "\<exists>ts'. ts_commit conn prepare ts = Some (Inl e, ts') \<and> hget (contexts ts') conn = None \<and>
    set (ctx_xids c) \<inter> active (mgr (ts_manager ts')) = {} \<and>
    (\<forall>x reader xmax. x \<in> set (ctx_xids c) \<longrightarrow> \<not> visibility_check (statement_context reader ts') x xmax)"
proof -
  have nz: "x \<noteq> 0" if "x \<in> set (ctx_xids c)" for x
    using active_nonzero [OF ts_wfD(1) [OF assms(1)] ts_wfD(4) [OF assms(1,2) that]] by simp
  show ?thesis
    by (rule ts_commit_failed [where prepare = prepare, OF assms])
      (auto simp: nz is_aborted_def visibility_check_aborted)
qed

theorem failed_commit_aborts_all_witness:
  "\<exists>ts'. ts_commit 1 (\<lambda>c m. (Inl ''conflict'' :: string + unit, m)) demo_ts2 = Some (Inl ''conflict'', ts') \<and>
    \<not> visibility_check (statement_context 7 ts') 2 0"
  using failed_commit_aborts_all [of demo_ts2 1 demo_ctx "\<lambda>c m. (Inl ''conflict'' :: string + unit, m)" "''conflict''" "[]"]
    demo_ts2_wf demo_ts2_ctx demo_ctx_xid
  by auto

text \<open>
  a commit publishes the whole transaction. After a successful commit every xid of the
  transaction is inactive and not aborted, the context is gone, and a connection that takes a fresh
  snapshot sees the rows inserted under each of its xids.
\<close>

theorem commit_publishes_all:
  assumes "ts_wf ts" and "hget (contexts ts) conn = Some c" and "x \<in> set (ctx_xids c)"
    and "prepare c (ts_manager ts) = (Inr p, fold run_bookkeeping bs (ts_manager ts))"
  shows "\<exists>ts'. ts_commit conn prepare ts = Some (Inr (Some c), ts') \<and> hget (contexts ts') conn = None \<and>
    \<not> is_active x (ts_manager ts') \<and> \<not> is_aborted x (ts_manager ts') \<and>
    sees (fresh_read_snapshot (ts_manager ts')) x 0"
proof -
  note wf = ts_wfD [OF assms(1)]
  have x: "x \<notin> issuable (ts_manager ts)" "x \<noteq> 0"
    using active_not_issuable active_nonzero wf(1) wf(4) [OF assms(2,3)] by auto
  obtain ts' where "ts_commit conn prepare ts = Some (Inr (Some c), ts')" and ok: "ts_wf ts'"
      "contexts ts' = hdel conn (contexts ts)"
      "active (mgr (ts_manager ts')) = active (mgr (ts_manager ts)) - set (ctx_xids c)"
      "aborted (mgr (ts_manager ts')) = aborted (mgr (fold run_bookkeeping bs (ts_manager ts))) - set (ctx_xids c)"
      "issuable (ts_manager ts') = issuable (ts_manager ts)"
    using ts_commit_ok [where prepare = prepare, OF assms(1,2,4)] by metis
  moreover have "sees (fresh_read_snapshot (ts_manager ts')) x 0"
    using fresh_snapshot_excludes [OF ts_wfD(1) [OF ok(1)], of x] ok x assms(3) by (simp add: sees_iff)
  ultimately show ?thesis
    using assms(3) by (auto simp: is_active_def is_aborted_def)
qed

theorem commit_publishes_all_witness:
  "\<exists>ts'. ts_commit 1 (\<lambda>c m. (Inr () :: string + unit, m)) demo_ts2 = Some (Inr (Some demo_ctx), ts') \<and>
    sees (fresh_read_snapshot (ts_manager ts')) 2 0"
  using commit_publishes_all [of demo_ts2 1 demo_ctx 2 "\<lambda>c m. (Inr () :: string + unit, m)" "()" "[]"]
    demo_ts2_wf demo_ts2_ctx demo_ctx_xid
  by auto

text \<open>
  C6: rolling back to a savepoint undoes it and what follows it, and nothing else. Whether or not the
  host's undo closure succeeds, the rows written under the savepoint and under every later one become
  invisible to everybody, the connection's other rows stay visible to it, the deletes made under the
  aborted savepoints no longer hide rows from it, and no other context changes.
\<close>

theorem rollback_to_savepoint_undoes_suffix:
  assumes "ts_wf ts" and "hget (contexts ts) conn = Some c"
    and "savepoint_position name (ctx_savepoints c) = Some p"
    and "list_all tracks_only bs"
    and "prepare \<lparr>rb_savepoint_xid = snd (ctx_savepoints c ! p), rb_aborted_xids = map snd (drop p (ctx_savepoints c))\<rparr>
      (ts_manager ts) = (res, fold run_bookkeeping bs (ts_manager ts))"
    and "x \<in> set (map snd (drop p (ctx_savepoints c)))"
    and "y \<in> own_xids conn ts" and "y \<notin> set (map snd (drop p (ctx_savepoints c)))"
    and "\<not> is_aborted y (ts_manager ts)"
  shows "\<exists>out ts'. rollback_to_savepoint_with conn name prepare from_err ts = Some (out, ts') \<and>
    (isl out \<longleftrightarrow> isl res) \<and>
    (\<forall>reader xmax. \<not> visibility_check (statement_context reader ts') x xmax) \<and>
    visibility_check (statement_context conn ts') y 0 \<and> visibility_check (statement_context conn ts') y x \<and>
    (\<forall>conn'. conn' \<noteq> conn \<longrightarrow> hget (contexts ts') conn' = hget (contexts ts) conn')"
proof -
  define rb where "rb = \<lparr>rb_savepoint_xid = snd (ctx_savepoints c ! p), rb_aborted_xids = map snd (drop p (ctx_savepoints c))\<rparr>"
  obtain ts' where st: "rollback_to_savepoint_with conn name prepare from_err ts =
       Some (case res of Inl e \<Rightarrow> Inl e | Inr t \<Rightarrow> Inr (Some (rb, t)), ts')"
    and wf': "ts_wf ts'" and sub: "set (rb_aborted_xids rb) \<subseteq> own_xids conn ts"
    and ab: "aborted (mgr (ts_manager ts')) =
      aborted (mgr (fold run_bookkeeping bs (ts_manager ts))) \<union> set (rb_aborted_xids rb)"
    and "active (mgr (ts_manager ts')) = active (mgr (ts_manager ts)) - set (rb_aborted_xids rb)"
    and "issuable (ts_manager ts') = issuable (ts_manager ts)"
    and own: "own_xids conn ts' = own_xids conn ts - set (rb_aborted_xids rb)"
    and "hget (contexts ts') conn = Some (c\<lparr>ctx_savepoints := take p (ctx_savepoints c)\<rparr>)"
    and others: "\<And>conn'. conn' \<noteq> conn \<Longrightarrow> hget (contexts ts') conn' = hget (contexts ts) conn'"
    by (rule rollback_to_savepoint_with_props [where prepare = prepare and from_err = from_err,
          OF assms(1-3) rb_def assms(5) [folded rb_def]]) (rule that)
  have act: "z \<in> own_xids conn ts \<Longrightarrow> z \<noteq> 0" for z
    using active_nonzero [OF ts_wfD(1) [OF assms(1)] ts_wfD(4) [OF assms(1,2)]] ctx_xids_own [OF assms(2)] by auto
  have x: "is_aborted x (ts_manager ts')" "x \<noteq> 0"
    using ab assms(6) sub act by (auto simp: is_aborted_def rb_def)
  have y: "y \<in> own_xids conn ts'" "\<not> is_aborted y (ts_manager ts')" "y \<noteq> 0"
    using own ab assms(7-9) act by (auto simp: is_aborted_def rb_def fold_bookkeeping_aborted [OF assms(4)])
  then have "visibility_check (statement_context conn ts') y 0" "visibility_check (statement_context conn ts') y x"
    using x by (auto simp: visibility_check_def Let_def)
  then show ?thesis
    using st x others by (fastforce simp: visibility_check_aborted split: sum.splits)
qed

theorem rollback_to_savepoint_undoes_suffix_witness:
  "\<exists>out ts'. rollback_to_savepoint_with 1 ''a'' (\<lambda>_ m. (Inr () :: string + unit, m)) (\<lambda>_. ''no savepoint'') demo_ts2 =
      Some (out, ts') \<and> \<not> visibility_check (statement_context 1 ts') 2 0 \<and>
    visibility_check (statement_context 1 ts') 1 0"
proof -
  have "\<not> is_aborted 1 (ts_manager demo_ts2)" and "1 \<in> own_xids 1 demo_ts2"
    unfolding ctx_xids_own [OF demo_ts2_ctx]
    by (simp_all add: demo_ts_defs Let_def is_aborted_def demo_ctx_def ctx_xids_def)
  with rollback_to_savepoint_undoes_suffix [OF demo_ts2_wf demo_ts2_ctx, of "''a''" 0 "[]"
      "\<lambda>_ m. (Inr () :: string + unit, m)" "Inr ()" 2 1 "\<lambda>_. ''no savepoint''"]
  show ?thesis
    by (auto simp: demo_ctx_def)
qed

text \<open>
  C7: a commit with savepoints is not published atomically. The xids are committed one call at a time;
  a fresh snapshot taken after \<open>k\<close> of them sees the rows of the first \<open>k\<close> and not the others, the parent
  transaction's own rows coming last.
\<close>

theorem commit_publication_is_stepwise:
  assumes "ts_wf ts" and "hget (contexts ts) conn = Some c" and "k \<le> length (ctx_xids c)"
    and "i < length (ctx_xids c)"
  shows "commit_all (ctx_xids c) (ts_manager ts) =
      commit_all (drop k (ctx_xids c)) (commit_all (take k (ctx_xids c)) (ts_manager ts)) \<and>
    (sees (fresh_read_snapshot (commit_all (take k (ctx_xids c)) (ts_manager ts))) (ctx_xids c ! i) 0
      \<longleftrightarrow> i < k)"
  using commit_prefix_visible [OF assms] commit_all_append [of "take k (ctx_xids c)" "drop k (ctx_xids c)"] by simp

theorem commit_publication_is_stepwise_witness:
  "sees (fresh_read_snapshot (commit_all [2] (ts_manager demo_ts2))) 2 0 \<and>
   \<not> sees (fresh_read_snapshot (commit_all [2] (ts_manager demo_ts2))) 1 0"
  using commit_publication_is_stepwise [OF demo_ts2_wf demo_ts2_ctx, of 1 0]
    commit_publication_is_stepwise [OF demo_ts2_wf demo_ts2_ctx, of 1 1]
  by (simp add: demo_ctx_def ctx_xids_def)

end
