(* ===== verification/Byte_Codec.thy ===== *)
theory Byte_Codec
  imports Prelude_RedDB
begin

section \<open>Byte-level encoding and decoding\<close>

text \<open>
  What the file formats of \<open>reddb-file\<close> use of the Rust standard library: fixed-width little-endian
  integers (\<open>to_le_bytes\<close>, \<open>from_le_bytes\<close>), UTF-8 checking (\<open>String::from_utf8\<close>, \<open>from_utf8_lossy\<close>), sequential
  writing with fallible pieces, and readers that consume a byte source. A reader is a function from a
  cursor to an error or a value with the advanced cursor; \<open>reads mk torn p bs v\<close> says that \<open>p\<close> consumes
  exactly \<open>bs\<close> and returns \<open>v\<close>, and that on a proper prefix of \<open>bs\<close> it fails with an error satisfying
  \<open>torn\<close>; \<open>mk pre rest\<close> is the cursor that has consumed \<open>pre\<close> and has \<open>rest\<close> ahead.
  The locale \<open>codec\<close> is the contract between an encoder and its reader; sequences are handled once, in it.
\<close>

type_synonym u64 = "64 word"
type_synonym u32 = "32 word"

text \<open>The kinds of \<open>io::Error\<close> the formats distinguish, with their constant messages.\<close>

datatype io_error = UnexpectedEof | InvalidData string | InvalidInput string | OtherError string

subsection \<open>Little-endian integers\<close>

fun le_bytes :: "nat \<Rightarrow> nat \<Rightarrow> bytes" where
  "le_bytes 0 v = []"
| "le_bytes (Suc n) v = word_of_nat v # le_bytes n (v div 256)"

fun le_val :: "bytes \<Rightarrow> nat" where
  "le_val [] = 0"
| "le_val (b # bs) = unat b + 256 * le_val bs"

definition u64_le :: "u64 \<Rightarrow> bytes" where
  "u64_le w = le_bytes 8 (unat w)"

definition u32_le :: "u32 \<Rightarrow> bytes" where
  "u32_le w = le_bytes 4 (unat w)"

definition u64_of_le :: "bytes \<Rightarrow> u64" where
  "u64_of_le bs = word_of_nat (le_val bs)"

definition u32_of_le :: "bytes \<Rightarrow> u32" where
  "u32_of_le bs = word_of_nat (le_val bs)"

lemma unat_byte_less: "unat (b :: byte) < 256"
  by (rule order_less_le_trans [OF unsigned_less]) simp

lemma unat_u64_less: "unat (w :: u64) < 18446744073709551616"
  by (rule order_less_le_trans [OF unsigned_less]) simp

lemma unat_u32_less: "unat (w :: u32) < 4294967296"
  by (rule order_less_le_trans [OF unsigned_less]) simp

lemma length_le_bytes [simp, byte_simps]: "length (le_bytes n v) = n"
  by (induction n arbitrary: v) auto

lemma le_val_le_bytes: "le_val (le_bytes n v) = v mod 256 ^ n"
proof (induction n arbitrary: v)
  case (Suc n)
  have "unat (word_of_nat v :: byte) = v mod 256"
    by (simp add: unat_of_nat)
  with Suc show ?case
    by (simp add: mod_mult2_eq)
qed simp

lemma le_val_less: "le_val bs < 256 ^ length bs"
proof (induction bs)
  case (Cons b bs)
  have "unat b < 256" by (rule unat_byte_less)
  with Cons show ?case by simp
qed simp

lemma le_bytes_le_val [simp, byte_simps]: "le_bytes (length bs) (le_val bs) = bs"
proof (induction bs)
  case (Cons b bs)
  have "unat b < 256" by (rule unat_byte_less)
  then have "(unat b + 256 * le_val bs) div 256 = le_val bs" by simp
  moreover have "(word_of_nat (unat b + 256 * le_val bs) :: byte) = b"
  proof -
    have "(word_of_nat (256 * le_val bs) :: byte) = 0"
      by (simp add: word_of_nat_eq_0_iff del: of_nat_mult)
    then show ?thesis by (simp del: of_nat_mult)
  qed
  ultimately show ?case using Cons by simp
qed simp

lemma length_u_le [simp, byte_simps]: "length (u64_le x) = 8" "length (u32_le y) = 4"
  by (simp_all add: u64_le_def u32_le_def)

lemma u_le_not_Nil [simp]: "u64_le x \<noteq> []" "u32_le y \<noteq> []"
  by (metis length_u_le(1) list.size(3) zero_neq_numeral, metis length_u_le(2) list.size(3) zero_neq_numeral)

lemma u64_of_le_inverse [simp, byte_simps]: "u64_of_le (u64_le w) = w"
  by (simp add: u64_of_le_def u64_le_def le_val_le_bytes unat_u64_less)

lemma u32_of_le_inverse [simp, byte_simps]: "u32_of_le (u32_le w) = w"
  by (simp add: u32_of_le_def u32_le_def le_val_le_bytes unat_u32_less)

lemma u64_le_inject [simp]: "u64_le a = u64_le b \<longleftrightarrow> a = b"
  by (metis u64_of_le_inverse)

lemma u32_le_inject [simp]: "u32_le a = u32_le b \<longleftrightarrow> a = b"
  by (metis u32_of_le_inverse)

text \<open>A length written as \<open>u32\<close> and read back, when it fits.\<close>

lemma unat_u32_len [simp]: "n \<le> u32_max \<Longrightarrow> unat (word_of_nat n :: u32) = n"
  by (simp add: unat_of_nat u32_max_def)

subsection \<open>UTF-8\<close>

text \<open>
  \<open>utf8_next\<close> looks at the front of a non-empty byte string: the number of bytes of the next chunk and
  whether they are one well-formed scalar value. An ill-formed chunk is the maximal prefix that could
  have begun one, as \<open>Utf8Chunks\<close> of the standard library has it; a missing byte reads as 0.
\<close>

definition byte_at :: "bytes \<Rightarrow> nat \<Rightarrow> nat" where
  "byte_at bs i = (if i < length bs then unat (bs ! i) else 0)"

definition is_cont :: "nat \<Rightarrow> bool" where
  "is_cont b \<longleftrightarrow> 128 \<le> b \<and> b \<le> 191"

definition utf8_next :: "bytes \<Rightarrow> nat \<times> bool" where
  "utf8_next bs =
     (let a = byte_at bs 0; b = byte_at bs 1; c = byte_at bs 2; d = byte_at bs 3 in
      if a < 128 then (1, True)
      else if 194 \<le> a \<and> a \<le> 223 then (if is_cont b then (2, True) else (1, False))
      else if 224 \<le> a \<and> a \<le> 239 then
        (if (if a = 224 then 160 \<le> b \<and> b \<le> 191 else if a = 237 then 128 \<le> b \<and> b \<le> 159 else is_cont b)
         then (if is_cont c then (3, True) else (2, False))
         else (1, False))
      else if 240 \<le> a \<and> a \<le> 244 then
        (if (if a = 240 then 144 \<le> b \<and> b \<le> 191 else if a = 244 then 128 \<le> b \<and> b \<le> 143 else is_cont b)
         then (if is_cont c then (if is_cont d then (4, True) else (3, False)) else (2, False))
         else (1, False))
      else (1, False))"

lemma utf8_next_pos: "0 < fst (utf8_next bs)"
  by (simp add: utf8_next_def Let_def)

function utf8_valid :: "bytes \<Rightarrow> bool" where
  "utf8_valid bs =
     (if bs = [] then True
      else snd (utf8_next bs) \<and> utf8_valid (drop (fst (utf8_next bs)) bs))"
  by auto
termination
  by (relation "measure length") (auto simp: utf8_next_pos)

text \<open>\<open>U+FFFD\<close> in UTF-8.\<close>

definition replacement_char :: bytes where
  "replacement_char = [0xEF, 0xBF, 0xBD]"

function utf8_lossy :: "bytes \<Rightarrow> bytes" where
  "utf8_lossy bs =
     (if bs = [] then []
      else (if snd (utf8_next bs) then take (fst (utf8_next bs)) bs else replacement_char) @
           utf8_lossy (drop (fst (utf8_next bs)) bs))"
  by auto
termination
  by (relation "measure length") (auto simp: utf8_next_pos)

declare utf8_valid.simps [simp del] utf8_lossy.simps [simp del]

lemma utf8_lossy_valid: "utf8_valid bs \<Longrightarrow> utf8_lossy bs = bs"
proof (induction bs rule: utf8_valid.induct)
  case (1 bs)
  then show ?case
    by (cases "bs = []") (simp_all add: utf8_valid.simps [of bs] utf8_lossy.simps [of bs] utf8_lossy.simps [of "[]"])
qed

subsection \<open>Writers\<close>

text \<open>A sequence of writes, each of which appends bytes or fails; a failure leaves what was written.\<close>

fun run_chunks :: "bytes \<Rightarrow> ('e + bytes) list \<Rightarrow> ('e + unit) \<times> bytes" where
  "run_chunks out [] = (Inr (), out)"
| "run_chunks out (Inl e # cs) = (Inl e, out)"
| "run_chunks out (Inr b # cs) = run_chunks (out @ b) cs"

lemma run_chunks_append:
  "run_chunks out (cs @ ds) =
     (case run_chunks out cs of (Inl e, o1) \<Rightarrow> (Inl e, o1) | (Inr _, o1) \<Rightarrow> run_chunks o1 ds)"
  by (induction out cs rule: run_chunks.induct) auto

lemma run_chunks_Inr: "run_chunks out (map Inr bs) = (Inr (), out @ concat bs)"
  by (induction bs arbitrary: out) auto

lemma run_chunks_prefix: "\<exists>bs. snd (run_chunks out cs) = out @ bs"
  by (induction out cs rule: run_chunks.induct) auto

subsection \<open>Readers\<close>

type_synonym ('s, 'e, 'a) reader = "'s \<Rightarrow> 'e + ('a \<times> 's)"

definition rd_return :: "'a \<Rightarrow> ('s, 'e, 'a) reader" where
  "rd_return x s = Inr (x, s)"

definition rd_fail :: "'e \<Rightarrow> ('s, 'e, 'a) reader" where
  "rd_fail e s = Inl e"

definition rd_bind :: "('s, 'e, 'a) reader \<Rightarrow> ('a \<Rightarrow> ('s, 'e, 'b) reader) \<Rightarrow> ('s, 'e, 'b) reader" where
  "rd_bind p f s = (case p s of Inl e \<Rightarrow> Inl e | Inr (x, s') \<Rightarrow> f x s')"

definition rd_lift :: "'e + 'a \<Rightarrow> ('s, 'e, 'a) reader" where
  "rd_lift r s = (case r of Inl e \<Rightarrow> Inl e | Inr x \<Rightarrow> Inr (x, s))"

fun rd_times :: "nat \<Rightarrow> ('s, 'e, 'a) reader \<Rightarrow> ('s, 'e, 'a list) reader" where
  "rd_times 0 p = rd_return []"
| "rd_times (Suc n) p = rd_bind p (\<lambda>x. rd_bind (rd_times n p) (\<lambda>xs. rd_return (x # xs)))"

definition reads ::
  "(bytes \<Rightarrow> bytes \<Rightarrow> 's) \<Rightarrow> ('e \<Rightarrow> bool) \<Rightarrow> ('s, 'e, 'a) reader \<Rightarrow> bytes \<Rightarrow> 'a \<Rightarrow> bool" where
  "reads mk torn p bs v \<longleftrightarrow>
     (\<forall>pre rest. p (mk pre (bs @ rest)) = Inr (v, mk (pre @ bs) rest)) \<and>
     (\<forall>pre xs ys. bs = xs @ ys \<longrightarrow> ys \<noteq> [] \<longrightarrow> (\<exists>e. p (mk pre xs) = Inl e \<and> torn e))"

lemma readsD: "reads mk torn p bs v \<Longrightarrow> p (mk pre (bs @ rest)) = Inr (v, mk (pre @ bs) rest)"
  by (simp add: reads_def)

lemma reads_tornD:
  "reads mk torn p (xs @ ys) v \<Longrightarrow> ys \<noteq> [] \<Longrightarrow> \<exists>e. p (mk pre xs) = Inl e \<and> torn e"
  by (auto simp: reads_def)

lemma reads_return: "reads mk torn (rd_return x) [] x"
  by (simp add: reads_def rd_return_def)

lemma reads_return_eq: "x = y \<Longrightarrow> reads mk torn (rd_return x) [] y"
  by (simp add: reads_return)

lemma reads_lift: "r = Inr x \<Longrightarrow> reads mk torn (rd_lift r) [] x"
  by (simp add: reads_def rd_lift_def)

lemma append_cut:
  assumes "bs @ cs = xs @ ys"
  obtains us where "xs = bs @ us" "cs = us @ ys" | us where "us \<noteq> []" "bs = xs @ us"
proof -
  obtain us where "bs = xs @ us \<and> us @ cs = ys \<or> bs @ us = xs \<and> cs = us @ ys"
    using assms by (auto simp: append_eq_append_conv2)
  then show thesis
    using that(1) [of us] that(1) [of "[]"] that(2) [of us] by (cases "us = []") auto
qed

lemma reads_bind:
  assumes p: "reads mk torn p bs x" and f: "reads mk torn (f x) cs y"
  shows "reads mk torn (rd_bind p f) (bs @ cs) y"
proof -
  have "\<exists>e. rd_bind p f (mk pre xs) = Inl e \<and> torn e" if split: "bs @ cs = xs @ ys" "ys \<noteq> []" for pre xs ys
  proof -
    from split(1) show ?thesis
    proof (cases rule: append_cut)
      case (1 us)
      then have "p (mk pre xs) = Inr (x, mk (pre @ bs) us)" using readsD [OF p] by simp
      moreover obtain e where "f x (mk (pre @ bs) us) = Inl e" "torn e"
        using reads_tornD [of mk torn "f x" us ys] f 1 split(2) by metis
      ultimately show ?thesis by (simp add: rd_bind_def)
    next
      case (2 us)
      then obtain e where "p (mk pre xs) = Inl e" "torn e"
        using reads_tornD [of mk torn p xs us] p by metis
      then show ?thesis by (simp add: rd_bind_def)
    qed
  qed
  moreover have "rd_bind p f (mk pre ((bs @ cs) @ rest)) = Inr (y, mk (pre @ bs @ cs) rest)" for pre rest
    using readsD [OF p, of pre "cs @ rest"] readsD [OF f, of "pre @ bs" rest] by (simp add: rd_bind_def)
  ultimately show ?thesis by (auto simp: reads_def)
qed

lemma reads_bind_pure:
  "reads mk torn p [] x \<Longrightarrow> reads mk torn (f x) cs y \<Longrightarrow> reads mk torn (rd_bind p f) cs y"
  using reads_bind [of mk torn p "[]" x f cs y] by simp

lemma reads_bind_last:
  "reads mk torn p bs x \<Longrightarrow> reads mk torn (f x) [] y \<Longrightarrow> reads mk torn (rd_bind p f) bs y"
  using reads_bind [of mk torn p bs x f "[]" y] by simp

text \<open>The contract between an encoder and the reader of its output.\<close>

locale codec =
  fixes mk :: "bytes \<Rightarrow> bytes \<Rightarrow> 's"
    and torn :: "'e \<Rightarrow> bool"
    and valid :: "'a \<Rightarrow> bool"
    and enc :: "'a \<Rightarrow> bytes"
    and dec :: "('s, 'e, 'a) reader"
  assumes round_trip: "valid v \<Longrightarrow> reads mk torn dec (enc v) v"
begin

lemma round_trip_list:
  "list_all valid vs \<Longrightarrow> reads mk torn (rd_times (length vs) dec) (concat (map enc vs)) vs"
proof (induction vs)
  case Nil
  then show ?case by (simp add: reads_return)
next
  case (Cons v vs)
  then show ?case
    by (simp, intro reads_bind [OF round_trip] reads_bind_last [OF _ reads_return]) auto
qed

end

end
