(* ===== verification/Page_Ownership_Journal.thy ===== *)
theory Page_Ownership_Journal
  imports Byte_Codec
begin

section \<open>The page-ownership journal\<close>

text \<open>
  \<open>src/crates/reddb-file/src/page_ownership_journal.rs\<close>: the fixed-size checksummed records, the scan
  that finds the unfinished epoch, and the recovery plan. CRC-32 comes from the \<open>crc32fast\<close> package: it
  is the parameter \<open>crc\<close>, of which nothing is assumed. A \<open>BTreeSet\<close> is a set, iterated in increasing
  order.
\<close>

datatype page_ownership_record =
    OwnBegin u64
  | OwnReserve u64 u32
  | OwnRetire u64 u32
  | OwnDetachFree u64 u32
  | OwnFinish u64

definition own_magic :: bytes where
  "own_magic = [0x52, 0x44, 0x4F, 0x4A]"

definition own_version :: byte where
  "own_version = 1"

definition own_record_size :: nat where
  "own_record_size = 32"

fun own_fields :: "page_ownership_record \<Rightarrow> byte \<times> u64 \<times> u32" where
  "own_fields (OwnBegin epoch) = (1, epoch, 0)"
| "own_fields (OwnReserve epoch page_id) = (2, epoch, page_id)"
| "own_fields (OwnRetire epoch page_id) = (3, epoch, page_id)"
| "own_fields (OwnFinish epoch) = (4, epoch, 0)"
| "own_fields (OwnDetachFree epoch page_id) = (5, epoch, page_id)"

definition own_epoch :: "page_ownership_record \<Rightarrow> u64" where
  "own_epoch r = fst (snd (own_fields r))"

definition own_encode :: "(bytes \<Rightarrow> u32) \<Rightarrow> page_ownership_record \<Rightarrow> io_error + bytes" where
  "own_encode crc r =
     (let (kind, epoch, page_id) = own_fields r in
      if epoch = 0 \<or> ((kind = 2 \<or> kind = 3 \<or> kind = 5) \<and> page_id = 0)
      then Inl (InvalidInput ''invalid ownership record'')
      else let body = own_magic @ [own_version, kind, 0, 0] @ u64_le epoch @ u32_le page_id @ replicate 8 0
           in Inr (body @ u32_le (crc body)))"

definition own_decode :: "(bytes \<Rightarrow> u32) \<Rightarrow> bytes \<Rightarrow> io_error + page_ownership_record" where
  "own_decode crc bs =
     (let invalid = InvalidData ''invalid ownership record'' in
      if length bs \<noteq> own_record_size then Inl (InvalidData ''incomplete ownership record'')
      else if take 4 bs \<noteq> own_magic \<or> bs ! 4 \<noteq> own_version \<or> take 2 (drop 6 bs) \<noteq> replicate 2 0 \<or>
              take 8 (drop 20 bs) \<noteq> replicate 8 0
      then Inl invalid
      else let expected = u32_of_le (take 4 (drop 28 bs)) in
      if crc (take 28 bs) \<noteq> expected then Inl invalid
      else let epoch = u64_of_le (take 8 (drop 8 bs));
               page_id = u32_of_le (take 4 (drop 16 bs));
               kind = bs ! 5 in
      if epoch = 0 then Inl invalid
      else if kind = 1 \<and> page_id = 0 then Inr (OwnBegin epoch)
      else if kind = 2 \<and> page_id \<noteq> 0 then Inr (OwnReserve epoch page_id)
      else if kind = 3 \<and> page_id \<noteq> 0 then Inr (OwnRetire epoch page_id)
      else if kind = 4 \<and> page_id = 0 then Inr (OwnFinish epoch)
      else if kind = 5 \<and> page_id \<noteq> 0 then Inr (OwnDetachFree epoch page_id)
      else Inl invalid)"

record pending_ownership_epoch =
  pend_epoch :: u64
  reserved_pages :: "u32 set"
  retired_pages :: "u32 set"
  detached_free_pages :: "u32 set"

record ownership_recovery_plan =
  plan_release :: "u32 list"
  plan_preserve :: "u32 list"

definition recovery_invalid :: io_error where
  "recovery_invalid = InvalidData ''invalid ownership recovery state''"

definition plan_reserved_step ::
  "bool \<Rightarrow> pending_ownership_epoch \<Rightarrow> u32 \<Rightarrow> u32 \<Rightarrow> u32 set \<times> u32 set \<Rightarrow> u32 \<Rightarrow> io_error + (u32 set \<times> u32 set)" where
  "plan_reserved_step published p first_page page_count sets page =
     (let (release, preserve) = sets in
      if page < first_page then Inl recovery_invalid
      else if page \<ge> page_count then (if published then Inl recovery_invalid else Inr (release, preserve))
      else if published
      then (if page \<in> retired_pages p then Inl recovery_invalid else Inr (release, insert page preserve))
      else Inr (insert page release, preserve))"

definition plan_detached_step ::
  "u32 \<Rightarrow> u32 \<Rightarrow> u32 set \<times> u32 set \<Rightarrow> u32 \<Rightarrow> io_error + (u32 set \<times> u32 set)" where
  "plan_detached_step first_page page_count sets page =
     (let (release, preserve) = sets in
      if page < first_page \<or> page \<ge> page_count then Inl recovery_invalid
      else if page \<notin> preserve then Inr (insert page release, preserve)
      else Inr (release, preserve))"

definition plan_retired_step ::
  "bool \<Rightarrow> u32 \<Rightarrow> u32 \<Rightarrow> u32 set \<times> u32 set \<Rightarrow> u32 \<Rightarrow> io_error + (u32 set \<times> u32 set)" where
  "plan_retired_step published first_page page_count sets page =
     (let (release, preserve) = sets in
      if page < first_page \<or> page \<ge> page_count then Inl recovery_invalid
      else Inr (if published then insert page release else release, preserve))"

definition recovery_plan ::
  "pending_ownership_epoch \<Rightarrow> u64 \<Rightarrow> u32 \<Rightarrow> u32 \<Rightarrow> io_error + ownership_recovery_plan" where
  "recovery_plan p catalog_epoch first_page page_count =
     (if pend_epoch p = 0 \<or> catalog_epoch > pend_epoch p \<or> page_count < first_page
      then Inl recovery_invalid
      else let published = (catalog_epoch = pend_epoch p) in
        and_then (try_fold (plan_reserved_step published p first_page page_count) ({}, {})
            (sorted_list_of_set (reserved_pages p))) (\<lambda>s1.
        and_then (try_fold (plan_detached_step first_page page_count) s1
            (sorted_list_of_set (detached_free_pages p))) (\<lambda>s2.
        and_then (try_fold (plan_retired_step published first_page page_count) s2
            (sorted_list_of_set (retired_pages p))) (\<lambda>(release, preserve).
        Inr \<lparr>plan_release = sorted_list_of_set release, plan_preserve = sorted_list_of_set preserve\<rparr>))))"

type_synonym journal_state = "pending_ownership_epoch option \<times> u64"

definition sequence_invalid :: io_error where
  "sequence_invalid = InvalidData ''invalid ownership sequence''"

definition add_to_pending ::
  "u64 \<Rightarrow> (pending_ownership_epoch \<Rightarrow> pending_ownership_epoch) \<Rightarrow> journal_state \<Rightarrow> io_error + journal_state" where
  "add_to_pending epoch f st =
     (case fst st of
        Some p \<Rightarrow> (if pend_epoch p = epoch then Inr (Some (f p), snd st) else Inl sequence_invalid)
      | None \<Rightarrow> Inl sequence_invalid)"

fun journal_step :: "journal_state \<Rightarrow> page_ownership_record \<Rightarrow> io_error + journal_state" where
  "journal_step st (OwnBegin epoch) =
     (if fst st \<noteq> None \<or> epoch \<le> snd st then Inl sequence_invalid
      else Inr (Some \<lparr>pend_epoch = epoch, reserved_pages = {}, retired_pages = {}, detached_free_pages = {}\<rparr>,
                snd st))"
| "journal_step st (OwnReserve epoch page_id) =
     add_to_pending epoch (\<lambda>p. p\<lparr>reserved_pages := insert page_id (reserved_pages p)\<rparr>) st"
| "journal_step st (OwnRetire epoch page_id) =
     add_to_pending epoch (\<lambda>p. p\<lparr>retired_pages := insert page_id (retired_pages p)\<rparr>) st"
| "journal_step st (OwnDetachFree epoch page_id) =
     add_to_pending epoch (\<lambda>p. p\<lparr>detached_free_pages := insert page_id (detached_free_pages p)\<rparr>) st"
| "journal_step st (OwnFinish epoch) =
     (case fst st of
        Some p \<Rightarrow> (if pend_epoch p \<noteq> epoch then Inl sequence_invalid else Inr (None, epoch))
      | None \<Rightarrow> Inl sequence_invalid)"

text \<open>\<open>chunks_exact(32)\<close> on a length that is a multiple of 32.\<close>

function chunks32 :: "bytes \<Rightarrow> bytes list" where
  "chunks32 bs = (if length bs < own_record_size then [] else take own_record_size bs # chunks32 (drop own_record_size bs))"
  by auto
termination
  by (relation "measure length") (auto simp: own_record_size_def)

declare chunks32.simps [simp del]

definition pending_epoch :: "(bytes \<Rightarrow> u32) \<Rightarrow> bytes \<Rightarrow> io_error + pending_ownership_epoch option" where
  "pending_epoch crc bs =
     (if length bs mod own_record_size \<noteq> 0 then Inl (InvalidData ''incomplete ownership journal'')
      else and_then (try_fold (\<lambda>st frame. and_then (own_decode crc frame) (journal_step st)) (None, 0) (chunks32 bs))
             (\<lambda>st. Inr (fst st)))"

subsection \<open>Records\<close>

lemma own_body_slices:
  fixes epoch :: u64 and page_id c :: u32 and kind :: byte
  defines "body \<equiv> own_magic @ [own_version, kind, 0, 0] @ u64_le epoch @ u32_le page_id @ replicate 8 0"
  shows "length (body @ u32_le c) = 32" and "take 28 (body @ u32_le c) = body"
    and "take 4 (body @ u32_le c) = own_magic" and "(body @ u32_le c) ! 4 = own_version"
    and "(body @ u32_le c) ! 5 = kind" and "take 2 (drop 6 (body @ u32_le c)) = replicate 2 0"
    and "take 8 (drop 20 (body @ u32_le c)) = replicate 8 0"
    and "take 4 (drop 28 (body @ u32_le c)) = u32_le c"
    and "take 8 (drop 8 (body @ u32_le c)) = u64_le epoch"
    and "take 4 (drop 16 (body @ u32_le c)) = u32_le page_id"
  by (simp_all add: body_def own_magic_def numeral_2_eq_2)

lemma own_decode_encode:
  assumes "own_encode crc r = Inr bs"
  shows "length bs = 32 \<and> own_decode crc bs = Inr r"
proof -
  obtain kind epoch page_id where f: "own_fields r = (kind, epoch, page_id)" by (cases "own_fields r")
  let ?body = "own_magic @ [own_version, kind, 0, 0] @ u64_le epoch @ u32_le page_id @ replicate 8 0"
  from assms f have bs: "bs = ?body @ u32_le (crc ?body)" and nz: "epoch \<noteq> 0"
      and pg: "kind = 2 \<or> kind = 3 \<or> kind = 5 \<Longrightarrow> page_id \<noteq> 0"
    by (auto simp: own_encode_def Let_def split: if_splits)
  note sl = own_body_slices [of kind epoch page_id "crc ?body", folded bs]
  have "own_decode crc bs = Inr r"
    unfolding own_decode_def sl own_record_size_def Let_def
    using f nz pg by (cases r) auto
  with sl(1) show ?thesis by simp
qed

lemma own_encode_length: "own_encode crc r = Inr bs \<Longrightarrow> length bs = 32"
  using own_decode_encode by blast

subsection \<open>The journal scan\<close>

lemma chunks32_concat:
  "\<forall>b \<in> set bss. length b = 32 \<Longrightarrow> chunks32 (concat bss) = bss"
proof (induction bss)
  case Nil
  then show ?case by (simp add: chunks32.simps own_record_size_def)
next
  case (Cons b bss)
  then show ?case
    by (subst chunks32.simps) (simp add: own_record_size_def)
qed

lemma concat_length32: "\<forall>b \<in> set bss. length b = 32 \<Longrightarrow> length (concat bss) = 32 * length bss"
  by (induction bss) auto

lemma pending_epoch_records:
  assumes "list_all2 (\<lambda>r b. own_encode crc r = Inr b) rs bss"
  shows "pending_epoch crc (concat bss) = and_then (try_fold journal_step (None, 0) rs) (\<lambda>st. Inr (fst st))"
proof -
  have len: "\<forall>b \<in> set bss. length b = 32"
    using assms own_encode_length by (auto simp: list_all2_conv_all_nth in_set_conv_nth) blast
  have "try_fold (\<lambda>st frame. and_then (own_decode crc frame) (journal_step st)) s bss = try_fold journal_step s rs" for s
    using assms
    by (induction rs bss arbitrary: s rule: list_all2_induct) (auto dest: own_decode_encode simp: and_then_def split: sum.splits)
  with len show ?thesis
    by (simp add: pending_epoch_def chunks32_concat concat_length32 own_record_size_def)
qed

text \<open>What the scan knows after the records \<open>rs\<close>.\<close>

definition journal_inv :: "page_ownership_record list \<Rightarrow> journal_state \<Rightarrow> bool" where
  "journal_inv rs st \<longleftrightarrow>
     (\<forall>r \<in> set rs. own_epoch r \<le> snd st \<or> (\<exists>p. fst st = Some p \<and> own_epoch r = pend_epoch p)) \<and>
     (\<forall>e. OwnBegin e \<in> set rs \<longrightarrow> OwnFinish e \<in> set rs \<or> (\<exists>p. fst st = Some p \<and> e = pend_epoch p)) \<and>
     (\<forall>p. fst st = Some p \<longrightarrow>
        snd st < pend_epoch p \<and> OwnBegin (pend_epoch p) \<in> set rs \<and> OwnFinish (pend_epoch p) \<notin> set rs \<and>
        reserved_pages p = {g. OwnReserve (pend_epoch p) g \<in> set rs} \<and>
        retired_pages p = {g. OwnRetire (pend_epoch p) g \<in> set rs} \<and>
        detached_free_pages p = {g. OwnDetachFree (pend_epoch p) g \<in> set rs})"

lemma own_epoch_simps [simp]:
  "own_epoch (OwnBegin e) = e" "own_epoch (OwnReserve e g) = e" "own_epoch (OwnRetire e g) = e"
  "own_epoch (OwnDetachFree e g) = e" "own_epoch (OwnFinish e) = e"
  by (simp_all add: own_epoch_def)

lemma journal_inv_old_epochs:
  "journal_inv rs st \<Longrightarrow> snd st < e \<Longrightarrow> fst st = None \<Longrightarrow> r \<in> set rs \<Longrightarrow> own_epoch r \<noteq> e"
  by (auto simp: journal_inv_def)

lemma journal_inv_begin:
  assumes inv: "journal_inv rs st" and st: "journal_step st (OwnBegin e) = Inr st'"
  shows "journal_inv (rs @ [OwnBegin e]) st'"
proof -
  have none: "fst st = None" "snd st < e"
    and st': "st' = (Some \<lparr>pend_epoch = e, reserved_pages = {}, retired_pages = {}, detached_free_pages = {}\<rparr>, snd st)"
    using st by (auto split: if_splits)
  have new: "r \<in> set rs \<Longrightarrow> own_epoch r \<noteq> e" for r
    using journal_inv_old_epochs [OF inv none(2,1)] by blast
  have "OwnReserve e g \<notin> set rs" "OwnRetire e g \<notin> set rs" "OwnDetachFree e g \<notin> set rs" "OwnFinish e \<notin> set rs" for g
    using new by fastforce+
  with inv none show ?thesis
    by (auto simp: journal_inv_def st')
qed

lemma journal_inv_add:
  assumes "journal_inv rs st" and "add_to_pending e f st = Inr st'" and "own_epoch r = e"
    and "\<And>p. fst st = Some p \<Longrightarrow> pend_epoch p = e \<Longrightarrow> pend_epoch (f p) = e \<and>
      reserved_pages (f p) = reserved_pages p \<union> {g. r = OwnReserve e g} \<and>
      retired_pages (f p) = retired_pages p \<union> {g. r = OwnRetire e g} \<and>
      detached_free_pages (f p) = detached_free_pages p \<union> {g. r = OwnDetachFree e g}"
    and "r \<noteq> OwnFinish e" and "r \<noteq> OwnBegin e"
  shows "journal_inv (rs @ [r]) st'"
proof -
  obtain p where p: "fst st = Some p" "pend_epoch p = e" "st' = (Some (f p), snd st)"
    using assms(2) by (auto simp: add_to_pending_def split: option.splits if_splits)
  have "r \<noteq> OwnBegin e'" for e' using assms(3,6) by auto
  with assms(1,3,5) assms(4) [OF p(1,2)] p show ?thesis
    by (auto simp: journal_inv_def)
qed

lemma journal_inv_step:
  assumes "journal_inv rs st" and "journal_step st r = Inr st'"
  shows "journal_inv (rs @ [r]) st'"
proof (cases r)
  case (OwnBegin e)
  then show ?thesis using assms journal_inv_begin by blast
next
  case (OwnFinish e)
  with assms show ?thesis
    by (auto simp: journal_inv_def split: option.splits if_splits dest: order.strict_trans1)
next
  case (OwnReserve e g)
  from assms(2) have "add_to_pending e (\<lambda>p. p\<lparr>reserved_pages := insert g (reserved_pages p)\<rparr>) st = Inr st'"
    by (simp add: OwnReserve)
  then show ?thesis
    by (rule journal_inv_add [OF assms(1)]) (auto simp: OwnReserve)
next
  case (OwnRetire e g)
  from assms(2) have "add_to_pending e (\<lambda>p. p\<lparr>retired_pages := insert g (retired_pages p)\<rparr>) st = Inr st'"
    by (simp add: OwnRetire)
  then show ?thesis
    by (rule journal_inv_add [OF assms(1)]) (auto simp: OwnRetire)
next
  case (OwnDetachFree e g)
  from assms(2) have "add_to_pending e (\<lambda>p. p\<lparr>detached_free_pages := insert g (detached_free_pages p)\<rparr>) st = Inr st'"
    by (simp add: OwnDetachFree)
  then show ?thesis
    by (rule journal_inv_add [OF assms(1)]) (auto simp: OwnDetachFree)
qed

lemma journal_inv_fold: "try_fold journal_step (None, 0) rs = Inr st \<Longrightarrow> journal_inv rs st"
proof (induction rs arbitrary: st rule: rev_induct)
  case Nil
  then show ?case by (auto simp: journal_inv_def)
next
  case (snoc r rs)
  then show ?case
    by (auto simp: try_fold_append and_then_Inr intro: journal_inv_step)
qed

subsection \<open>The recovery plan\<close>

lemma try_fold_insert:
  assumes "\<And>s x. x \<in> set xs \<Longrightarrow> f s x = (if ok x then Inr (g s x) else Inl e)"
  shows "try_fold f s xs = (if list_all ok xs then Inr (foldl g s xs) else Inl e)"
  using assms by (induction xs arbitrary: s) auto

lemma foldl_pair_insert:
  "foldl (\<lambda>(r, p) x. (if P x then insert x r else r, if Q x then insert x p else p)) (R, S) xs =
     (R \<union> {x \<in> set xs. P x}, S \<union> {x \<in> set xs. Q x})"
  by (induction xs arbitrary: R S) auto

lemma plan_reserved_fold:
  assumes "finite (reserved_pages p)"
  shows "try_fold (plan_reserved_step published p first_page page_count) ({}, {})
      (sorted_list_of_set (reserved_pages p)) =
    (if \<forall>x \<in> reserved_pages p. first_page \<le> x \<and> (published \<longrightarrow> x < page_count \<and> x \<notin> retired_pages p)
     then Inr ({x \<in> reserved_pages p. \<not> published \<and> x < page_count},
               {x \<in> reserved_pages p. published \<and> x < page_count})
     else Inl recovery_invalid)"
proof -
  let ?g = "\<lambda>(r, p :: u32 set) x. (if \<not> published \<and> x < page_count then insert x r else r,
      if published \<and> x < page_count then insert x p else p)"
  have "try_fold (plan_reserved_step published p first_page page_count) ({}, {}) (sorted_list_of_set (reserved_pages p)) =
     (if list_all (\<lambda>x. first_page \<le> x \<and> (published \<longrightarrow> x < page_count \<and> x \<notin> retired_pages p))
          (sorted_list_of_set (reserved_pages p))
      then Inr (foldl ?g ({}, {}) (sorted_list_of_set (reserved_pages p))) else Inl recovery_invalid)"
    by (rule try_fold_insert) (auto simp: plan_reserved_step_def not_le not_less split: prod.splits)
  then show ?thesis
    using assms by (simp add: foldl_pair_insert list_all_iff)
qed

lemma plan_detached_fold:
  assumes "finite D"
  shows "try_fold (plan_detached_step first_page page_count) (R, S) (sorted_list_of_set D) =
    (if \<forall>x \<in> D. first_page \<le> x \<and> x < page_count then Inr (R \<union> (D - S), S) else Inl recovery_invalid)"
proof -
  have "try_fold (plan_detached_step first_page page_count) (R, S) xs =
    (if list_all (\<lambda>x. first_page \<le> x \<and> x < page_count) xs then Inr (R \<union> (set xs - S), S) else Inl recovery_invalid)" for xs
    by (induction xs arbitrary: R) (auto simp: plan_detached_step_def not_le not_less insert_Diff_if)
  with assms show ?thesis by (simp add: list_all_iff)
qed

lemma plan_retired_fold:
  assumes "finite D"
  shows "try_fold (plan_retired_step published first_page page_count) (R, S) (sorted_list_of_set D) =
    (if \<forall>x \<in> D. first_page \<le> x \<and> x < page_count then Inr (if published then R \<union> D else R, S)
     else Inl recovery_invalid)"
proof -
  have "try_fold (plan_retired_step published first_page page_count) (R, S) xs =
    (if list_all (\<lambda>x. first_page \<le> x \<and> x < page_count) xs then Inr (if published then R \<union> set xs else R, S)
     else Inl recovery_invalid)" for xs
    by (induction xs arbitrary: R) (auto simp: plan_retired_step_def not_le not_less)
  with assms show ?thesis by (simp add: list_all_iff)
qed

lemma recovery_plan_sets:
  assumes "finite (reserved_pages p)" and "finite (retired_pages p)" and "finite (detached_free_pages p)"
    and "recovery_plan p catalog_epoch first_page page_count = Inr plan"
  shows "distinct (plan_release plan)" and "distinct (plan_preserve plan)"
    and "catalog_epoch = pend_epoch p \<Longrightarrow>
      set (plan_preserve plan) = reserved_pages p \<and>
      set (plan_release plan) = retired_pages p \<union> (detached_free_pages p - reserved_pages p) \<and>
      reserved_pages p \<inter> retired_pages p = {}"
    and "catalog_epoch \<noteq> pend_epoch p \<Longrightarrow> catalog_epoch < pend_epoch p \<and> set (plan_preserve plan) = {} \<and>
      set (plan_release plan) = {x \<in> reserved_pages p. x < page_count} \<union> detached_free_pages p"
    and "\<forall>x \<in> set (plan_release plan) \<union> set (plan_preserve plan). first_page \<le> x \<and> x < page_count"
  using assms(4)
  by (auto simp: recovery_plan_def Let_def plan_reserved_fold [OF assms(1)] plan_detached_fold [OF assms(3)]
      plan_retired_fold [OF assms(2)] assms(1-3) split: if_splits)

subsection \<open>Properties\<close>

text \<open>
  Ownership records round-trip. A record that encodes occupies exactly 32 bytes and decodes to
  itself, whatever the checksum function; what does not encode are the records of epoch 0 and the
  page operations on page 0.
\<close>

theorem ownership_record_round_trip:
  "(case own_encode crc r of
      Inr bs \<Rightarrow> length bs = own_record_size \<and> own_decode crc bs = Inr r
    | Inl _ \<Rightarrow> own_epoch r = 0 \<or> (\<exists>e. r = OwnReserve e 0 \<or> r = OwnRetire e 0 \<or> r = OwnDetachFree e 0))"
proof (cases "own_encode crc r")
  case (Inl e)
  then show ?thesis by (cases r) (auto simp: own_encode_def Let_def split: if_splits)
next
  case (Inr bs)
  then show ?thesis using own_decode_encode [OF Inr] by (simp add: own_record_size_def)
qed

text \<open>
  C15: the scan of a complete journal recovers exactly the unfinished epoch. If it reports an epoch, that
  epoch was begun and not finished, and the three page sets are the pages of its records; if it reports
  none, every epoch begun was finished.
\<close>

theorem journal_scan_exact:
  assumes "list_all2 (\<lambda>r b. own_encode crc r = Inr b) rs bss"
    and "pending_epoch crc (concat bss) = Inr res"
  shows "case res of
      Some p \<Rightarrow> OwnBegin (pend_epoch p) \<in> set rs \<and> OwnFinish (pend_epoch p) \<notin> set rs \<and>
        reserved_pages p = {g. OwnReserve (pend_epoch p) g \<in> set rs} \<and>
        retired_pages p = {g. OwnRetire (pend_epoch p) g \<in> set rs} \<and>
        detached_free_pages p = {g. OwnDetachFree (pend_epoch p) g \<in> set rs}
    | None \<Rightarrow> (\<nexists>e. OwnBegin e \<in> set rs \<and> OwnFinish e \<notin> set rs)"
proof -
  obtain st where "try_fold journal_step (None, 0) rs = Inr st" and "res = fst st"
    using assms(2) pending_epoch_records [OF assms(1)] by (auto simp: and_then_Inr)
  with journal_inv_fold [of rs st] show ?thesis
    by (auto simp: journal_inv_def split: option.splits)
qed

theorem journal_scan_exact_witness:
  "pending_epoch (\<lambda>_. 7) (concat (map (\<lambda>r. projr (own_encode (\<lambda>_. 7) r)) [OwnBegin 3, OwnReserve 3 9])) =
     Inr (Some \<lparr>pend_epoch = 3, reserved_pages = {9}, retired_pages = {}, detached_free_pages = {}\<rparr>) \<and>
   (OwnBegin 3 \<in> set [OwnBegin 3, OwnReserve 3 9] \<and> OwnFinish 3 \<notin> set [OwnBegin 3, OwnReserve 3 9])"
proof -
  let ?rs = "[OwnBegin 3, OwnReserve 3 9]" and ?crc = "\<lambda>_. 7"
  let ?p = "\<lparr>pend_epoch = 3, reserved_pages = {9}, retired_pages = {}, detached_free_pages = {}\<rparr>"
  have enc: "list_all2 (\<lambda>r b. own_encode ?crc r = Inr b) ?rs (map (\<lambda>r. projr (own_encode ?crc r)) ?rs)"
    by (simp add: own_encode_def Let_def)
  have scan: "pending_epoch ?crc (concat (map (\<lambda>r. projr (own_encode ?crc r)) ?rs)) = Inr (Some ?p)"
    unfolding pending_epoch_records [OF enc] by (simp add: add_to_pending_def)
  from journal_scan_exact [OF enc scan] scan show ?thesis by simp
qed

text \<open>
  the recovery plan never frees a page it keeps. A plan's two page lists are duplicate-free,
  disjoint and inside the allocatable range; when the catalog published the epoch, exactly the reserved
  pages are kept and every retired page is released; when it did not, nothing is kept, retired pages stay
  with their owner, and every reserved page that exists is released.
\<close>

theorem recovery_plan_sound:
  assumes "finite (reserved_pages p)" and "finite (retired_pages p)" and "finite (detached_free_pages p)"
    and "recovery_plan p catalog_epoch first_page page_count = Inr plan"
  shows "distinct (plan_release plan) \<and> distinct (plan_preserve plan) \<and>
    set (plan_release plan) \<inter> set (plan_preserve plan) = {} \<and>
    set (plan_release plan) \<union> set (plan_preserve plan) \<subseteq> {first_page..<page_count} \<and>
    (if catalog_epoch = pend_epoch p
     then set (plan_preserve plan) = reserved_pages p \<and> retired_pages p \<subseteq> set (plan_release plan)
     else set (plan_preserve plan) = {} \<and>
       set (plan_release plan) = {x. x \<in> reserved_pages p \<and> x < page_count} \<union> detached_free_pages p)"
proof -
  note sets = recovery_plan_sets [OF assms]
  have "set (plan_release plan) \<inter> set (plan_preserve plan) = {}"
    using sets(3,4) by (cases "catalog_epoch = pend_epoch p") auto
  moreover have "set (plan_release plan) \<union> set (plan_preserve plan) \<subseteq> {first_page..<page_count}"
    using sets(5) by auto
  ultimately show ?thesis
    using sets(1-4) by auto
qed

theorem recovery_plan_sound_witness:
  "recovery_plan \<lparr>pend_epoch = 3, reserved_pages = {9}, retired_pages = {5}, detached_free_pages = {}\<rparr> 3 2 20 =
     Inr \<lparr>plan_release = [5], plan_preserve = [9]\<rparr> \<and> set [5 :: u32] \<inter> set [9] = {}"
proof -
  have plan: "recovery_plan \<lparr>pend_epoch = 3, reserved_pages = {9}, retired_pages = {5}, detached_free_pages = {}\<rparr> 3 2 20 =
     Inr \<lparr>plan_release = [5], plan_preserve = [9]\<rparr>"
    by (simp add: recovery_plan_def plan_reserved_step_def plan_detached_step_def plan_retired_step_def)
  from recovery_plan_sound [OF _ _ _ plan] plan show ?thesis by simp
qed

end
