(* ===== verification/Wal_Record.thy ===== *)
theory Wal_Record
  imports Page_Ownership_Journal
begin

section \<open>The main write-ahead log\<close>

text \<open>
  \<open>src/crates/reddb-file/src/wal_header.rs\<close> and \<open>wal_record.rs\<close>: the file header, the record frames, the
  encoder and the decoder. A reader is an in-memory byte source that keeps the bytes it has handed out
  (\<open>checksum_bytes\<close>); it fails only by running out. CRC-32 (\<open>crc32fast\<close>) and Zstandard (\<open>zstd::bulk\<close>) are
  third-party code: the parameters \<open>crc\<close>, \<open>compress\<close> (None is a failed compression) and \<open>decompress\<close>
  (the bytes written into a buffer of the given capacity). An \<open>f32\<close> is its bit pattern, a \<open>String\<close> its UTF-8 bytes.
\<close>

subsection \<open>File header\<close>

definition wal_file_magic :: bytes where
  "wal_file_magic = [0x52, 0x44, 0x42, 0x57]"

definition wal_file_version :: byte where
  "wal_file_version = 3"

definition wal_file_version_v2 :: byte where
  "wal_file_version_v2 = 2"

definition main_wal_segment_bytes :: nat where
  "main_wal_segment_bytes = 16 * 1024 * 1024"

record wal_file_header =
  hdr_version :: byte

definition encode_wal_file_header :: bytes where
  "encode_wal_file_header = wal_file_magic @ [wal_file_version, 0, 0, 0]"

definition decode_wal_file_header :: "bytes \<Rightarrow> io_error + wal_file_header" where
  "decode_wal_file_header header =
     (if take 4 header \<noteq> wal_file_magic then Inl (InvalidData ''Invalid WAL magic bytes'')
      else let version = header ! 4 in
        if version \<noteq> wal_file_version \<and> version \<noteq> wal_file_version_v2
        then Inl (InvalidData ''Unsupported WAL version'')
        else Inr \<lparr>hdr_version = version\<rparr>)"

text \<open>The product wraps at \<open>2\<^sup>6\<^sup>4\<close>, as the release build computes it.\<close>

definition next_main_wal_segment_boundary :: "nat \<Rightarrow> nat" where
  "next_main_wal_segment_boundary pos =
     ((pos div main_wal_segment_bytes + 1) * main_wal_segment_bytes) mod 2 ^ 64"

subsection \<open>Frames\<close>

definition main_wal_default_compress_threshold :: nat where
  "main_wal_default_compress_threshold = 256"

definition max_main_wal_payload :: nat where
  "max_main_wal_payload = 256 * 1024 * 1024"

definition max_main_wal_items :: nat where
  "max_main_wal_items = 1000000"

datatype main_wal_record_type =
    RtBegin | RtCommit | RtRollback | RtPageWrite | RtCheckpoint | RtPageWriteCompressed | RtTxCommitBatch
  | RtFullPageImage | RtVectorInsert | RtProbabilisticDelta | RtPageOwnership

fun record_type_byte :: "main_wal_record_type \<Rightarrow> byte" where
  "record_type_byte RtBegin = 1"
| "record_type_byte RtCommit = 2"
| "record_type_byte RtRollback = 3"
| "record_type_byte RtPageWrite = 4"
| "record_type_byte RtCheckpoint = 5"
| "record_type_byte RtPageWriteCompressed = 6"
| "record_type_byte RtTxCommitBatch = 7"
| "record_type_byte RtFullPageImage = 8"
| "record_type_byte RtVectorInsert = 9"
| "record_type_byte RtProbabilisticDelta = 10"
| "record_type_byte RtPageOwnership = 11"

definition record_type_from_u8 :: "byte \<Rightarrow> main_wal_record_type option" where
  "record_type_from_u8 value =
     (if value = 1 then Some RtBegin else if value = 2 then Some RtCommit else if value = 3 then Some RtRollback
      else if value = 4 then Some RtPageWrite else if value = 5 then Some RtCheckpoint
      else if value = 6 then Some RtPageWriteCompressed else if value = 7 then Some RtTxCommitBatch
      else if value = 8 then Some RtFullPageImage else if value = 9 then Some RtVectorInsert
      else if value = 10 then Some RtProbabilisticDelta else if value = 11 then Some RtPageOwnership
      else None)"

datatype main_wal_compression = CompressionNone | CompressionZstd

fun compression_byte :: "main_wal_compression \<Rightarrow> byte" where
  "compression_byte CompressionNone = 0"
| "compression_byte CompressionZstd = 1"

definition compression_from_u8 :: "byte \<Rightarrow> main_wal_compression option" where
  "compression_from_u8 value =
     (if value = 0 then Some CompressionNone else if value = 1 then Some CompressionZstd else None)"

datatype main_wal_record_frame =
    FPageOwnership page_ownership_record
  | FBegin u64
  | FCommit u64
  | FRollback u64
  | FPageWrite u64 u32 bytes
  | FTxCommitBatch u64 "bytes list"
  | FFullPageImage u64 u32 u64 bytes
  | FVectorInsert bytes u64 "u32 list"
  | FProbabilisticDelta byte byte bytes "bytes list"
  | FCheckpoint u64

record main_wal_record_authority =
  auth_term :: u64
  auth_ownership_epoch :: "u64 option"

subsection \<open>The encoder\<close>

definition write_type_and_authority :: "main_wal_record_type \<Rightarrow> main_wal_record_authority \<Rightarrow> bytes" where
  "write_type_and_authority rt a =
     record_type_byte rt # u64_le (auth_term a) @
     u64_le (case auth_ownership_epoch a of Some e \<Rightarrow> e | None \<Rightarrow> 0)"

definition write_u32_len :: "nat \<Rightarrow> string \<Rightarrow> io_error + bytes" where
  "write_u32_len len label = (if len \<le> u32_max then Inr (u32_le (word_of_nat len)) else Inl (InvalidInput label))"

definition write_items :: "string \<Rightarrow> bytes list \<Rightarrow> (io_error + bytes) list" where
  "write_items label items = concat (map (\<lambda>i. [write_u32_len (length i) label, Inr i]) items)"

definition frame_chunks ::
  "(bytes \<Rightarrow> u32) \<Rightarrow> (bytes \<Rightarrow> bytes option) \<Rightarrow> main_wal_record_frame \<Rightarrow> main_wal_record_authority \<Rightarrow>
   (io_error + bytes) list" where
  "frame_chunks crc compress f a =
     (case f of
        FPageOwnership r \<Rightarrow>
          (case own_encode crc r of
             Inl e \<Rightarrow> [Inl e]
           | Inr payload \<Rightarrow> [Inr (write_type_and_authority RtPageOwnership a), Inr payload])
      | FBegin tx_id \<Rightarrow> [Inr (write_type_and_authority RtBegin a), Inr (u64_le tx_id)]
      | FCommit tx_id \<Rightarrow> [Inr (write_type_and_authority RtCommit a), Inr (u64_le tx_id)]
      | FRollback tx_id \<Rightarrow> [Inr (write_type_and_authority RtRollback a), Inr (u64_le tx_id)]
      | FPageWrite tx_id page_id data \<Rightarrow>
          (let plain = [Inr (write_type_and_authority RtPageWrite a), Inr (u64_le tx_id), Inr (u32_le page_id),
                        write_u32_len (length data) ''main wal page length'', Inr data] in
           if length data \<ge> main_wal_default_compress_threshold
           then (case compress data of
                   Some compressed \<Rightarrow>
                     (if length compressed < length data
                      then [Inr (write_type_and_authority RtPageWriteCompressed a), Inr (u64_le tx_id),
                            Inr (u32_le page_id), Inr [compression_byte CompressionZstd],
                            write_u32_len (length data) ''main wal original page length'',
                            write_u32_len (length compressed) ''main wal compressed page length'',
                            Inr compressed]
                      else plain)
                 | None \<Rightarrow> plain)
           else plain)
      | FTxCommitBatch tx_id actions \<Rightarrow>
          [Inr (write_type_and_authority RtTxCommitBatch a), Inr (u64_le tx_id),
           write_u32_len (length actions) ''main wal action count''] @
          write_items ''main wal action length'' actions
      | FFullPageImage tx_id page_id ckpt_epoch data \<Rightarrow>
          [Inr (write_type_and_authority RtFullPageImage a), Inr (u64_le tx_id), Inr (u32_le page_id),
           Inr (u64_le ckpt_epoch), write_u32_len (length data) ''main wal full-page image length'', Inr data]
      | FVectorInsert collection entity_id vector \<Rightarrow>
          [Inr (write_type_and_authority RtVectorInsert a),
           write_u32_len (length collection) ''main wal collection name length'', Inr collection,
           Inr (u64_le entity_id), write_u32_len (length vector) ''main wal vector length''] @
          map (\<lambda>v. Inr (u32_le v)) vector
      | FProbabilisticDelta kind operation name operands \<Rightarrow>
          [Inr (write_type_and_authority RtProbabilisticDelta a), Inr [kind], Inr [operation],
           write_u32_len (length name) ''main wal probabilistic name length'', Inr name,
           write_u32_len (length operands) ''main wal probabilistic operand count''] @
          write_items ''main wal probabilistic operand length'' operands
      | FCheckpoint lsn \<Rightarrow> [Inr (write_type_and_authority RtCheckpoint a), Inr (u64_le lsn)])"

text \<open>The single encoder appends to \<open>out\<close>; the checksum covers what this frame appended.\<close>

definition encode_main_wal_record_frame_with_authority_into ::
  "(bytes \<Rightarrow> u32) \<Rightarrow> (bytes \<Rightarrow> bytes option) \<Rightarrow> main_wal_record_frame \<Rightarrow> main_wal_record_authority \<Rightarrow> bytes \<Rightarrow>
   (io_error + unit) \<times> bytes" where
  "encode_main_wal_record_frame_with_authority_into crc compress f a out =
     (case run_chunks out (frame_chunks crc compress f a) of
        (Inl e, out') \<Rightarrow> (Inl e, out')
      | (Inr _, out') \<Rightarrow> (Inr (), out' @ u32_le (crc (drop (length out) out'))))"

definition encode_main_wal_record_frame_with_authority ::
  "(bytes \<Rightarrow> u32) \<Rightarrow> (bytes \<Rightarrow> bytes option) \<Rightarrow> main_wal_record_frame \<Rightarrow> main_wal_record_authority \<Rightarrow>
   io_error + bytes" where
  "encode_main_wal_record_frame_with_authority crc compress f a =
     (case encode_main_wal_record_frame_with_authority_into crc compress f a [] of
        (Inl e, _) \<Rightarrow> Inl e
      | (Inr _, out) \<Rightarrow> Inr out)"

definition encode_main_wal_record_frame_into ::
  "(bytes \<Rightarrow> u32) \<Rightarrow> (bytes \<Rightarrow> bytes option) \<Rightarrow> main_wal_record_frame \<Rightarrow> u64 \<Rightarrow> bytes \<Rightarrow>
   (io_error + unit) \<times> bytes" where
  "encode_main_wal_record_frame_into crc compress f term out =
     encode_main_wal_record_frame_with_authority_into crc compress f
       \<lparr>auth_term = term, auth_ownership_epoch = None\<rparr> out"

definition encode_main_wal_record_frame ::
  "(bytes \<Rightarrow> u32) \<Rightarrow> (bytes \<Rightarrow> bytes option) \<Rightarrow> main_wal_record_frame \<Rightarrow> u64 \<Rightarrow> io_error + bytes" where
  "encode_main_wal_record_frame crc compress f term =
     encode_main_wal_record_frame_with_authority crc compress f
       \<lparr>auth_term = term, auth_ownership_epoch = None\<rparr>"

definition visit_actions ::
  "(nat \<Rightarrow> bytes \<Rightarrow> 's \<Rightarrow> io_error + 's) \<Rightarrow> nat \<times> 's \<Rightarrow> bytes \<Rightarrow> io_error + (nat \<times> 's)" where
  "visit_actions visit st action =
     (let offset = fst st + 4
      in and_then (visit offset action (snd st)) (\<lambda>s. Inr (offset + length action, s)))"

text \<open>The sizes summed here are lengths of allocated buffers, below \<open>usize::MAX\<close>: \<open>checked_add64\<close> is the checked sum.\<close>

definition encode_main_wal_commit_batch_with_visitor ::
  "(bytes \<Rightarrow> u32) \<Rightarrow> (bytes \<Rightarrow> bytes option) \<Rightarrow> u64 \<Rightarrow> bytes list \<Rightarrow> u64 \<Rightarrow>
   (nat \<Rightarrow> bytes \<Rightarrow> 's \<Rightarrow> io_error + 's) \<Rightarrow> 's \<Rightarrow> io_error + (bytes \<times> 's)" where
  "encode_main_wal_commit_batch_with_visitor crc compress tx_id actions term visit s0 =
     (case encode_main_wal_record_frame_into crc compress (FTxCommitBatch tx_id actions) term [] of
        (Inl e, _) \<Rightarrow> Inl e
      | (Inr _, bs) \<Rightarrow>
          and_then (try_fold (\<lambda>size action.
              ok_or (Option.bind (checked_add64 size 4) (\<lambda>sz. checked_add64 sz (length action)))
                (InvalidInput ''WAL action offsets overflow'')) 4 actions) (\<lambda>suffix.
          and_then (if suffix \<le> length bs then Inr (length bs - suffix)
                    else Inl (InvalidData ''WAL action offsets exceed frame'')) (\<lambda>offset.
          and_then (try_fold (visit_actions visit) (offset, s0) actions) (\<lambda>st. Inr (bs, snd st)))))"

subsection \<open>The decoder\<close>

text \<open>The cursor: the bytes ahead and the bytes read so far (\<open>checksum_bytes\<close>).\<close>

type_synonym cursor = "bytes \<times> bytes"
type_synonym 'a wal_reader = "(cursor, io_error, 'a) reader"

definition mk_cursor :: "bytes \<Rightarrow> bytes \<Rightarrow> cursor" where
  "mk_cursor pre rest = (rest, pre)"

definition read_array_tracked :: "nat \<Rightarrow> bytes wal_reader" where
  "read_array_tracked n s =
     (if length (fst s) < n then Inl UnexpectedEof
      else Inr (take n (fst s), (drop n (fst s), snd s @ take n (fst s))))"

definition read_u64_tracked :: "u64 wal_reader" where
  "read_u64_tracked = rd_bind (read_array_tracked 8) (\<lambda>bs. rd_return (u64_of_le bs))"

definition read_u32_tracked :: "u32 wal_reader" where
  "read_u32_tracked = rd_bind (read_array_tracked 4) (\<lambda>bs. rd_return (u32_of_le bs))"

definition read_u8_tracked :: "byte wal_reader" where
  "read_u8_tracked = rd_bind (read_array_tracked 1) (\<lambda>bs. rd_return (bs ! 0))"

definition validate_len :: "nat \<Rightarrow> string \<Rightarrow> io_error + unit" where
  "validate_len len label = ensure (len \<le> max_main_wal_payload) (InvalidData (''implausible '' @ label))"

definition validate_count :: "nat \<Rightarrow> string \<Rightarrow> io_error + unit" where
  "validate_count count label = ensure (count \<le> max_main_wal_items) (InvalidData (''implausible '' @ label))"

definition read_bytes_tracked :: "bytes wal_reader" where
  "read_bytes_tracked =
     rd_bind read_u32_tracked (\<lambda>len.
     rd_bind (rd_lift (validate_len (unat len) ''main WAL payload length'')) (\<lambda>_.
     read_array_tracked (unat len)))"

definition read_compression_tracked :: "main_wal_compression wal_reader" where
  "read_compression_tracked =
     rd_bind read_u8_tracked (\<lambda>value.
     rd_lift (ok_or (compression_from_u8 value) (InvalidData ''Unknown WAL compression algorithm'')))"

definition from_utf8 :: "bytes \<Rightarrow> string \<Rightarrow> io_error + bytes" where
  "from_utf8 bs label = (if utf8_valid bs then Inr bs else Inl (InvalidData label))"

text \<open>A decompressed page fills a zeroed buffer of the recorded length.\<close>

definition decompress_page :: "(bytes \<Rightarrow> nat \<Rightarrow> bytes option) \<Rightarrow> bytes \<Rightarrow> nat \<Rightarrow> io_error + bytes" where
  "decompress_page decompress compressed original_len =
     (case decompress compressed original_len of
        None \<Rightarrow> Inl (InvalidData ''WAL zstd decompress failed'')
      | Some written \<Rightarrow> Inr (written @ replicate (original_len - length written) 0))"

definition strict_ownership :: "main_wal_record_type \<Rightarrow> io_error \<Rightarrow> io_error" where
  "strict_ownership rt e =
     (if rt = RtPageOwnership \<and> e = UnexpectedEof then InvalidData ''incomplete page ownership WAL record'' else e)"

definition rd_map_err :: "(io_error \<Rightarrow> io_error) \<Rightarrow> 'a wal_reader \<Rightarrow> 'a wal_reader" where
  "rd_map_err f p s = map_err f (p s)"

definition read_authority ::
  "main_wal_record_type \<Rightarrow> byte \<Rightarrow> main_wal_record_authority \<Rightarrow> main_wal_record_authority wal_reader" where
  "read_authority rt version default_authority =
     (if version = wal_file_version then
        rd_bind (rd_map_err (strict_ownership rt) read_u64_tracked) (\<lambda>term.
        rd_bind (rd_map_err (strict_ownership rt) read_u64_tracked) (\<lambda>epoch.
        rd_return \<lparr>auth_term = term, auth_ownership_epoch = (if epoch = 0 then None else Some epoch)\<rparr>))
      else if version = wal_file_version_v2 then rd_return default_authority
      else rd_fail (InvalidData ''Unsupported WAL version''))"

fun read_frame ::
  "(bytes \<Rightarrow> u32) \<Rightarrow> (bytes \<Rightarrow> nat \<Rightarrow> bytes option) \<Rightarrow> byte \<Rightarrow> main_wal_record_type \<Rightarrow>
   main_wal_record_frame wal_reader" where
  "read_frame crc decompress version RtPageOwnership =
     (if version \<noteq> wal_file_version then rd_fail (InvalidData ''page ownership record in old WAL'')
      else rd_bind (rd_map_err (strict_ownership RtPageOwnership) (read_array_tracked own_record_size)) (\<lambda>payload.
           rd_bind (rd_lift (own_decode crc payload)) (\<lambda>r. rd_return (FPageOwnership r))))"
| "read_frame crc decompress version RtBegin = rd_bind read_u64_tracked (\<lambda>tx_id. rd_return (FBegin tx_id))"
| "read_frame crc decompress version RtCommit = rd_bind read_u64_tracked (\<lambda>tx_id. rd_return (FCommit tx_id))"
| "read_frame crc decompress version RtRollback = rd_bind read_u64_tracked (\<lambda>tx_id. rd_return (FRollback tx_id))"
| "read_frame crc decompress version RtPageWrite =
     rd_bind read_u64_tracked (\<lambda>tx_id. rd_bind read_u32_tracked (\<lambda>page_id. rd_bind read_bytes_tracked (\<lambda>data.
     rd_return (FPageWrite tx_id page_id data))))"
| "read_frame crc decompress version RtPageWriteCompressed =
     rd_bind read_u64_tracked (\<lambda>tx_id.
     rd_bind read_u32_tracked (\<lambda>page_id.
     rd_bind read_compression_tracked (\<lambda>compression.
     rd_bind read_u32_tracked (\<lambda>original_len.
     rd_bind (rd_lift (validate_len (unat original_len) ''main WAL original page length'')) (\<lambda>_.
     rd_bind read_bytes_tracked (\<lambda>compressed.
     rd_bind (rd_lift (case compression of
                CompressionZstd \<Rightarrow> decompress_page decompress compressed (unat original_len)
              | CompressionNone \<Rightarrow> Inr compressed)) (\<lambda>data.
     rd_return (FPageWrite tx_id page_id data))))))))"
| "read_frame crc decompress version RtTxCommitBatch =
     rd_bind read_u64_tracked (\<lambda>tx_id.
     rd_bind read_u32_tracked (\<lambda>count.
     rd_bind (rd_lift (validate_count (unat count) ''main WAL action count'')) (\<lambda>_.
     rd_bind (rd_times (unat count) read_bytes_tracked) (\<lambda>actions.
     rd_return (FTxCommitBatch tx_id actions)))))"
| "read_frame crc decompress version RtFullPageImage =
     rd_bind read_u64_tracked (\<lambda>tx_id. rd_bind read_u32_tracked (\<lambda>page_id.
     rd_bind read_u64_tracked (\<lambda>ckpt_epoch. rd_bind read_bytes_tracked (\<lambda>data.
     rd_return (FFullPageImage tx_id page_id ckpt_epoch data)))))"
| "read_frame crc decompress version RtVectorInsert =
     rd_bind read_bytes_tracked (\<lambda>raw.
     rd_bind (rd_lift (from_utf8 raw ''invalid collection utf8'')) (\<lambda>collection.
     rd_bind read_u64_tracked (\<lambda>entity_id.
     rd_bind read_u32_tracked (\<lambda>count.
     rd_bind (rd_lift (validate_count (unat count) ''main WAL vector length'')) (\<lambda>_.
     rd_bind (rd_times (unat count) read_u32_tracked) (\<lambda>vector.
     rd_return (FVectorInsert collection entity_id vector)))))))"
| "read_frame crc decompress version RtProbabilisticDelta =
     rd_bind read_u8_tracked (\<lambda>kind.
     rd_bind read_u8_tracked (\<lambda>operation.
     rd_bind read_bytes_tracked (\<lambda>raw.
     rd_bind (rd_lift (from_utf8 raw ''invalid probabilistic name utf8'')) (\<lambda>name.
     rd_bind read_u32_tracked (\<lambda>count.
     rd_bind (rd_lift (validate_count (unat count) ''main WAL probabilistic operand count'')) (\<lambda>_.
     rd_bind (rd_times (unat count) read_bytes_tracked) (\<lambda>operands.
     rd_return (FProbabilisticDelta kind operation name operands))))))))"
| "read_frame crc decompress version RtCheckpoint = rd_bind read_u64_tracked (\<lambda>lsn. rd_return (FCheckpoint lsn))"

text \<open>
  The decoder returns \<open>None\<close> at a clean end of the log, and otherwise the authority, the frame and the
  bytes that remain. The stored checksum is read outside the tracked bytes.
\<close>

definition decode_main_wal_record_frame_with_authority ::
  "(bytes \<Rightarrow> u32) \<Rightarrow> (bytes \<Rightarrow> nat \<Rightarrow> bytes option) \<Rightarrow> byte \<Rightarrow> main_wal_record_authority \<Rightarrow> bytes \<Rightarrow>
   io_error + (main_wal_record_authority \<times> main_wal_record_frame \<times> bytes) option" where
  "decode_main_wal_record_frame_with_authority crc decompress version default_authority input =
     (case input of
        [] \<Rightarrow> Inr None
      | tag # rest \<Rightarrow>
          and_then (ok_or (record_type_from_u8 tag) (InvalidData ''Invalid record type'')) (\<lambda>rt.
          and_then (read_authority rt version default_authority (mk_cursor [tag] rest)) (\<lambda>(authority, s1).
          and_then (read_frame crc decompress version rt s1) (\<lambda>(frame, s2).
          if length (fst s2) < 4 then Inl (strict_ownership rt UnexpectedEof)
          else if crc (snd s2) \<noteq> u32_of_le (take 4 (fst s2))
          then Inl (InvalidData ''WAL record checksum mismatch'')
          else Inr (Some (authority, frame, drop 4 (fst s2)))))))"

definition decode_main_wal_record_frame ::
  "(bytes \<Rightarrow> u32) \<Rightarrow> (bytes \<Rightarrow> nat \<Rightarrow> bytes option) \<Rightarrow> byte \<Rightarrow> u64 \<Rightarrow> bytes \<Rightarrow>
   io_error + (u64 \<times> main_wal_record_frame \<times> bytes) option" where
  "decode_main_wal_record_frame crc decompress version default_term input =
     and_then (decode_main_wal_record_frame_with_authority crc decompress version
         \<lparr>auth_term = default_term, auth_ownership_epoch = None\<rparr> input)
       (\<lambda>r. Inr (map_option (\<lambda>(a, f, rest). (auth_term a, f, rest)) r))"

subsection \<open>What the readers consume\<close>

definition eof :: "io_error \<Rightarrow> bool" where
  "eof e \<longleftrightarrow> e = UnexpectedEof"

lemma reads_array: "length bs = n \<Longrightarrow> reads mk_cursor eof (read_array_tracked n) bs bs"
  by (auto simp: reads_def mk_cursor_def read_array_tracked_def eof_def)

lemma reads_map_err:
  "reads mk_cursor torn p bs v \<Longrightarrow> (\<And>e. torn e \<Longrightarrow> torn' (f e)) \<Longrightarrow> reads mk_cursor torn' (rd_map_err f p) bs v"
  unfolding reads_def rd_map_err_def by (metis map_err_simps)

text \<open>How a record cut short is reported: as the end of the log, except for an ownership record.\<close>

definition cut_short :: "main_wal_record_type \<Rightarrow> io_error \<Rightarrow> bool" where
  "cut_short rt e \<longleftrightarrow> e = strict_ownership rt UnexpectedEof"

lemma cut_short_ordinary: "rt \<noteq> RtPageOwnership \<Longrightarrow> cut_short rt = eof"
  by (auto simp: cut_short_def strict_ownership_def eof_def)

interpretation u64_codec: codec mk_cursor eof "\<lambda>_. True" u64_le read_u64_tracked
  by unfold_locales
    (auto simp: read_u64_tracked_def intro!: reads_bind_last [OF reads_array] reads_return_eq)

interpretation u32_codec: codec mk_cursor eof "\<lambda>_. True" u32_le read_u32_tracked
  by unfold_locales
    (auto simp: read_u32_tracked_def intro!: reads_bind_last [OF reads_array] reads_return_eq)

interpretation u8_codec: codec mk_cursor eof "\<lambda>_. True" "\<lambda>b. [b]" read_u8_tracked
  by unfold_locales
    (auto simp: read_u8_tracked_def intro!: reads_bind_last [OF reads_array] reads_return_eq)

text \<open>A length-prefixed payload the decoder accepts, and its bytes.\<close>

definition wal_payload_ok :: "bytes \<Rightarrow> bool" where
  "wal_payload_ok bs \<longleftrightarrow> length bs \<le> max_main_wal_payload"

definition len_prefixed :: "bytes \<Rightarrow> bytes" where
  "len_prefixed bs = u32_le (word_of_nat (length bs)) @ bs"

lemma payload_fits: "length bs \<le> max_main_wal_payload \<Longrightarrow> length bs \<le> u32_max"
  by (simp add: max_main_wal_payload_def u32_max_def)

lemma count_fits: "n \<le> max_main_wal_items \<Longrightarrow> n \<le> u32_max"
  by (simp add: max_main_wal_items_def u32_max_def)

interpretation bytes_codec: codec mk_cursor eof wal_payload_ok len_prefixed read_bytes_tracked
proof unfold_locales
  fix v :: bytes
  assume "wal_payload_ok v"
  then have "length v \<le> max_main_wal_payload" and "unat (word_of_nat (length v) :: u32) = length v"
    by (simp_all add: wal_payload_ok_def payload_fits)
  then show "reads mk_cursor eof read_bytes_tracked (len_prefixed v) v"
    unfolding read_bytes_tracked_def len_prefixed_def
    by (intro reads_bind [OF u32_codec.round_trip] reads_bind_pure [OF reads_lift] reads_array)
      (simp_all add: validate_len_def)
qed

subsection \<open>Encoder and decoder agree\<close>

text \<open>The frames within the decoder's limits; the other frames are encoded but refused on read.\<close>

fun frame_ok :: "main_wal_record_frame \<Rightarrow> bool" where
  "frame_ok (FPageWrite _ _ data) = wal_payload_ok data"
| "frame_ok (FTxCommitBatch _ actions) = (length actions \<le> max_main_wal_items \<and> list_all wal_payload_ok actions)"
| "frame_ok (FFullPageImage _ _ _ data) = wal_payload_ok data"
| "frame_ok (FVectorInsert collection _ vector) =
     (wal_payload_ok collection \<and> utf8_valid collection \<and> length vector \<le> max_main_wal_items)"
| "frame_ok (FProbabilisticDelta _ _ name operands) =
     (wal_payload_ok name \<and> utf8_valid name \<and> length operands \<le> max_main_wal_items \<and>
      list_all wal_payload_ok operands)"
| "frame_ok _ = True"

definition zstd_contract :: "(bytes \<Rightarrow> bytes option) \<Rightarrow> (bytes \<Rightarrow> nat \<Rightarrow> bytes option) \<Rightarrow> bool" where
  "zstd_contract compress decompress \<longleftrightarrow>
     (\<forall>data c. compress data = Some c \<longrightarrow> decompress c (length data) = Some data)"

lemma run_len_chunk:
  "length bs \<le> max_main_wal_payload \<Longrightarrow>
     run_chunks out (write_u32_len (length bs) l # Inr bs # cs) = run_chunks (out @ len_prefixed bs) cs"
  by (simp add: write_u32_len_def payload_fits len_prefixed_def)

lemma run_count_chunk:
  "n \<le> max_main_wal_items \<Longrightarrow>
     run_chunks out (write_u32_len n l # cs) = run_chunks (out @ u32_le (word_of_nat n)) cs"
  by (simp add: write_u32_len_def count_fits)

lemma run_write_items:
  "list_all wal_payload_ok items \<Longrightarrow>
     run_chunks out (write_items l items) = (Inr (), out @ concat (map len_prefixed items))"
  by (induction items arbitrary: out)
    (auto simp: write_items_def wal_payload_ok_def write_u32_len_def payload_fits len_prefixed_def)

lemma run_vector: "run_chunks out (map (\<lambda>v. Inr (u32_le v)) vs) = (Inr (), out @ concat (map u32_le vs))"
  by (induction vs arbitrary: out) auto

text \<open>\<open>writes f a rt body\<close>: the encoder emits the tag and authority for \<open>rt\<close> and then \<open>body\<close>.\<close>

definition writes ::
  "(bytes \<Rightarrow> u32) \<Rightarrow> (bytes \<Rightarrow> bytes option) \<Rightarrow> main_wal_record_frame \<Rightarrow> main_wal_record_authority \<Rightarrow>
   main_wal_record_type \<Rightarrow> bytes \<Rightarrow> bool" where
  "writes crc compress f a rt body \<longleftrightarrow>
     (\<forall>out. run_chunks out (frame_chunks crc compress f a) = (Inr (), out @ write_type_and_authority rt a @ body))"

definition layout ::
  "(bytes \<Rightarrow> u32) \<Rightarrow> (bytes \<Rightarrow> bytes option) \<Rightarrow> (bytes \<Rightarrow> nat \<Rightarrow> bytes option) \<Rightarrow> main_wal_record_frame \<Rightarrow>
   main_wal_record_authority \<Rightarrow> bool" where
  "layout crc compress decompress f a \<longleftrightarrow>
     (\<exists>rt body. writes crc compress f a rt body \<and>
        reads mk_cursor (cut_short rt) (read_frame crc decompress wal_file_version rt) body f)"

lemma layoutI:
  "writes crc compress f a rt body \<Longrightarrow> rt \<noteq> RtPageOwnership \<Longrightarrow>
     reads mk_cursor eof (read_frame crc decompress wal_file_version rt) body f \<Longrightarrow>
     layout crc compress decompress f a"
  by (auto simp: layout_def cut_short_ordinary intro!: exI [of _ rt] exI [of _ body])

lemma layout_fixed:
  "layout crc compress decompress (FBegin x) a" "layout crc compress decompress (FCommit x) a"
  "layout crc compress decompress (FRollback x) a" "layout crc compress decompress (FCheckpoint x) a"
  by (rule layoutI, simp add: writes_def frame_chunks_def, simp, simp,
      rule reads_bind_last [OF u64_codec.round_trip], simp, rule reads_return)+

lemma layout_full_page:
  assumes "wal_payload_ok data"
  shows "layout crc compress decompress (FFullPageImage x p e data) a"
proof (rule layoutI)
  show "writes crc compress (FFullPageImage x p e data) a RtFullPageImage
      (u64_le x @ u32_le p @ u64_le e @ len_prefixed data)"
    using assms by (simp add: writes_def frame_chunks_def run_len_chunk wal_payload_ok_def)
  show "reads mk_cursor eof (read_frame crc decompress wal_file_version RtFullPageImage)
      (u64_le x @ u32_le p @ u64_le e @ len_prefixed data) (FFullPageImage x p e data)"
    using assms by (simp, intro reads_bind [OF u64_codec.round_trip] reads_bind [OF u32_codec.round_trip]
        reads_bind_last [OF bytes_codec.round_trip] reads_return) auto
qed simp

lemma layout_page_write:
  assumes ok: "wal_payload_ok data" and zstd: "zstd_contract compress decompress"
  shows "layout crc compress decompress (FPageWrite x p data) a"
proof (cases "length data \<ge> main_wal_default_compress_threshold \<and>
    (\<exists>c. compress data = Some c \<and> length c < length data)")
  case False
  show ?thesis
  proof (rule layoutI)
    show "writes crc compress (FPageWrite x p data) a RtPageWrite (u64_le x @ u32_le p @ len_prefixed data)"
      using ok False
      by (auto simp: writes_def frame_chunks_def Let_def run_len_chunk wal_payload_ok_def split: option.splits)
    show "reads mk_cursor eof (read_frame crc decompress wal_file_version RtPageWrite)
        (u64_le x @ u32_le p @ len_prefixed data) (FPageWrite x p data)"
      using ok by (simp, intro reads_bind [OF u64_codec.round_trip] reads_bind [OF u32_codec.round_trip]
          reads_bind_last [OF bytes_codec.round_trip] reads_return) auto
  qed simp
next
  case True
  then obtain c where c: "compress data = Some c" "length c < length data" by auto
  then have okc: "wal_payload_ok c" and dec: "decompress c (length data) = Some data"
    using ok zstd by (auto simp: wal_payload_ok_def zstd_contract_def)
  let ?n = "u32_le (word_of_nat (length data))"
  show ?thesis
  proof (rule layoutI)
    show "writes crc compress (FPageWrite x p data) a RtPageWriteCompressed
        (u64_le x @ u32_le p @ [1] @ ?n @ len_prefixed c)"
      using ok okc True c
      by (simp add: writes_def frame_chunks_def Let_def write_u32_len_def payload_fits len_prefixed_def wal_payload_ok_def)
    have "reads mk_cursor eof read_compression_tracked [1] CompressionZstd"
      unfolding read_compression_tracked_def
      by (rule reads_bind_last [OF u8_codec.round_trip reads_lift]) (simp_all add: compression_from_u8_def)
    moreover have "unat (word_of_nat (length data) :: u32) = length data" and "length data \<le> max_main_wal_payload"
      using ok by (simp_all add: wal_payload_ok_def payload_fits)
    ultimately show "reads mk_cursor eof (read_frame crc decompress wal_file_version RtPageWriteCompressed)
        (u64_le x @ u32_le p @ [1] @ ?n @ len_prefixed c) (FPageWrite x p data)"
      using okc dec
      by (simp, intro reads_bind [OF u64_codec.round_trip] reads_bind [OF u32_codec.round_trip] reads_bind
          [where p = read_compression_tracked and bs = "[1]" and x = CompressionZstd, simplified]
          reads_bind_pure [OF reads_lift] reads_bind_last [OF bytes_codec.round_trip] reads_return)
        (simp_all add: validate_len_def decompress_page_def, rule reads_return)
  qed simp
qed

lemma reads_items:
  assumes "length items \<le> max_main_wal_items" and "list_all wal_payload_ok items"
  shows "reads mk_cursor eof (rd_times (unat (word_of_nat (length items) :: u32)) read_bytes_tracked)
    (concat (map len_prefixed items)) items"
  using bytes_codec.round_trip_list [OF assms(2)] assms(1) by (simp add: count_fits)

lemma layout_batch:
  assumes "length actions \<le> max_main_wal_items" and "list_all wal_payload_ok actions"
  shows "writes crc compress (FTxCommitBatch x actions) a RtTxCommitBatch
      (u64_le x @ u32_le (word_of_nat (length actions)) @ concat (map len_prefixed actions))"
    and "layout crc compress decompress (FTxCommitBatch x actions) a"
proof -
  show w: "writes crc compress (FTxCommitBatch x actions) a RtTxCommitBatch
      (u64_le x @ u32_le (word_of_nat (length actions)) @ concat (map len_prefixed actions))"
    using assms by (simp add: writes_def frame_chunks_def run_count_chunk run_write_items)
  have "reads mk_cursor eof (read_frame crc decompress wal_file_version RtTxCommitBatch)
      (u64_le x @ u32_le (word_of_nat (length actions)) @ concat (map len_prefixed actions))
      (FTxCommitBatch x actions)"
    using assms
    by (simp, intro reads_bind [OF u64_codec.round_trip] reads_bind [OF u32_codec.round_trip]
        reads_bind_pure [OF reads_lift] reads_bind_last [OF reads_items])
      (simp_all add: validate_count_def count_fits reads_return)
  then show "layout crc compress decompress (FTxCommitBatch x actions) a"
    by (rule layoutI [OF w, rotated]) simp
qed

lemma layout_vector:
  assumes "wal_payload_ok coll" and "utf8_valid coll" and "length vec \<le> max_main_wal_items"
  shows "layout crc compress decompress (FVectorInsert coll x vec) a"
proof (rule layoutI)
  let ?body = "len_prefixed coll @ u64_le x @ u32_le (word_of_nat (length vec)) @ concat (map u32_le vec)"
  show "writes crc compress (FVectorInsert coll x vec) a RtVectorInsert ?body"
    using assms
    by (simp add: writes_def frame_chunks_def run_len_chunk run_count_chunk run_vector wal_payload_ok_def)
  have "reads mk_cursor eof (rd_times (unat (word_of_nat (length vec) :: u32)) read_u32_tracked) (concat (map u32_le vec)) vec"
    using u32_codec.round_trip_list [of vec] assms(3) by (simp add: count_fits list_all_iff)
  with assms show "reads mk_cursor eof (read_frame crc decompress wal_file_version RtVectorInsert) ?body
      (FVectorInsert coll x vec)"
    by (simp, intro reads_bind [OF bytes_codec.round_trip] reads_bind_pure [OF reads_lift]
        reads_bind [OF u64_codec.round_trip] reads_bind [OF u32_codec.round_trip]
        reads_bind_last [where p = "rd_times n read_u32_tracked" for n])
      (simp_all add: validate_count_def count_fits from_utf8_def, rule reads_return)
qed simp

lemma layout_probabilistic:
  assumes "wal_payload_ok name" and "utf8_valid name" and "length ops \<le> max_main_wal_items"
    and "list_all wal_payload_ok ops"
  shows "layout crc compress decompress (FProbabilisticDelta k o' name ops) a"
proof (rule layoutI)
  let ?body = "[k] @ [o'] @ len_prefixed name @ u32_le (word_of_nat (length ops)) @ concat (map len_prefixed ops)"
  show "writes crc compress (FProbabilisticDelta k o' name ops) a RtProbabilisticDelta ?body"
    using assms
    by (simp add: writes_def frame_chunks_def run_len_chunk run_count_chunk run_write_items wal_payload_ok_def)
  show "reads mk_cursor eof (read_frame crc decompress wal_file_version RtProbabilisticDelta) ?body
      (FProbabilisticDelta k o' name ops)"
    unfolding read_frame.simps using assms
    by (intro reads_bind [OF u8_codec.round_trip] reads_bind [OF bytes_codec.round_trip]
        reads_bind_pure [OF reads_lift] reads_bind [OF u32_codec.round_trip] reads_bind_last [OF reads_items])
      (simp_all add: validate_count_def count_fits from_utf8_def, rule reads_return)
qed simp

lemma layout_ownership:
  assumes "own_encode crc r = Inr payload"
  shows "layout crc compress decompress (FPageOwnership r) a"
proof -
  note dec = own_decode_encode [OF assms]
  have "writes crc compress (FPageOwnership r) a RtPageOwnership payload"
    using assms by (simp add: writes_def frame_chunks_def)
  moreover have "reads mk_cursor (cut_short RtPageOwnership)
      (read_frame crc decompress wal_file_version RtPageOwnership) payload (FPageOwnership r)"
    using dec
    by (simp, intro reads_bind_last [OF reads_map_err [OF reads_array]] reads_bind_pure [OF reads_lift])
      (simp_all add: own_record_size_def cut_short_def eof_def, rule reads_return)
  ultimately show ?thesis unfolding layout_def by blast
qed

definition encodable :: "(bytes \<Rightarrow> u32) \<Rightarrow> main_wal_record_frame \<Rightarrow> bool" where
  "encodable crc f \<longleftrightarrow> frame_ok f \<and> (\<forall>r. f = FPageOwnership r \<longrightarrow> (\<exists>payload. own_encode crc r = Inr payload))"

lemma frame_layout:
  assumes "encodable crc f" and "zstd_contract compress decompress"
  shows "layout crc compress decompress f a"
  using assms
  by (cases f) (auto simp: encodable_def intro: layout_ownership layout_fixed layout_page_write layout_batch(2)
      layout_full_page layout_vector layout_probabilistic)

lemma record_type_from_byte [simp]: "record_type_from_u8 (record_type_byte rt) = Some rt"
  by (cases rt) (simp_all add: record_type_from_u8_def)

lemma encode_frame_bytes:
  assumes "writes crc compress f a rt body"
  defines "frame \<equiv> write_type_and_authority rt a @ body"
  shows "encode_main_wal_record_frame_with_authority_into crc compress f a out =
    (Inr (), out @ frame @ u32_le (crc frame))"
  using assms(1) by (simp add: encode_main_wal_record_frame_with_authority_into_def writes_def frame_def)

lemma reads_authority:
  assumes "auth_ownership_epoch a \<noteq> Some 0"
  shows "reads mk_cursor (cut_short rt) (read_authority rt wal_file_version d)
    (u64_le (auth_term a) @ u64_le (case auth_ownership_epoch a of Some e \<Rightarrow> e | None \<Rightarrow> 0)) a"
  unfolding read_authority_def using assms
  by (simp, intro reads_bind [OF reads_map_err [OF u64_codec.round_trip]]
      reads_bind_last [OF reads_map_err [OF u64_codec.round_trip]] reads_return_eq)
    (auto simp: cut_short_def eof_def split: option.splits)

text \<open>Everything of a frame but its tag, as one reader.\<close>

definition read_record ::
  "(bytes \<Rightarrow> u32) \<Rightarrow> (bytes \<Rightarrow> nat \<Rightarrow> bytes option) \<Rightarrow> main_wal_record_authority \<Rightarrow> main_wal_record_type \<Rightarrow>
   (main_wal_record_authority \<times> main_wal_record_frame) wal_reader" where
  "read_record crc decompress d rt =
     rd_bind (read_authority rt wal_file_version d) (\<lambda>a.
     rd_bind (read_frame crc decompress wal_file_version rt) (\<lambda>f. rd_return (a, f)))"

lemma decode_via_read_record:
  "decode_main_wal_record_frame_with_authority crc decompress wal_file_version d (record_type_byte rt # rest) =
     and_then (read_record crc decompress d rt (mk_cursor [record_type_byte rt] rest)) (\<lambda>((a, f), s).
       if length (fst s) < 4 then Inl (strict_ownership rt UnexpectedEof)
       else if crc (snd s) \<noteq> u32_of_le (take 4 (fst s)) then Inl (InvalidData ''WAL record checksum mismatch'')
       else Inr (Some (a, f, drop 4 (fst s))))"
  by (simp add: decode_main_wal_record_frame_with_authority_def read_record_def rd_bind_def rd_return_def
      and_then_def split: sum.splits prod.splits)

lemma reads_record:
  assumes "reads mk_cursor (cut_short rt) (read_frame crc decompress wal_file_version rt) body f"
    and "auth_ownership_epoch a \<noteq> Some 0"
  shows "reads mk_cursor (cut_short rt) (read_record crc decompress d rt)
    (tl (write_type_and_authority rt a @ body)) (a, f)"
proof -
  have "tl (write_type_and_authority rt a @ body) =
      (u64_le (auth_term a) @ u64_le (case auth_ownership_epoch a of Some e \<Rightarrow> e | None \<Rightarrow> 0)) @ body"
    by (simp add: write_type_and_authority_def)
  then show ?thesis
    unfolding read_record_def
    by (simp only:, intro reads_bind [OF reads_authority [OF assms(2)]] reads_bind_last [OF assms(1)] reads_return)
qed

lemma decode_frame_bytes:
  assumes "reads mk_cursor (cut_short rt) (read_frame crc decompress wal_file_version rt) body f"
    and "auth_ownership_epoch a \<noteq> Some 0"
  defines "frame \<equiv> write_type_and_authority rt a @ body"
  shows "decode_main_wal_record_frame_with_authority crc decompress wal_file_version d
    (frame @ u32_le (crc frame) @ rest) = Inr (Some (a, f, rest))"
proof -
  define t where "t = tl frame"
  have fr: "frame = record_type_byte rt # t"
    by (simp add: t_def frame_def write_type_and_authority_def)
  have "read_record crc decompress d rt (mk_cursor [record_type_byte rt] (t @ u32_le (crc frame) @ rest)) =
      Inr ((a, f), mk_cursor frame (u32_le (crc frame) @ rest))"
    using readsD [OF reads_record [OF assms(1,2), of d, folded frame_def], of "[record_type_byte rt]" "u32_le (crc frame) @ rest"] fr
    by (simp flip: t_def)
  then show ?thesis
    using decode_via_read_record [of crc decompress d rt "t @ u32_le (crc frame) @ rest"] fr
    by (simp add: mk_cursor_def)
qed

text \<open>A frame cut anywhere after its tag is never read as a record.\<close>

lemma decode_frame_torn:
  assumes "reads mk_cursor (cut_short rt) (read_frame crc decompress wal_file_version rt) body f"
    and "auth_ownership_epoch a \<noteq> Some 0"
  defines "frame \<equiv> write_type_and_authority rt a @ body"
  assumes "frame @ u32_le (crc frame) = xs @ ys" and "xs \<noteq> []" and "ys \<noteq> []"
  shows "decode_main_wal_record_frame_with_authority crc decompress wal_file_version d xs =
    Inl (strict_ownership rt UnexpectedEof)"
proof -
  define t where "t = tl frame"
  have fr: "frame = record_type_byte rt # t"
    by (simp add: t_def frame_def write_type_and_authority_def)
  obtain zs where xs: "xs = record_type_byte rt # zs" and cut: "t @ u32_le (crc frame) = zs @ ys"
    using assms(4,5) fr by (cases xs) auto
  note rec = reads_record [OF assms(1,2), of d, folded frame_def, folded t_def]
  from cut show ?thesis
  proof (cases rule: append_cut)
    case (1 us)
    have "length us + length ys = 4" using 1(2) by (metis length_append length_u_le(2))
    then have "length us < 4" using assms(6) by (cases ys) auto
    then show ?thesis
      unfolding xs decode_via_read_record
      using readsD [OF rec, of "[record_type_byte rt]" us] 1 by (simp add: mk_cursor_def)
  next
    case (2 us)
    then show ?thesis
      unfolding xs decode_via_read_record
      using reads_tornD [of mk_cursor "cut_short rt" "read_record crc decompress d rt" zs us "(a, f)" "[record_type_byte rt]"] rec
      by (auto simp: cut_short_def)
  qed
qed

lemma frame_round_trip:
  assumes "encodable crc f" and "zstd_contract compress decompress" and "auth_ownership_epoch a \<noteq> Some 0"
  obtains rt body where "writes crc compress f a rt body"
    and "reads mk_cursor (cut_short rt) (read_frame crc decompress wal_file_version rt) body f"
    and "rt = RtPageOwnership \<longleftrightarrow> (\<exists>r. f = FPageOwnership r)"
proof -
  obtain rt body where w: "writes crc compress f a rt body"
    and r: "reads mk_cursor (cut_short rt) (read_frame crc decompress wal_file_version rt) body f"
    using frame_layout [OF assms(1,2), of a] by (auto simp: layout_def)
  have "read_frame crc decompress wal_file_version rt (mk_cursor [] (body @ [])) = Inr (f, mk_cursor ([] @ body) [])"
    by (rule readsD [OF r])
  then have "rt = RtPageOwnership \<longleftrightarrow> (\<exists>r. f = FPageOwnership r)"
    by (cases rt) (auto simp: rd_bind_def rd_return_def split: sum.splits prod.splits)
  with w r show thesis by (rule that)
qed

subsection \<open>Commit-batch offsets\<close>

lemma suffix_fold:
  "n + sum_list (map (\<lambda>a. 4 + length a) actions) \<le> u64_max \<Longrightarrow>
   try_fold (\<lambda>size action.
       ok_or (Option.bind (checked_add64 size 4) (\<lambda>sz. checked_add64 sz (length action))) e) n actions =
     Inr (n + sum_list (map (\<lambda>a. 4 + length a) actions))"
  by (induction actions arbitrary: n) (auto simp: checked_add64_def)

lemma length_items: "length (concat (map len_prefixed items)) = sum_list (map (\<lambda>a. 4 + length a) items)"
  by (induction items) (auto simp: len_prefixed_def)

text \<open>The visitor that records what it is shown.\<close>

definition record_visit :: "nat \<Rightarrow> bytes \<Rightarrow> (nat \<times> bytes) list \<Rightarrow> io_error + (nat \<times> bytes) list" where
  "record_visit offset action seen = Inr (seen @ [(offset, action)])"

lemma record_visit_fold:
  assumes "bs = pre @ concat (map len_prefixed actions) @ post"
  shows "\<exists>off' vs. try_fold (visit_actions record_visit) (length pre, seen) actions = Inr (off', seen @ vs) \<and>
    map snd vs = actions \<and> list_all (\<lambda>(off, a). take (length a) (drop off bs) = a) vs"
  using assms
proof (induction actions arbitrary: pre seen)
  case Nil
  then show ?case by auto
next
  case (Cons a actions)
  let ?off = "length pre + 4"
  have bs: "bs = (pre @ len_prefixed a) @ concat (map len_prefixed actions) @ post" using Cons.prems by simp
  have "take (length a) (drop ?off bs) = a" by (simp add: bs len_prefixed_def)
  moreover obtain off' vs where
    "try_fold (visit_actions record_visit) (length (pre @ len_prefixed a), seen @ [(?off, a)]) actions =
      Inr (off', (seen @ [(?off, a)]) @ vs)" "map snd vs = actions"
    "list_all (\<lambda>(off, a). take (length a) (drop off bs) = a) vs"
    using Cons.IH [OF bs, of "seen @ [(?off, a)]"] by blast
  moreover have "visit_actions record_visit (length pre, seen) a =
      Inr (length (pre @ len_prefixed a), seen @ [(?off, a)])"
    by (simp add: visit_actions_def record_visit_def len_prefixed_def Let_def)
  ultimately show ?case
    by (intro exI [of _ off'] exI [of _ "(?off, a) # vs"]) simp
qed

subsection \<open>Properties\<close>

text \<open>A run-length compressor for pages of one repeated byte, for the witnesses.\<close>

definition demo_compress :: "bytes \<Rightarrow> bytes option" where
  "demo_compress bs = (if bs \<noteq> [] \<and> list_all (\<lambda>b. b = hd bs) bs then Some [hd bs] else None)"

definition demo_decompress :: "bytes \<Rightarrow> nat \<Rightarrow> bytes option" where
  "demo_decompress bs n = (if bs = [] then None else Some (replicate n (hd bs)))"

lemma demo_zstd: "zstd_contract demo_compress demo_decompress"
  by (auto simp: zstd_contract_def demo_compress_def demo_decompress_def list_all_iff split: if_splits
      intro: replicate_length_same)

definition demo_crc :: "bytes \<Rightarrow> u32" where
  "demo_crc bs = word_of_nat (sum_list (map unat bs))"

definition demo_authority :: main_wal_record_authority where
  "demo_authority = \<lparr>auth_term = 4, auth_ownership_epoch = Some 2\<rparr>"

text \<open>
  C13: WAL frames round-trip. A frame within the decoder's limits is encoded without error, and
  reading it back from the log, whatever follows it, returns the same authority and the same frame
  (a compressed page write as the page write it stands for) and leaves exactly what follows.
\<close>

theorem wal_frame_round_trip:
  assumes "encodable crc f" and "zstd_contract compress decompress" and "auth_ownership_epoch a \<noteq> Some 0"
  shows "\<exists>bs. encode_main_wal_record_frame_with_authority crc compress f a = Inr bs \<and>
    decode_main_wal_record_frame_with_authority crc decompress wal_file_version d (bs @ rest) = Inr (Some (a, f, rest))"
proof (rule frame_round_trip [OF assms])
  fix rt body
  assume w: "writes crc compress f a rt body"
    and r: "reads mk_cursor (cut_short rt) (read_frame crc decompress wal_file_version rt) body f"
  show ?thesis
    using encode_frame_bytes [OF w, of "[]"] decode_frame_bytes [OF r assms(3), of d rest]
    by (simp add: encode_main_wal_record_frame_with_authority_def)
qed

theorem wal_frame_round_trip_witness:
  "\<exists>bs. encode_main_wal_record_frame_with_authority demo_crc demo_compress (FPageWrite 5 7 (replicate 300 9)) demo_authority = Inr bs \<and>
    decode_main_wal_record_frame_with_authority demo_crc demo_decompress wal_file_version demo_authority (bs @ []) =
      Inr (Some (demo_authority, FPageWrite 5 7 (replicate 300 9), []))"
  by (rule wal_frame_round_trip [OF _ demo_zstd])
    (simp_all add: encodable_def wal_payload_ok_def max_main_wal_payload_def demo_authority_def)

text \<open>
  C14: a torn frame is never read as a record. Any non-empty proper prefix of an encoded frame is
  reported as an unexpected end of file, except that a cut page-ownership record is reported as
  corruption, so that recovery cannot mistake it for an ordinary tail.
\<close>

theorem wal_torn_frame_detected:
  assumes "encodable crc f" and "zstd_contract compress decompress" and "auth_ownership_epoch a \<noteq> Some 0"
    and "encode_main_wal_record_frame_with_authority crc compress f a = Inr (xs @ ys)" and "xs \<noteq> []" and "ys \<noteq> []"
  shows "decode_main_wal_record_frame_with_authority crc decompress wal_file_version d xs =
    Inl (if (\<exists>r. f = FPageOwnership r) then InvalidData ''incomplete page ownership WAL record'' else UnexpectedEof)"
proof (rule frame_round_trip [OF assms(1-3)])
  fix rt body
  assume w: "writes crc compress f a rt body"
    and r: "reads mk_cursor (cut_short rt) (read_frame crc decompress wal_file_version rt) body f"
    and rt: "rt = RtPageOwnership \<longleftrightarrow> (\<exists>r. f = FPageOwnership r)"
  let ?frame = "write_type_and_authority rt a @ body"
  have "?frame @ u32_le (crc ?frame) = xs @ ys"
    using assms(4) encode_frame_bytes [OF w, of "[]"] by (simp add: encode_main_wal_record_frame_with_authority_def)
  from decode_frame_torn [OF r assms(3) this assms(5,6), of d] rt show ?thesis
    by (simp add: strict_ownership_def)
qed

theorem wal_torn_frame_detected_witness:
  "decode_main_wal_record_frame_with_authority demo_crc demo_decompress wal_file_version demo_authority [1] =
     Inl UnexpectedEof"
proof -
  let ?f = "FBegin 6"
  have "encode_main_wal_record_frame_with_authority demo_crc demo_compress ?f demo_authority =
      Inr ([1] @ tl (projr (encode_main_wal_record_frame_with_authority demo_crc demo_compress ?f demo_authority)))"
    and "tl (projr (encode_main_wal_record_frame_with_authority demo_crc demo_compress ?f demo_authority)) \<noteq> []"
    by (simp_all add: encode_main_wal_record_frame_with_authority_def frame_chunks_def
        encode_main_wal_record_frame_with_authority_into_def write_type_and_authority_def)
  from wal_torn_frame_detected [OF _ demo_zstd _ this(1) _ this(2)] show ?thesis
    by (simp add: encodable_def demo_authority_def)
qed

text \<open>
  The offsets a commit batch reports are the offsets of its actions. The visitor is shown the
  actions in order, each with the position in the emitted frame where its bytes stand.
\<close>

theorem commit_batch_offsets:
  assumes "length actions \<le> max_main_wal_items" and "list_all wal_payload_ok actions"
    and "29 + sum_list (map (\<lambda>a. 4 + length a) actions) \<le> u64_max"
  shows "\<exists>bs seen. encode_main_wal_commit_batch_with_visitor crc compress tx actions term record_visit [] = Inr (bs, seen) \<and>
    map snd seen = actions \<and> list_all (\<lambda>(off, a). take (length a) (drop off bs) = a) seen \<and>
    encode_main_wal_record_frame crc compress (FTxCommitBatch tx actions) term = Inr bs"
proof -
  let ?a = "\<lparr>auth_term = term, auth_ownership_epoch = None\<rparr>" and ?n = "sum_list (map (\<lambda>a. 4 + length a) actions)"
  let ?pre = "write_type_and_authority RtTxCommitBatch ?a @ u64_le tx @ u32_le (word_of_nat (length actions))"
  let ?frame = "?pre @ concat (map len_prefixed actions)"
  define bs where "bs = ?frame @ u32_le (crc ?frame)"
  have enc: "encode_main_wal_record_frame_with_authority_into crc compress (FTxCommitBatch tx actions) ?a [] = (Inr (), bs)"
    using encode_frame_bytes [OF layout_batch(1) [OF assms(1,2)], of crc compress tx ?a "[]"] by (simp add: bs_def)
  have len: "length bs = length ?pre + ?n + 4"
    by (simp add: bs_def length_items)
  have suffix: "try_fold (\<lambda>size action.
       ok_or (Option.bind (checked_add64 size 4) (\<lambda>sz. checked_add64 sz (length action))) e) 4 actions = Inr (4 + ?n)" for e :: io_error
    using assms(3) by (intro suffix_fold) simp
  have pre: "length bs - (4 + ?n) = length ?pre" "4 + ?n \<le> length bs" using len by simp_all
  obtain off' vs where v: "try_fold (visit_actions record_visit) (length ?pre, []) actions = Inr (off', [] @ vs)"
      "map snd vs = actions" "list_all (\<lambda>(off, a). take (length a) (drop off bs) = a) vs"
    using record_visit_fold [of bs ?pre actions "u32_le (crc ?frame)" "[]"] by (auto simp: bs_def)
  show ?thesis
    unfolding encode_main_wal_commit_batch_with_visitor_def encode_main_wal_record_frame_into_def
      encode_main_wal_record_frame_def encode_main_wal_record_frame_with_authority_def enc suffix
    using pre v by simp
qed

theorem commit_batch_offsets_witness:
  "\<exists>bs seen. encode_main_wal_commit_batch_with_visitor demo_crc demo_compress 1 [[10, 11], [12]] 4 record_visit [] = Inr (bs, seen) \<and>
    map snd seen = [[10, 11], [12]]"
proof -
  have "\<exists>bs seen. encode_main_wal_commit_batch_with_visitor demo_crc demo_compress 1 [[10, 11], [12]] 4 record_visit [] = Inr (bs, seen) \<and>
      map snd seen = [[10, 11], [12]] \<and> list_all (\<lambda>(off, a). take (length a) (drop off bs) = a) seen \<and>
      encode_main_wal_record_frame demo_crc demo_compress (FTxCommitBatch 1 [[10, 11], [12]]) 4 = Inr bs"
    by (rule commit_batch_offsets)
      (simp_all add: max_main_wal_items_def wal_payload_ok_def max_main_wal_payload_def u64_max_def)
  then show ?thesis by (elim exE conjE) (intro exI conjI)
qed

text \<open>
  C16: the encoder accepts batches the decoder refuses. A commit batch of more than a million actions
  is written without error and can never be read back.
\<close>

theorem oversized_batch_unreadable:
  assumes "max_main_wal_items < length actions" and "length actions \<le> u32_max"
    and "list_all wal_payload_ok actions"
  shows "\<exists>bs. encode_main_wal_record_frame crc compress (FTxCommitBatch tx actions) term = Inr bs \<and>
    decode_main_wal_record_frame crc decompress wal_file_version d (bs @ rest) =
      Inl (InvalidData ''implausible main WAL action count'')"
proof -
  let ?a = "\<lparr>auth_term = term, auth_ownership_epoch = None\<rparr>"
  let ?body = "u64_le tx @ u32_le (word_of_nat (length actions)) @ concat (map len_prefixed actions)"
  have w: "writes crc compress (FTxCommitBatch tx actions) ?a RtTxCommitBatch ?body"
    using assms by (simp add: writes_def frame_chunks_def write_u32_len_def run_write_items)
  let ?frame = "write_type_and_authority RtTxCommitBatch ?a @ ?body"
  have enc: "encode_main_wal_record_frame crc compress (FTxCommitBatch tx actions) term = Inr (?frame @ u32_le (crc ?frame))"
    using encode_frame_bytes [OF w, of "[]"]
    by (simp add: encode_main_wal_record_frame_def encode_main_wal_record_frame_with_authority_def)
  have "read_array_tracked 8 (u64_le x @ more, seen) = Inr (u64_le x, more, seen @ u64_le x)" for x more seen
    by (simp add: read_array_tracked_def)
  moreover have "read_array_tracked 4 (u32_le x @ more, seen) = Inr (u32_le x, more, seen @ u32_le x)" for x more seen
    by (simp add: read_array_tracked_def)
  ultimately show ?thesis
    unfolding enc using assms(1,2)
    by (simp add: decode_main_wal_record_frame_def decode_main_wal_record_frame_with_authority_def
        write_type_and_authority_def read_authority_def rd_map_err_def read_u64_tracked_def read_u32_tracked_def
        rd_bind_def rd_return_def rd_lift_def mk_cursor_def record_type_from_u8_def validate_count_def)
qed

theorem oversized_batch_unreadable_witness:
  "\<exists>bs. encode_main_wal_record_frame demo_crc demo_compress (FTxCommitBatch 1 (replicate 1000001 [])) 4 = Inr bs \<and>
    decode_main_wal_record_frame demo_crc demo_decompress wal_file_version 4 (bs @ []) =
      Inl (InvalidData ''implausible main WAL action count'')"
  by (rule oversized_batch_unreadable)
    (simp_all add: max_main_wal_items_def u32_max_def list_all_length wal_payload_ok_def)

end
