(* ===== verification/Wal_Log.thy ===== *)
theory Wal_Log
  imports Wal_Record
begin

section \<open>Writing and scanning the log\<close>

text \<open>
  \<open>src/crates/reddb-server/src/storage/wal/writer.rs\<close> and \<open>reader.rs\<close>. The writer is the log content (file and
  user-space buffer together) with its two positions: what lies below \<open>durable_lsn\<close> is on disk, a crash may
  keep any part of the rest. Preallocation reserves blocks and never changes the content, so it is left
  out, as are the choice of sync call and I/O errors. A \<open>WalRecord\<close> carries the fields of the frame it is
  written as, and is that frame here. The reader is the iteration over the file after its header.
\<close>

definition wal_default_term :: u64 where
  "wal_default_term = 1"

record wal_writer =
  wal_content :: bytes
  current_lsn :: nat
  durable_lsn :: nat

definition wal_header_bytes :: nat where
  "wal_header_bytes = 8"

definition wal_open :: "bytes \<Rightarrow> wal_writer" where
  "wal_open file =
     (if file = []
      then \<lparr>wal_content = encode_wal_file_header, current_lsn = wal_header_bytes, durable_lsn = wal_header_bytes\<rparr>
      else \<lparr>wal_content = file, current_lsn = length file, durable_lsn = length file\<rparr>)"

text \<open>\<open>encode\<close> panics on a frame that cannot be encoded: \<open>None\<close>.\<close>

definition wal_encode :: "(bytes \<Rightarrow> u32) \<Rightarrow> (bytes \<Rightarrow> bytes option) \<Rightarrow> main_wal_record_frame \<Rightarrow> bytes option" where
  "wal_encode crc compress f =
     (case encode_main_wal_record_frame crc compress f wal_default_term of Inl _ \<Rightarrow> None | Inr bs \<Rightarrow> Some bs)"

definition wal_append_bytes :: "bytes \<Rightarrow> wal_writer \<Rightarrow> nat \<times> wal_writer" where
  "wal_append_bytes bs w =
     (current_lsn w, w\<lparr>wal_content := wal_content w @ bs, current_lsn := wrapping_add64 (current_lsn w) (length bs)\<rparr>)"

definition wal_append ::
  "(bytes \<Rightarrow> u32) \<Rightarrow> (bytes \<Rightarrow> bytes option) \<Rightarrow> main_wal_record_frame \<Rightarrow> wal_writer \<Rightarrow> (nat \<times> wal_writer) option" where
  "wal_append crc compress f w = map_option (\<lambda>bs. wal_append_bytes bs w) (wal_encode crc compress f)"

definition wal_sync :: "wal_writer \<Rightarrow> wal_writer" where
  "wal_sync w = w\<lparr>durable_lsn := current_lsn w\<rparr>"

definition wal_flush_until :: "nat \<Rightarrow> wal_writer \<Rightarrow> wal_writer" where
  "wal_flush_until target w = (if durable_lsn w \<ge> target then w else w\<lparr>durable_lsn := current_lsn w\<rparr>)"

definition wal_mark_durable :: "nat \<Rightarrow> wal_writer \<Rightarrow> wal_writer" where
  "wal_mark_durable target_lsn w = (if target_lsn > durable_lsn w then w\<lparr>durable_lsn := target_lsn\<rparr> else w)"

definition wal_truncate :: "wal_writer \<Rightarrow> wal_writer" where
  "wal_truncate w =
     w\<lparr>wal_content := encode_wal_file_header, current_lsn := wal_header_bytes, durable_lsn := wal_header_bytes\<rparr>"

subsection \<open>The reader\<close>

lemma read_array_shrinks: "read_array_tracked n s = Inr (v, s') \<Longrightarrow> length (fst s') \<le> length (fst s)"
  by (auto simp: read_array_tracked_def split: if_splits)

definition shrinks :: "'a wal_reader \<Rightarrow> bool" where
  "shrinks p \<longleftrightarrow> (\<forall>s v s'. p s = Inr (v, s') \<longrightarrow> length (fst s') \<le> length (fst s))"

lemma shrinksD: "shrinks p \<Longrightarrow> p s = Inr (v, s') \<Longrightarrow> length (fst s') \<le> length (fst s)"
  unfolding shrinks_def by blast

lemma shrinks_bind [intro!]: "shrinks p \<Longrightarrow> (\<And>x. shrinks (f x)) \<Longrightarrow> shrinks (rd_bind p f)"
proof -
  assume p: "shrinks p" and f: "\<And>x. shrinks (f x)"
  have "length (fst s') \<le> length (fst s)" if "rd_bind p f s = Inr (v, s')" for s v s'
  proof -
    obtain x t where "p s = Inr (x, t)" and "f x t = Inr (v, s')"
      using \<open>rd_bind p f s = Inr (v, s')\<close> by (auto simp: rd_bind_def split: sum.splits prod.splits)
    then show ?thesis
      using shrinksD [OF p] shrinksD [OF f] order_trans by blast
  qed
  then show ?thesis unfolding shrinks_def by blast
qed

lemma shrinks_basic [intro!]:
  "shrinks (rd_return x)" "shrinks (rd_lift r)" "shrinks (rd_fail e)" "shrinks (read_array_tracked n)"
  by (auto simp: shrinks_def rd_return_def rd_lift_def rd_fail_def read_array_tracked_def split: sum.splits if_splits)

lemma shrinks_map_err [intro!]: "shrinks p \<Longrightarrow> shrinks (rd_map_err f p)"
  by (simp add: shrinks_def rd_map_err_def map_err_Inr)

lemma shrinks_times [intro!]: "shrinks p \<Longrightarrow> shrinks (rd_times n p)"
  by (induction n) auto

lemma shrinks_readers [intro!]:
  "shrinks read_u64_tracked" "shrinks read_u32_tracked" "shrinks read_u8_tracked" "shrinks read_bytes_tracked"
  "shrinks read_compression_tracked"
  by (auto simp: read_u64_tracked_def read_u32_tracked_def read_u8_tracked_def read_bytes_tracked_def
      read_compression_tracked_def)

lemma shrinks_frame [intro]: "shrinks (read_frame crc decompress version rt)"
  by (cases rt) auto

lemma shrinks_authority [intro]: "shrinks (read_authority rt version d)"
  by (auto simp: read_authority_def)

lemma decode_shrinks:
  assumes "decode_main_wal_record_frame_with_authority crc decompress version d input = Inr (Some (a, f, rest))"
  shows "length rest < length input"
proof (cases input)
  case Nil
  with assms show ?thesis by (simp add: decode_main_wal_record_frame_with_authority_def)
next
  case (Cons tag xs)
  with assms obtain rt s1 s2 where
    r1: "read_authority rt version d (mk_cursor [tag] xs) = Inr (a, s1)"
    and r2: "read_frame crc decompress version rt s1 = Inr (f, s2)" and rest: "rest = drop 4 (fst s2)"
    by (auto simp: decode_main_wal_record_frame_with_authority_def and_then_Inr ok_or_Inr split: if_splits)
  have "length (fst s1) \<le> length xs"
    using shrinksD [OF shrinks_authority r1] by (simp add: mk_cursor_def)
  moreover have "length (fst s2) \<le> length (fst s1)"
    by (rule shrinksD [OF shrinks_frame r2])
  ultimately show ?thesis using rest Cons by simp
qed

lemma decode_term_shrinks:
  "decode_main_wal_record_frame crc decompress version d input = Inr (Some (t, f, rest)) \<Longrightarrow>
     length rest < length input"
  by (auto simp: decode_main_wal_record_frame_def and_then_Inr dest: decode_shrinks)

text \<open>
  The iterator, run until the log ends or an item is an error: the records with their positions, and the
  error if there is one.
\<close>

function wal_scan ::
  "(bytes \<Rightarrow> u32) \<Rightarrow> (bytes \<Rightarrow> nat \<Rightarrow> bytes option) \<Rightarrow> byte \<Rightarrow> nat \<Rightarrow> bytes \<Rightarrow>
   (nat \<times> main_wal_record_frame) list \<times> io_error option" where
  "wal_scan crc decompress version pos input =
     (case decode_main_wal_record_frame crc decompress version wal_default_term input of
        Inl e \<Rightarrow> ([], Some e)
      | Inr None \<Rightarrow> ([], None)
      | Inr (Some (_, f, rest)) \<Rightarrow>
          (let (records, failure) = wal_scan crc decompress version (pos + (length input - length rest)) rest
           in ((pos, f) # records, failure)))"
  by pat_completeness auto
termination
  by (relation "measure (\<lambda>(_, _, _, _, input). length input)") (auto dest: decode_term_shrinks)

declare wal_scan.simps [simp del]

definition wal_read ::
  "(bytes \<Rightarrow> u32) \<Rightarrow> (bytes \<Rightarrow> nat \<Rightarrow> bytes option) \<Rightarrow> bytes \<Rightarrow>
   io_error + ((nat \<times> main_wal_record_frame) list \<times> io_error option)" where
  "wal_read crc decompress file =
     (if length file < wal_header_bytes then Inl UnexpectedEof
      else and_then (decode_wal_file_header (take wal_header_bytes file)) (\<lambda>h.
        Inr (wal_scan crc decompress (hdr_version h) wal_header_bytes (drop wal_header_bytes file))))"

text \<open>The latest full-page image of each page, by page.\<close>

fun collect_images ::
  "(u32, nat \<times> bytes) hmap \<Rightarrow> (nat \<times> main_wal_record_frame) list \<Rightarrow> (u32, nat \<times> bytes) hmap" where
  "collect_images out [] = out"
| "collect_images out ((lsn, FFullPageImage _ page_id _ data) # items) =
     collect_images
       (case hget out page_id of
          Some (existing_lsn, _) \<Rightarrow> (if existing_lsn > lsn then out else hput page_id (lsn, data) out)
        | None \<Rightarrow> hput page_id (lsn, data) out) items"
| "collect_images out (_ # items) = collect_images out items"

definition collect_full_page_images ::
  "(bytes \<Rightarrow> u32) \<Rightarrow> (bytes \<Rightarrow> nat \<Rightarrow> bytes option) \<Rightarrow> bytes option \<Rightarrow> io_error + (u32, nat \<times> bytes) hmap" where
  "collect_full_page_images crc decompress file =
     (case file of
        None \<Rightarrow> Inr []
      | Some bs \<Rightarrow> and_then (wal_read crc decompress bs) (\<lambda>(items, failure).
          case failure of Some e \<Rightarrow> Inl e | None \<Rightarrow> Inr (collect_images [] items)))"

subsection \<open>What a scan of a log returns\<close>

text \<open>A log is the list of its records with their encodings; \<open>stamp\<close> pairs each record with its position.\<close>

fun stamp :: "nat \<Rightarrow> (bytes \<times> main_wal_record_frame) list \<Rightarrow> (nat \<times> main_wal_record_frame) list" where
  "stamp pos [] = []"
| "stamp pos ((bs, f) # log) = (pos, f) # stamp (pos + length bs) log"

lemma map_snd_stamp [simp]: "map snd (stamp pos log) = map snd log"
  by (induction pos log rule: stamp.induct) auto

lemma stamp_append: "stamp pos (log1 @ log2) = stamp pos log1 @ stamp (pos + length (concat (map fst log1))) log2"
  by (induction pos log1 rule: stamp.induct) (auto simp: add.assoc)

definition torn_error :: "main_wal_record_frame \<Rightarrow> io_error" where
  "torn_error f =
     (case f of FPageOwnership _ \<Rightarrow> InvalidData ''incomplete page ownership WAL record'' | _ \<Rightarrow> UnexpectedEof)"

definition log_entry ::
  "(bytes \<Rightarrow> u32) \<Rightarrow> (bytes \<Rightarrow> bytes option) \<Rightarrow> (bytes \<Rightarrow> nat \<Rightarrow> bytes option) \<Rightarrow> bytes \<Rightarrow> main_wal_record_frame \<Rightarrow> bool" where
  "log_entry crc compress decompress bs f \<longleftrightarrow>
     wal_encode crc compress f = Some bs \<and> bs \<noteq> [] \<and>
     (\<forall>rest. decode_main_wal_record_frame crc decompress wal_file_version wal_default_term (bs @ rest) =
        Inr (Some (wal_default_term, f, rest))) \<and>
     (\<forall>xs ys. bs = xs @ ys \<longrightarrow> xs \<noteq> [] \<longrightarrow> ys \<noteq> [] \<longrightarrow>
        decode_main_wal_record_frame crc decompress wal_file_version wal_default_term xs = Inl (torn_error f))"

lemma log_entry_encodable:
  assumes "encodable crc f" and "zstd_contract compress decompress"
  shows "\<exists>bs. log_entry crc compress decompress bs f"
proof -
  let ?a = "\<lparr>auth_term = wal_default_term, auth_ownership_epoch = None\<rparr>"
  have a: "auth_ownership_epoch ?a \<noteq> Some 0" by simp
  obtain rt body where w: "writes crc compress f ?a rt body"
    and r: "reads mk_cursor (cut_short rt) (read_frame crc decompress wal_file_version rt) body f"
    and rt: "rt = RtPageOwnership \<longleftrightarrow> (\<exists>r. f = FPageOwnership r)"
    using frame_round_trip [OF assms a] by metis
  let ?frame = "write_type_and_authority rt ?a @ body"
  let ?bs = "?frame @ u32_le (crc ?frame)"
  have "wal_encode crc compress f = Some ?bs"
    using encode_frame_bytes [OF w, of "[]"]
    by (simp add: wal_encode_def encode_main_wal_record_frame_def encode_main_wal_record_frame_with_authority_def)
  moreover have "decode_main_wal_record_frame crc decompress wal_file_version wal_default_term (?bs @ rest) =
        Inr (Some (wal_default_term, f, rest))" for rest
    using decode_frame_bytes [OF r a, of ?a rest] by (simp add: decode_main_wal_record_frame_def)
  moreover have "decode_main_wal_record_frame crc decompress wal_file_version wal_default_term xs = Inl (torn_error f)"
    if "?bs = xs @ ys" "xs \<noteq> []" "ys \<noteq> []" for xs ys
    using decode_frame_torn [OF r a that, of ?a] rt
    by (auto simp: decode_main_wal_record_frame_def strict_ownership_def torn_error_def
        split: main_wal_record_frame.splits)
  ultimately show ?thesis
    unfolding log_entry_def by (intro exI [of _ ?bs]) auto
qed

definition log_ok ::
  "(bytes \<Rightarrow> u32) \<Rightarrow> (bytes \<Rightarrow> bytes option) \<Rightarrow> (bytes \<Rightarrow> nat \<Rightarrow> bytes option) \<Rightarrow>
   (bytes \<times> main_wal_record_frame) list \<Rightarrow> bool" where
  "log_ok crc compress decompress log \<longleftrightarrow> (\<forall>e \<in> set log. log_entry crc compress decompress (fst e) (snd e))"

lemma wal_scan_log:
  assumes "log_ok crc compress decompress log"
  shows "wal_scan crc decompress wal_file_version pos (concat (map fst log) @ tail) =
    (let (records, failure) = wal_scan crc decompress wal_file_version (pos + length (concat (map fst log))) tail
     in (stamp pos log @ records, failure))"
  using assms
proof (induction log arbitrary: pos)
  case Nil
  then show ?case by (simp split: prod.splits)
next
  case (Cons entry log)
  obtain bs f where entry: "entry = (bs, f)" by (cases entry)
  with Cons.prems have dec: "decode_main_wal_record_frame crc decompress wal_file_version wal_default_term
      (bs @ concat (map fst log) @ tail) = Inr (Some (wal_default_term, f, concat (map fst log) @ tail))"
    and ok: "log_ok crc compress decompress log"
    by (auto simp: log_ok_def log_entry_def)
  show ?case
    unfolding entry using dec Cons.IH [OF ok, of "pos + length bs"]
    by (subst wal_scan.simps) (simp add: add.assoc split: prod.splits)
qed

lemma wal_scan_end: "wal_scan crc decompress version pos [] = ([], None)"
  by (subst wal_scan.simps) (simp add: decode_main_wal_record_frame_def
      decode_main_wal_record_frame_with_authority_def)

lemma take_concat_split:
  assumes "k \<le> length (concat bss)"
  obtains j part where "take k (concat bss) = concat (take j bss) @ part" and "j \<le> length bss"
    and "part = [] \<or> (j < length bss \<and> (\<exists>ys. ys \<noteq> [] \<and> bss ! j = part @ ys))"
  using assms
proof (induction bss arbitrary: k thesis)
  case Nil
  then show ?case by auto
next
  case (Cons b bss)
  show ?case
  proof (cases "k < length b")
    case True
    then have "take k (concat (b # bss)) = concat (take 0 (b # bss)) @ take k b" and "drop k b \<noteq> []"
      by auto
    then show ?thesis
      by (intro Cons.prems(1) [of 0 "take k b"] disjI2 conjI exI [of _ "drop k b"]) auto
  next
    case False
    with Cons.prems(2) have "k - length b \<le> length (concat bss)" by auto
    then obtain j part where "take (k - length b) (concat bss) = concat (take j bss) @ part" "j \<le> length bss"
        "part = [] \<or> (j < length bss \<and> (\<exists>ys. ys \<noteq> [] \<and> bss ! j = part @ ys))"
      using Cons.IH by blast
    with False show ?thesis by (intro Cons.prems(1) [of "Suc j" part]) auto
  qed
qed

lemma wal_scan_cut:
  assumes "log_ok crc compress decompress log" and "k \<le> length (concat (map fst log))"
  obtains j failure where
    "wal_scan crc decompress wal_file_version pos (take k (concat (map fst log))) = (stamp pos (take j log), failure)"
    and "j \<le> length log" and "failure = None \<or> (j < length log \<and> failure = Some (torn_error (snd (log ! j))))"
    and "\<And>i. i \<le> length log \<Longrightarrow> length (concat (map fst (take i log))) \<le> k \<Longrightarrow> i \<le> j"
proof -
  obtain j part where cut: "take k (concat (map fst log)) = concat (take j (map fst log)) @ part"
    and j: "j \<le> length log"
    and part: "part = [] \<or> (j < length log \<and> (\<exists>ys. ys \<noteq> [] \<and> map fst log ! j = part @ ys))"
    using take_concat_split [OF assms(2)] by (metis length_map)
  have ok: "log_ok crc compress decompress (take j log)"
    using assms(1) by (auto simp: log_ok_def dest: in_set_takeD)
  have scan: "wal_scan crc decompress wal_file_version pos (take k (concat (map fst log))) =
      (let (records, failure) = wal_scan crc decompress wal_file_version
          (pos + length (concat (map fst (take j log)))) part
       in (stamp pos (take j log) @ records, failure))"
    unfolding cut using wal_scan_log [OF ok, of pos part] by (simp add: take_map)
  have tail: "wal_scan crc decompress wal_file_version p part = ([], if part = [] then None else Some (torn_error (snd (log ! j))))" for p
  proof (cases "part = []")
    case False
    then obtain ys where jl: "j < length log" and ys: "ys \<noteq> []" "fst (log ! j) = part @ ys" using part by auto
    have "log_entry crc compress decompress (fst (log ! j)) (snd (log ! j))"
      using assms(1) nth_mem [OF jl] by (simp add: log_ok_def)
    with ys False have "decode_main_wal_record_frame crc decompress wal_file_version wal_default_term part =
        Inl (torn_error (snd (log ! j)))" by (auto simp: log_entry_def)
    with False show ?thesis by (subst wal_scan.simps) simp
  qed (simp add: wal_scan_end)
  have bound: "i \<le> j" if "i \<le> length log" "length (concat (map fst (take i log))) \<le> k" for i
  proof (rule ccontr)
    assume "\<not> i \<le> j"
    then have ji: "Suc j \<le> i" and jl: "j < length log" using that(1) by auto
    have len: "length (concat (map fst (take j log))) + length part = k"
      using arg_cong [OF cut, of length] assms(2) by (simp add: take_map)
    have "take (Suc j) log = take (Suc j) (take i log)" using ji by (simp add: min_absorb1)
    then have "length (concat (map fst (take (Suc j) log))) \<le> length (concat (map fst (take i log)))"
      by (metis append_take_drop_id concat_append le_add1 length_append map_append)
    moreover have "length (concat (map fst (take (Suc j) log))) =
        length (concat (map fst (take j log))) + length (fst (log ! j))"
      using jl by (simp add: take_Suc_conv_app_nth)
    moreover have "length part < length (fst (log ! j))"
    proof -
      have "fst (log ! j) \<noteq> []"
        using assms(1) nth_mem [OF jl] by (auto simp: log_ok_def log_entry_def)
      then show ?thesis using part jl by auto
    qed
    ultimately show False using that(2) len by linarith
  qed
  show thesis
    by (rule that [of j "if part = [] then None else Some (torn_error (snd (log ! j)))"])
      (use scan tail j part bound in auto)
qed

subsection \<open>Writer runs\<close>

fun append_all ::
  "(bytes \<Rightarrow> u32) \<Rightarrow> (bytes \<Rightarrow> bytes option) \<Rightarrow> main_wal_record_frame list \<Rightarrow> wal_writer \<Rightarrow> (nat list \<times> wal_writer) option" where
  "append_all crc compress [] w = Some ([], w)"
| "append_all crc compress (f # fs) w =
     Option.bind (wal_append crc compress f w) (\<lambda>(lsn, w').
       map_option (\<lambda>(lsns, w''). (lsn # lsns, w'')) (append_all crc compress fs w'))"

definition writer_holds ::
  "(bytes \<Rightarrow> u32) \<Rightarrow> (bytes \<Rightarrow> bytes option) \<Rightarrow> (bytes \<Rightarrow> nat \<Rightarrow> bytes option) \<Rightarrow> wal_writer \<Rightarrow>
   (bytes \<times> main_wal_record_frame) list \<Rightarrow> bool" where
  "writer_holds crc compress decompress w log \<longleftrightarrow>
     log_ok crc compress decompress log \<and> wal_content w = encode_wal_file_header @ concat (map fst log) \<and>
     current_lsn w = length (wal_content w) \<and> durable_lsn w \<le> current_lsn w"

lemma length_header [simp]: "length encode_wal_file_header = 8"
  by (simp add: encode_wal_file_header_def wal_file_magic_def)

lemma writer_holds_open: "writer_holds crc compress decompress (wal_open []) []"
  by (simp add: writer_holds_def wal_open_def log_ok_def wal_header_bytes_def)

lemma writer_holds_sync: "writer_holds crc compress decompress w log \<Longrightarrow> writer_holds crc compress decompress (wal_sync w) log"
  by (simp add: writer_holds_def wal_sync_def)

lemma append_all_grows:
  "append_all crc compress fs w = Some (lsns, w') \<Longrightarrow> length (wal_content w) \<le> length (wal_content w')"
  by (induction fs arbitrary: lsns w)
    (fastforce simp: wal_append_def wal_append_bytes_def split: bind_splits)+

lemma append_all_holds:
  assumes "writer_holds crc compress decompress w log" and "\<forall>f \<in> set fs. \<exists>bs. log_entry crc compress decompress bs f"
    and "append_all crc compress fs w = Some (lsns, w')" and "length (wal_content w') \<le> u64_max"
  shows "\<exists>log'. writer_holds crc compress decompress w' (log @ log') \<and> map snd log' = fs \<and>
    stamp (current_lsn w) log' = zip lsns fs \<and> durable_lsn w' = durable_lsn w"
  using assms
proof (induction fs arbitrary: w log lsns)
  case Nil
  then show ?case by auto
next
  case (Cons f fs)
  obtain bs where entry: "log_entry crc compress decompress bs f" using Cons.prems(2) by auto
  then have enc: "wal_encode crc compress f = Some bs" by (simp add: log_entry_def)
  let ?w = "snd (wal_append_bytes bs w)"
  from Cons.prems(3) enc obtain lsns' where rest: "append_all crc compress fs ?w = Some (lsns', w')"
      and lsns: "lsns = current_lsn w # lsns'"
    by (auto simp: wal_append_def wal_append_bytes_def split: bind_splits)
  have "length (wal_content ?w) \<le> length (wal_content w')"
    using append_all_grows [OF rest] .
  with Cons.prems(4) Cons.prems(1) entry have holds: "writer_holds crc compress decompress ?w (log @ [(bs, f)])"
    by (auto simp: writer_holds_def wal_append_bytes_def log_ok_def wrapping_add64_no_wrap)
  have lsn: "current_lsn ?w = current_lsn w + length bs"
    using holds Cons.prems(1) by (simp add: writer_holds_def)
  obtain log' where "writer_holds crc compress decompress w' ((log @ [(bs, f)]) @ log')" "map snd log' = fs"
      "stamp (current_lsn ?w) log' = zip lsns' fs" "durable_lsn w' = durable_lsn ?w"
    using Cons.IH [OF holds _ rest Cons.prems(4)] Cons.prems(2) by auto
  then show ?case
    using lsn lsns by (intro exI [of _ "(bs, f) # log'"]) (auto simp: wal_append_bytes_def)
qed

lemma decode_header [simp]:
  "decode_wal_file_header encode_wal_file_header = Inr \<lparr>hdr_version = wal_file_version\<rparr>"
  by (simp add: decode_wal_file_header_def encode_wal_file_header_def wal_file_magic_def Let_def)

lemma wal_read_cut:
  assumes "writer_holds crc compress decompress w log" and "8 \<le> k" and "k \<le> length (wal_content w)"
  shows "wal_read crc decompress (take k (wal_content w)) =
    Inr (wal_scan crc decompress wal_file_version 8 (take (k - 8) (concat (map fst log))))"
  using assms by (simp add: writer_holds_def wal_read_def wal_header_bytes_def)

lemma stamp_take: "stamp pos (take j log) = take j (stamp pos log)"
  by (induction pos log arbitrary: j rule: stamp.induct) (auto simp: take_Cons' split: nat.splits)

lemma length_stamp [simp]: "length (stamp pos log) = length log"
  by (induction pos log rule: stamp.induct) auto

lemma two_runs:
  assumes "\<forall>f \<in> set (fs1 @ fs2). encodable crc f" and "zstd_contract compress decompress"
    and "append_all crc compress fs1 (wal_open []) = Some (lsns1, w1)"
    and "append_all crc compress fs2 (wal_sync w1) = Some (lsns2, w2)" and "length (wal_content w2) \<le> u64_max"
  obtains log1 log2 where "writer_holds crc compress decompress w2 (log1 @ log2)" and "map snd log1 = fs1"
    and "map snd log2 = fs2" and "stamp 8 log1 = zip lsns1 fs1"
    and "stamp (8 + length (concat (map fst log1))) log2 = zip lsns2 fs2"
    and "durable_lsn w2 = 8 + length (concat (map fst log1))"
proof -
  have entries: "\<forall>f \<in> set fs1. \<exists>bs. log_entry crc compress decompress bs f" "\<forall>f \<in> set fs2. \<exists>bs. log_entry crc compress decompress bs f"
    using assms(1,2) log_entry_encodable by auto
  have "length (wal_content w1) \<le> u64_max"
    using append_all_grows [OF assms(4)] assms(5) by (simp add: wal_sync_def)
  from append_all_holds [OF writer_holds_open entries(1) assms(3) this] obtain log1 where
    h1: "writer_holds crc compress decompress w1 log1" "map snd log1 = fs1" "stamp (current_lsn (wal_open [])) log1 = zip lsns1 fs1"
    by auto
  from append_all_holds [OF writer_holds_sync [OF h1(1)] entries(2) assms(4,5)] obtain log2 where
    h2: "writer_holds crc compress decompress w2 (log1 @ log2)" "map snd log2 = fs2"
      "stamp (current_lsn (wal_sync w1)) log2 = zip lsns2 fs2" "durable_lsn w2 = durable_lsn (wal_sync w1)"
    by auto
  have lsn: "current_lsn w1 = 8 + length (concat (map fst log1))"
    using h1(1) by (simp add: writer_holds_def)
  have "stamp 8 log1 = zip lsns1 fs1" and "stamp (8 + length (concat (map fst log1))) log2 = zip lsns2 fs2"
    using h1(3) h2(3) lsn by (simp_all add: wal_sync_def wal_open_def wal_header_bytes_def)
  moreover have "durable_lsn w2 = 8 + length (concat (map fst log1))"
    using h2(4) lsn by (simp add: wal_sync_def)
  ultimately show thesis using that h1(2) h2(1,2) by blast
qed

text \<open>
  C10: records appended before a sync survive a crash. Append \<open>fs1\<close> to a new log, sync, append \<open>fs2\<close>, and
  let a crash keep any part of the file beyond the durable position: the scan returns all of \<open>fs1\<close> at the
  positions the appends returned, then a prefix of \<open>fs2\<close> at theirs; it ends cleanly or with the error of
  the record the crash cut.
\<close>

theorem synced_records_survive_crash:
  assumes "\<forall>f \<in> set (fs1 @ fs2). encodable crc f" and "zstd_contract compress decompress"
    and "append_all crc compress fs1 (wal_open []) = Some (lsns1, w1)"
    and "append_all crc compress fs2 (wal_sync w1) = Some (lsns2, w2)" and "length (wal_content w2) \<le> u64_max"
    and "durable_lsn w2 \<le> k" and "k \<le> length (wal_content w2)"
  shows "\<exists>n failure. wal_read crc decompress (take k (wal_content w2)) =
      Inr (zip lsns1 fs1 @ take n (zip lsns2 fs2), failure) \<and> n \<le> length fs2 \<and>
      (failure = None \<or> n < length fs2 \<and> failure = Some (torn_error (fs2 ! n)))"
proof -
  obtain log1 log2 where h: "writer_holds crc compress decompress w2 (log1 @ log2)" "map snd log1 = fs1"
      "map snd log2 = fs2" and st: "stamp 8 log1 = zip lsns1 fs1"
      "stamp (8 + length (concat (map fst log1))) log2 = zip lsns2 fs2"
      and d: "durable_lsn w2 = 8 + length (concat (map fst log1))"
    by (rule two_runs [OF assms(1-5)])
  have k: "k - 8 \<le> length (concat (map fst (log1 @ log2)))" and k8: "8 \<le> k"
    using h(1) assms(6,7) d by (auto simp: writer_holds_def)
  have ok: "log_ok crc compress decompress (log1 @ log2)" using h(1) by (simp add: writer_holds_def)
  obtain j failure where
    scan: "wal_scan crc decompress wal_file_version 8 (take (k - 8) (concat (map fst (log1 @ log2)))) =
        (stamp 8 (take j (log1 @ log2)), failure)"
    and j: "j \<le> length (log1 @ log2)"
    and f: "failure = None \<or> (j < length (log1 @ log2) \<and> failure = Some (torn_error (snd ((log1 @ log2) ! j))))"
    and min: "\<And>i. i \<le> length (log1 @ log2) \<Longrightarrow> length (concat (map fst (take i (log1 @ log2)))) \<le> k - 8 \<Longrightarrow> i \<le> j"
    by (rule wal_scan_cut [OF ok k]) (rule that)
  have j1: "length log1 \<le> j" using min [of "length log1"] assms(6) d by simp
  have "stamp 8 (take j (log1 @ log2)) = zip lsns1 fs1 @ take (j - length log1) (zip lsns2 fs2)"
    using j1 st by (simp add: stamp_append stamp_take)
  moreover have "snd ((log1 @ log2) ! j) = fs2 ! (j - length log1)" if "j < length (log1 @ log2)"
    using that j1 h(3) by (auto simp: nth_append)
  ultimately show ?thesis
    using wal_read_cut [OF h(1) k8 assms(7)] scan j j1 f h(3)
    by (intro exI [of _ "j - length log1"] exI [of _ failure]) auto
qed

definition demo_w1 :: wal_writer where
  "demo_w1 = snd (the (append_all demo_crc demo_compress [FBegin 7] (wal_open [])))"

definition demo_w2 :: wal_writer where
  "demo_w2 = snd (the (append_all demo_crc demo_compress [FCommit 7] (wal_sync demo_w1)))"

lemma demo_encode:
  "wal_encode demo_crc demo_compress (FBegin tx) = Some ([1] @ u64_le 1 @ u64_le 0 @ u64_le tx @ u32_le (demo_crc ([1] @ u64_le 1 @ u64_le 0 @ u64_le tx)))"
  "wal_encode demo_crc demo_compress (FCommit tx) = Some ([2] @ u64_le 1 @ u64_le 0 @ u64_le tx @ u32_le (demo_crc ([2] @ u64_le 1 @ u64_le 0 @ u64_le tx)))"
  by (simp_all add: wal_encode_def encode_main_wal_record_frame_def frame_chunks_def wal_default_term_def
      encode_main_wal_record_frame_with_authority_def encode_main_wal_record_frame_with_authority_into_def
      write_type_and_authority_def)

lemma demo_runs:
  "append_all demo_crc demo_compress [FBegin 7] (wal_open []) = Some ([8], demo_w1)"
  "append_all demo_crc demo_compress [FCommit 7] (wal_sync demo_w1) = Some ([37], demo_w2)"
  "durable_lsn demo_w2 = 37" "length (wal_content demo_w2) = 66"
  by (simp_all add: demo_w1_def demo_w2_def wal_append_def demo_encode wal_append_bytes_def wal_open_def
      wal_sync_def wal_header_bytes_def wrapping_add64_no_wrap u64_max_def)

theorem synced_records_survive_crash_witness:
  "\<exists>n failure. wal_read demo_crc demo_decompress (take 50 (wal_content demo_w2)) =
      Inr ((8, FBegin 7) # take n [(37, FCommit 7)], failure) \<and> n \<le> 1"
proof -
  have "\<forall>f \<in> set ([FBegin 7] @ [FCommit 7]). encodable demo_crc f" by (simp add: encodable_def)
  from synced_records_survive_crash [OF this demo_zstd demo_runs(1,2), of 50] demo_runs(3,4) show ?thesis
    by (auto simp: u64_max_def)
qed

end
