(* ===== verification/Slotted_Page.thy ===== *)
theory Slotted_Page
  imports Byte_Codec
begin

section \<open>Slotted pages\<close>

text \<open>
  The 16 KiB page of the storage engine: \<open>src/crates/reddb-file/src/file_format.rs\<close> (byte layout of the page
  header, of the cell pointers and of the cells) and \<open>src/crates/reddb-engine/src/storage/page.rs\<close>,
  \<open>page/impl.rs\<close> (typed header, cell insertion and lookup, binary search, checksum). A page is its byte
  string; the fixed array type of the source is the length condition \<open>length page = paged_page_size\<close>, under
  which the offset reads that \<open>expect\<close> success cannot fail. The checksum function is a parameter, the
  crate \<open>crc32fast\<close>. \<open>page_cells page cells\<close> is the abstraction: the page holds exactly those key-value
  cells, in insertion order, the cell bodies stacked downwards from the end of the page.
\<close>

subsection \<open>Byte windows\<close>

type_synonym u16 = "16 word"

definition window :: "nat \<Rightarrow> nat \<Rightarrow> bytes \<Rightarrow> bytes" where
  "window off n xs = take n (drop off xs)"

definition overwrite :: "nat \<Rightarrow> bytes \<Rightarrow> bytes \<Rightarrow> bytes" where
  "overwrite off bs xs = take off xs @ bs @ drop (off + length bs) xs"

definition u16_le :: "u16 \<Rightarrow> bytes" where
  "u16_le w = le_bytes 2 (unat w)"

definition u16_of_le :: "bytes \<Rightarrow> u16" where
  "u16_of_le bs = word_of_nat (le_val bs)"

lemma unat_u16_less: "unat (w :: u16) < 65536"
  by (rule order_less_le_trans [OF unsigned_less]) simp

lemma u16_of_le_inverse [simp, byte_simps]: "u16_of_le (u16_le w) = w"
  by (simp add: u16_of_le_def u16_le_def le_val_le_bytes unat_u16_less)

lemma length_u16_le [simp, byte_simps]: "length (u16_le w) = 2"
  by (simp add: u16_le_def)

lemma unat_u16_nat [simp]: "n < 65536 \<Longrightarrow> unat (word_of_nat n :: u16) = n"
  by (simp add: unat_of_nat)

lemma length_window [simp, byte_simps]: "off + n \<le> length xs \<Longrightarrow> length (window off n xs) = n"
  by (simp add: window_def)

lemma length_overwrite [simp, byte_simps]: "off + length bs \<le> length xs \<Longrightarrow> length (overwrite off bs xs) = length xs"
  by (simp add: overwrite_def)

lemma window_overwrite_same [simp, byte_simps]:
  "off + length bs \<le> length xs \<Longrightarrow> n = length bs \<Longrightarrow> window off n (overwrite off bs xs) = bs"
  by (simp add: window_def overwrite_def)

lemma nth_overwrite:
  "off + length bs \<le> length xs \<Longrightarrow> i < length xs \<Longrightarrow>
     overwrite off bs xs ! i = (if off \<le> i \<and> i < off + length bs then bs ! (i - off) else xs ! i)"
  by (auto simp: overwrite_def nth_append)

lemma nth_window: "off + n \<le> length xs \<Longrightarrow> i < n \<Longrightarrow> window off n xs ! i = xs ! (off + i)"
  by (simp add: window_def)

lemma window_overwrite_disjoint [simp, byte_simps]:
  assumes "off + length bs \<le> length xs" and "off' + n \<le> length xs" and "off' + n \<le> off \<or> off + length bs \<le> off'"
  shows "window off' n (overwrite off bs xs) = window off' n xs"
  using assms by (intro nth_equalityI) (auto simp: nth_window nth_overwrite)

lemma window_window: "a + m \<le> n \<Longrightarrow> window a m (window off n xs) = window (off + a) m xs"
  by (simp add: window_def drop_take add.commute min_def)

lemma overwrite_overwrite_same: "off + length bs \<le> length xs \<Longrightarrow> length cs = length bs \<Longrightarrow> overwrite off cs (overwrite off bs xs) = overwrite off cs xs"
  by (intro nth_equalityI) (auto simp: nth_overwrite)

subsection \<open>Page layout\<close>

definition paged_page_size :: nat where
  "paged_page_size = 16384"

definition paged_page_header_size :: nat where
  "paged_page_header_size = 32"

definition paged_cell_pointer_size :: nat where
  "paged_cell_pointer_size = 2"

definition paged_cell_header_size :: nat where
  "paged_cell_header_size = 6"

lemmas page_sizes = paged_page_size_def paged_page_header_size_def paged_cell_pointer_size_def
  paged_cell_header_size_def

datatype page_type =
    PtFree | BTreeLeaf | BTreeInterior | PtOverflow | PtVector | FreelistTrunk | PtHeader | GraphNode
  | GraphEdge | GraphAdjacency | GraphMeta | NativeMeta | Vault | ColumnBlock

fun page_type_byte :: "page_type \<Rightarrow> byte" where
  "page_type_byte PtFree = 0"
| "page_type_byte BTreeLeaf = 1"
| "page_type_byte BTreeInterior = 2"
| "page_type_byte PtOverflow = 3"
| "page_type_byte PtVector = 4"
| "page_type_byte FreelistTrunk = 5"
| "page_type_byte PtHeader = 6"
| "page_type_byte GraphNode = 7"
| "page_type_byte GraphEdge = 8"
| "page_type_byte GraphAdjacency = 9"
| "page_type_byte GraphMeta = 10"
| "page_type_byte NativeMeta = 11"
| "page_type_byte Vault = 12"
| "page_type_byte ColumnBlock = 13"

definition page_type_from_u8 :: "byte \<Rightarrow> page_type option" where
  "page_type_from_u8 v =
     (if v = 0 then Some PtFree else if v = 1 then Some BTreeLeaf else if v = 2 then Some BTreeInterior
      else if v = 3 then Some PtOverflow else if v = 4 then Some PtVector else if v = 5 then Some FreelistTrunk
      else if v = 6 then Some PtHeader else if v = 7 then Some GraphNode else if v = 8 then Some GraphEdge
      else if v = 9 then Some GraphAdjacency else if v = 10 then Some GraphMeta
      else if v = 11 then Some NativeMeta else if v = 12 then Some Vault
      else if v = 13 then Some ColumnBlock else None)"

datatype page_error =
    InvalidPageType byte | ChecksumMismatch u32 u32 | InvalidSize nat | PageFull | CellOutOfBounds nat
  | InvalidCellPointer u16 | OverflowRequired

record paged_page_header =
  raw_page_type :: byte
  raw_flags :: byte
  raw_cell_count :: u16
  raw_free_start :: u16
  raw_free_end :: u16
  raw_page_id :: u32
  raw_parent_id :: u32
  raw_right_child :: u32
  raw_lsn :: u64
  raw_checksum :: u32

definition encode_paged_page_header :: "paged_page_header \<Rightarrow> bytes" where
  "encode_paged_page_header h =
     [raw_page_type h, raw_flags h] @ u16_le (raw_cell_count h) @ u16_le (raw_free_start h) @
     u16_le (raw_free_end h) @ u32_le (raw_page_id h) @ u32_le (raw_parent_id h) @ u32_le (raw_right_child h) @
     u64_le (raw_lsn h) @ u32_le (raw_checksum h)"

definition decode_paged_page_header :: "bytes \<Rightarrow> paged_page_header" where
  "decode_paged_page_header buf =
     \<lparr>raw_page_type = buf ! 0, raw_flags = buf ! 1, raw_cell_count = u16_of_le (window 2 2 buf),
      raw_free_start = u16_of_le (window 4 2 buf), raw_free_end = u16_of_le (window 6 2 buf),
      raw_page_id = u32_of_le (window 8 4 buf), raw_parent_id = u32_of_le (window 12 4 buf),
      raw_right_child = u32_of_le (window 16 4 buf), raw_lsn = u64_of_le (window 20 8 buf),
      raw_checksum = u32_of_le (window 28 4 buf)\<rparr>"

definition paged_page_cell_count :: "bytes \<Rightarrow> u16" where
  "paged_page_cell_count page = u16_of_le (window 2 2 page)"

definition paged_page_lsn :: "bytes \<Rightarrow> u64" where
  "paged_page_lsn page = u64_of_le (window 20 8 page)"

definition set_paged_page_lsn :: "u64 \<Rightarrow> bytes \<Rightarrow> bytes" where
  "set_paged_page_lsn lsn page = overwrite 20 (u64_le lsn) page"

definition paged_page_checksum :: "bytes \<Rightarrow> u32" where
  "paged_page_checksum page = u32_of_le (window 28 4 page)"

definition set_paged_page_checksum :: "u32 \<Rightarrow> bytes \<Rightarrow> bytes" where
  "set_paged_page_checksum checksum page = overwrite 28 (u32_le checksum) page"

definition clear_paged_page_checksum :: "bytes \<Rightarrow> bytes" where
  "clear_paged_page_checksum page = overwrite 28 (u32_le 0) page"

definition paged_cell_pointer_offset :: "nat \<Rightarrow> nat option" where
  "paged_cell_pointer_offset index =
     (if index * paged_cell_pointer_size \<le> u64_max
      then Option.bind (checked_add64 paged_page_header_size (index * paged_cell_pointer_size)) (\<lambda>off.
        if off + paged_cell_pointer_size \<le> paged_page_size then Some off else None)
      else None)"

definition paged_cell_pointer :: "bytes \<Rightarrow> nat \<Rightarrow> u16 option" where
  "paged_cell_pointer page index =
     map_option (\<lambda>off. u16_of_le (window off 2 page)) (paged_cell_pointer_offset index)"

definition paged_cell_pointer_is_valid :: "u16 \<Rightarrow> bool" where
  "paged_cell_pointer_is_valid pointer \<longleftrightarrow>
     paged_page_header_size \<le> unat pointer \<and> unat pointer < paged_page_size"

text \<open>Writers that report failure as a boolean return the page with it.\<close>

definition set_paged_cell_pointer :: "nat \<Rightarrow> u16 \<Rightarrow> bytes \<Rightarrow> bool \<times> bytes" where
  "set_paged_cell_pointer index pointer page =
     (case paged_cell_pointer_offset index of
        None \<Rightarrow> (False, page)
      | Some off \<Rightarrow>
          if \<not> paged_cell_pointer_is_valid pointer then (False, page)
          else (True, overwrite off (u16_le pointer) page))"

definition paged_cell_len :: "nat \<Rightarrow> nat \<Rightarrow> nat option" where
  "paged_cell_len key_len value_len =
     Option.bind (checked_add64 paged_cell_header_size key_len) (\<lambda>n. checked_add64 n value_len)"

definition paged_cell_total_len :: "bytes \<Rightarrow> u16 \<Rightarrow> nat option" where
  "paged_cell_total_len page pointer =
     (let p = unat pointer in
      if p + paged_cell_header_size > paged_page_size then None
      else Option.bind (paged_cell_len (unat (u16_of_le (window p 2 page))) (unat (u32_of_le (window (p + 2) 4 page))))
        (\<lambda>total. if p + total \<le> paged_page_size then Some total else None))"

definition paged_cell_bytes :: "bytes \<Rightarrow> u16 \<Rightarrow> bytes option" where
  "paged_cell_bytes page pointer =
     map_option (\<lambda>total. window (unat pointer) total page) (paged_cell_total_len page pointer)"

definition paged_cell_key_value :: "bytes \<Rightarrow> (bytes \<times> bytes) option" where
  "paged_cell_key_value cell =
     (if length cell < paged_cell_header_size then None
      else
        let key_len = unat (u16_of_le (window 0 2 cell)); value_len = unat (u32_of_le (window 2 4 cell)) in
        Option.bind (paged_cell_len key_len value_len) (\<lambda>total.
          if total > length cell then None
          else Some (window paged_cell_header_size key_len cell,
                     window (paged_cell_header_size + key_len) value_len cell)))"

definition write_paged_cell :: "u16 \<Rightarrow> bytes \<Rightarrow> bytes \<Rightarrow> bytes \<Rightarrow> bool \<times> bytes" where
  "write_paged_cell off key value page =
     (if length key > 65535 then (False, page)
      else if length value > u32_max then (False, page)
      else
        case paged_cell_len (length key) (length value) of
          None \<Rightarrow> (False, page)
        | Some total_len \<Rightarrow>
            let offset = unat off in
            if offset + total_len > paged_page_size then (False, page)
            else (True,
              overwrite (offset + paged_cell_header_size + length key) value
                (overwrite (offset + paged_cell_header_size) key
                  (overwrite (offset + 2) (u32_le (word_of_nat (length value)))
                    (overwrite offset (u16_le (word_of_nat (length key))) page)))))"

subsection \<open>The typed page\<close>

record page_header =
  page_type :: page_type
  page_flags :: byte
  cell_count :: u16
  free_start :: u16
  free_end :: u16
  header_page_id :: u32
  parent_id :: u32
  right_child :: u32
  page_lsn :: u64
  page_checksum :: u32

definition page_header_new :: "page_type \<Rightarrow> u32 \<Rightarrow> page_header" where
  "page_header_new ty pid =
     \<lparr>page_type = ty, page_flags = 0, cell_count = 0, free_start = word_of_nat paged_page_header_size,
      free_end = word_of_nat paged_page_size, header_page_id = pid, parent_id = 0, right_child = 0, page_lsn = 0, page_checksum = 0\<rparr>"

definition page_header_to_bytes :: "page_header \<Rightarrow> bytes" where
  "page_header_to_bytes h = encode_paged_page_header
     \<lparr>raw_page_type = page_type_byte (page_type h), raw_flags = page_flags h, raw_cell_count = cell_count h,
      raw_free_start = free_start h, raw_free_end = free_end h, raw_page_id = header_page_id h,
      raw_parent_id = parent_id h, raw_right_child = right_child h, raw_lsn = page_lsn h, raw_checksum = page_checksum h\<rparr>"

definition page_header_from_bytes :: "bytes \<Rightarrow> page_error + page_header" where
  "page_header_from_bytes buf =
     (let raw = decode_paged_page_header buf in
      and_then (ok_or (page_type_from_u8 (raw_page_type raw)) (InvalidPageType (raw_page_type raw))) (\<lambda>ty.
        Inr \<lparr>page_type = ty, page_flags = raw_flags raw, cell_count = raw_cell_count raw,
             free_start = raw_free_start raw, free_end = raw_free_end raw, header_page_id = raw_page_id raw,
             parent_id = raw_parent_id raw, right_child = raw_right_child raw, page_lsn = raw_lsn raw,
             page_checksum = raw_checksum raw\<rparr>))"

definition free_space :: "page_header \<Rightarrow> nat" where
  "free_space h = (if free_end h \<le> free_start h then 0 else unat (free_end h - free_start h))"

definition set_dirty :: "page_header \<Rightarrow> page_header" where
  "set_dirty h = h\<lparr>page_flags := or (page_flags h) 1\<rparr>"

definition page_get_header :: "bytes \<Rightarrow> page_error + page_header" where
  "page_get_header page = page_header_from_bytes (take paged_page_header_size page)"

definition page_set_header :: "page_header \<Rightarrow> bytes \<Rightarrow> bytes" where
  "page_set_header h page = overwrite 0 (page_header_to_bytes h) page"

definition page_new :: "page_type \<Rightarrow> u32 \<Rightarrow> bytes" where
  "page_new ty pid = page_set_header (page_header_new ty pid) (replicate paged_page_size 0)"

definition page_from_slice :: "bytes \<Rightarrow> page_error + bytes" where
  "page_from_slice bs = (if length bs \<noteq> paged_page_size then Inl (InvalidSize (length bs)) else Inr bs)"

definition update_checksum :: "(bytes \<Rightarrow> u32) \<Rightarrow> bytes \<Rightarrow> bytes" where
  "update_checksum crc page =
     (let cleared = clear_paged_page_checksum page in set_paged_page_checksum (crc cleared) cleared)"

definition verify_checksum :: "(bytes \<Rightarrow> u32) \<Rightarrow> bytes \<Rightarrow> page_error + unit" where
  "verify_checksum crc page =
     (let stored = paged_page_checksum page; calculated = crc (clear_paged_page_checksum page) in
      if stored \<noteq> calculated then Inl (ChecksumMismatch stored calculated) else Inr ())"

definition get_cell_pointer :: "bytes \<Rightarrow> nat \<Rightarrow> page_error + u16" where
  "get_cell_pointer page index =
     (if index \<ge> unat (paged_page_cell_count page) then Inl (CellOutOfBounds index)
      else ok_or (paged_cell_pointer page index) (CellOutOfBounds index))"

definition set_cell_pointer :: "nat \<Rightarrow> u16 \<Rightarrow> bytes \<Rightarrow> (page_error + unit) \<times> bytes" where
  "set_cell_pointer index pointer page =
     (if \<not> paged_cell_pointer_is_valid pointer then (Inl (InvalidCellPointer pointer), page)
      else let (ok, page') = set_paged_cell_pointer index pointer page in
        if ok then (Inr (), page') else (Inl (CellOutOfBounds index), page'))"

definition get_cell :: "bytes \<Rightarrow> nat \<Rightarrow> page_error + bytes" where
  "get_cell page index =
     and_then (get_cell_pointer page index) (\<lambda>pointer.
       ok_or (paged_cell_bytes page pointer) (InvalidCellPointer pointer))"

definition read_cell :: "bytes \<Rightarrow> nat \<Rightarrow> page_error + (bytes \<times> bytes)" where
  "read_cell page index =
     and_then (get_cell page index) (\<lambda>cell. ok_or (paged_cell_key_value cell) (InvalidCellPointer 0))"

definition insert_cell :: "bytes \<Rightarrow> bytes \<Rightarrow> bytes \<Rightarrow> (page_error + nat) \<times> bytes" where
  "insert_cell key value page =
     (if length key > 65535 then (Inl OverflowRequired, page)
      else case paged_cell_len (length key) (length value) of
        None \<Rightarrow> (Inl OverflowRequired, page)
      | Some cell_size \<Rightarrow>
          if cell_size > paged_page_size - paged_page_header_size - 2 then (Inl OverflowRequired, page)
          else case page_get_header page of
            Inl e \<Rightarrow> (Inl e, page)
          | Inr header \<Rightarrow>
              if free_space header < 2 + cell_size then (Inl PageFull, page)
              else
                let cell_offset = word_of_nat (unat (free_end header) - cell_size);
                    (ok, page1) = write_paged_cell cell_offset key value page in
                if \<not> ok then (Inl (InvalidCellPointer cell_offset), page1)
                else
                  let cell_index = unat (cell_count header);
                      (ok', page2) = set_paged_cell_pointer cell_index cell_offset page1 in
                  if \<not> ok' then (Inl (CellOutOfBounds cell_index), page2)
                  else
                    (Inr cell_index,
                     page_set_header
                       (set_dirty (header\<lparr>cell_count := cell_count header + 1,
                                         free_start := free_start header + 2, free_end := cell_offset\<rparr>)) page2))"

text \<open>Binary search: \<open>Inr\<close> the index of the key, \<open>Inl\<close> the position to insert it (or where a read failed).\<close>

function search_loop :: "(nat \<Rightarrow> 'e + (bytes \<times> 'v)) \<Rightarrow> bytes \<Rightarrow> nat \<Rightarrow> nat \<Rightarrow> nat + nat" where
  "search_loop rd key low high =
     (if low < high then
        let mid = (low + high) div 2 in
        case rd mid of
          Inl _ \<Rightarrow> Inl mid
        | Inr (cell_key, _) \<Rightarrow>
            if cell_key < key then search_loop rd key (mid + 1) high
            else if key < cell_key then search_loop rd key low mid
            else Inr mid
      else Inl low)"
  by pat_completeness auto
termination
  by (relation "measure (\<lambda>(_, _, low, high). high - low)") auto

declare search_loop.simps [simp del]

definition search_key :: "bytes \<Rightarrow> bytes \<Rightarrow> nat + nat" where
  "search_key page key =
     (let count = unat (paged_page_cell_count page) in
      if count = 0 then Inl 0 else search_loop (read_cell page) key 0 count)"

subsection \<open>Header and checksum\<close>

lemma page_type_round_trip [simp]: "page_type_from_u8 (page_type_byte ty) = Some ty"
  by (cases ty) (simp_all add: page_type_from_u8_def)

lemma window_skip: "length xs \<le> off \<Longrightarrow> window off n (xs @ ys) = window (off - length xs) n ys"
  by (simp add: window_def)

lemma window_Cons: "0 < off \<Longrightarrow> window off n (x # xs) = window (off - 1) n xs"
  by (cases off) (simp_all add: window_def)

lemma window_front [simp]: "n = length xs \<Longrightarrow> window 0 n (xs @ ys) = xs"
  by (simp add: window_def)

lemma window_all [simp]: "n = length xs \<Longrightarrow> window 0 n xs = xs"
  by (simp add: window_def)

lemma length_page_header [simp, byte_simps]:
  "length (encode_paged_page_header h) = 32"
  "length (page_header_to_bytes k) = 32"
  by (simp_all add: encode_paged_page_header_def page_header_to_bytes_def)

lemma decode_encode_header [simp]: "decode_paged_page_header (encode_paged_page_header h) = h"
  by (simp add: decode_paged_page_header_def encode_paged_page_header_def window_skip window_Cons)

lemma header_bytes_round_trip [simp]: "page_header_from_bytes (page_header_to_bytes h) = Inr h"
  by (simp add: page_header_from_bytes_def page_header_to_bytes_def)

lemma take_window: "take n xs = window 0 n xs"
  by (simp add: window_def)

lemma get_set_header [simp]: "length page = paged_page_size \<Longrightarrow> page_get_header (page_set_header h page) = Inr h"
  by (simp add: page_get_header_def page_set_header_def take_window page_sizes)

lemma page_get_header_cong: "window 0 32 page = window 0 32 page' \<Longrightarrow> page_get_header page = page_get_header page'"
  by (simp add: page_get_header_def take_window page_sizes)

lemma cell_count_header:
  assumes "length page = paged_page_size" and "page_get_header page = Inr h"
  shows "paged_page_cell_count page = cell_count h"
  using assms by (auto simp: page_get_header_def page_header_from_bytes_def decode_paged_page_header_def
      paged_page_cell_count_def page_sizes and_then_Inr window_def drop_take)

lemma clear_set_checksum:
  assumes "length page = paged_page_size"
  shows "clear_paged_page_checksum (set_paged_page_checksum c page) = clear_paged_page_checksum page"
  using assms by (simp add: clear_paged_page_checksum_def set_paged_page_checksum_def page_sizes overwrite_overwrite_same)

lemma clear_idem: "length page = paged_page_size \<Longrightarrow>
    clear_paged_page_checksum (clear_paged_page_checksum page) = clear_paged_page_checksum page"
  by (simp add: clear_paged_page_checksum_def page_sizes overwrite_overwrite_same)

lemma checksum_set [simp]: "length page = paged_page_size \<Longrightarrow> paged_page_checksum (set_paged_page_checksum c page) = c"
  by (simp add: paged_page_checksum_def set_paged_page_checksum_def page_sizes)

lemma length_checksum [simp, byte_simps]:
  assumes "length page = paged_page_size"
  shows "length (clear_paged_page_checksum page) = paged_page_size"
    "length (set_paged_page_checksum c page) = paged_page_size" "length (update_checksum crc page) = paged_page_size"
  using assms by (simp_all add: clear_paged_page_checksum_def set_paged_page_checksum_def update_checksum_def Let_def page_sizes)

lemma update_checksum_idem:
  "length page = paged_page_size \<Longrightarrow> update_checksum crc (update_checksum crc page) = update_checksum crc page"
  by (simp add: update_checksum_def Let_def clear_set_checksum clear_idem)

subsection \<open>The cells of a page\<close>

definition cell_bytes :: "bytes \<times> bytes \<Rightarrow> bytes" where
  "cell_bytes c = u16_le (word_of_nat (length (fst c))) @ u32_le (word_of_nat (length (snd c))) @ fst c @ snd c"

definition cell_size :: "bytes \<times> bytes \<Rightarrow> nat" where
  "cell_size c = 6 + length (fst c) + length (snd c)"

definition cells_size :: "(bytes \<times> bytes) list \<Rightarrow> nat" where
  "cells_size cs = sum_list (map cell_size cs)"

definition page_cells :: "bytes \<Rightarrow> (bytes \<times> bytes) list \<Rightarrow> bool" where
  "page_cells page cs \<longleftrightarrow>
     length page = paged_page_size \<and> 32 + 2 * length cs + cells_size cs \<le> paged_page_size \<and>
     (case page_get_header page of
        Inl _ \<Rightarrow> False
      | Inr h \<Rightarrow> unat (cell_count h) = length cs \<and> unat (free_start h) = 32 + 2 * length cs \<and>
          unat (free_end h) = paged_page_size - cells_size cs) \<and>
     (\<forall>i < length cs. let off = paged_page_size - cells_size (take (Suc i) cs) in
        window (32 + 2 * i) 2 page = u16_le (word_of_nat off) \<and> window off (cell_size (cs ! i)) page = cell_bytes (cs ! i))"

lemma length_cell_bytes [simp, byte_simps]: "length (cell_bytes c) = cell_size c"
  by (simp add: cell_bytes_def cell_size_def)

lemma cells_size_simps [simp]:
  "cells_size [] = 0" "cells_size (c # cs) = cell_size c + cells_size cs"
  "cells_size (cs @ ds) = cells_size cs + cells_size ds"
  by (simp_all add: cells_size_def)

lemma cells_size_take: "i < length cs \<Longrightarrow> cells_size (take (Suc i) cs) = cells_size (take i cs) + cell_size (cs ! i)"
  by (simp add: take_Suc_conv_app_nth)

lemma cells_size_take_le: "cells_size (take i cs) \<le> cells_size cs"
  by (metis append_take_drop_id cells_size_simps(3) le_add1)

lemma page_cells_new: "page_cells (page_new ty pid) []"
  by (simp add: page_cells_def page_new_def page_header_new_def page_sizes page_set_header_def page_get_header_def take_window)

lemma overwrite_merge:
  "off + length a + length b \<le> length xs \<Longrightarrow> overwrite (off + length a) b (overwrite off a xs) = overwrite off (a @ b) xs"
  by (intro nth_equalityI) (auto simp: nth_overwrite nth_append)

lemma write_paged_cell_ok:
  assumes "length page = paged_page_size" and "unat off + cell_size (key, value) \<le> paged_page_size"
  shows "write_paged_cell off key value page = (True, overwrite (unat off) (cell_bytes (key, value)) page)"
proof -
  have len: "paged_cell_len (length key) (length value) = Some (cell_size (key, value))" "length key \<le> 65535" "length value \<le> u32_max"
    using assms(2) by (auto simp: paged_cell_len_def checked_add64_def cell_size_def page_sizes u64_max_def u32_max_def)
  let ?a = "u16_le (word_of_nat (length key))" and ?b = "u32_le (word_of_nat (length value))"
  have fit: "unat off + 6 + length key + length value \<le> length page"
    using assms by (simp add: cell_size_def page_sizes)
  have "overwrite (unat off + 2) ?b (overwrite (unat off) ?a page) = overwrite (unat off) (?a @ ?b) page"
    using overwrite_merge [of "unat off" ?a ?b page] fit by simp
  moreover have "overwrite (unat off + 6) key (overwrite (unat off) (?a @ ?b) page) = overwrite (unat off) (?a @ ?b @ key) page"
    using overwrite_merge [of "unat off" "?a @ ?b" key page] fit by simp
  moreover have "overwrite (unat off + 6 + length key) value (overwrite (unat off) (?a @ ?b @ key) page) =
      overwrite (unat off) (cell_bytes (key, value)) page"
    using overwrite_merge [of "unat off" "?a @ ?b @ key" "value" page] fit by (simp add: cell_bytes_def add.assoc)
  ultimately show ?thesis
    using len assms by (simp add: write_paged_cell_def Let_def page_sizes)
qed

lemma page_cellsD:
  assumes "page_cells page cs"
  obtains h where "length page = 16384" and "32 + 2 * length cs + cells_size cs \<le> 16384" and
    "page_get_header page = Inr h" and "unat (cell_count h) = length cs" and "unat (free_start h) = 32 + 2 * length cs" and
    "unat (free_end h) = 16384 - cells_size cs" and
    "\<And>i. i < length cs \<Longrightarrow> window (32 + 2 * i) 2 page = u16_le (word_of_nat (16384 - cells_size (take (Suc i) cs)))" and
    "\<And>i. i < length cs \<Longrightarrow> window (16384 - cells_size (take (Suc i) cs)) (cell_size (cs ! i)) page = cell_bytes (cs ! i)"
  using assms by (auto simp: page_cells_def page_sizes Let_def split: sum.splits)

lemma free_space_page_cells:
  assumes "unat (free_start h) = a" and "unat (free_end h) = b" and "a \<le> b"
  shows "free_space h = b - a"
  using assms by (auto simp: free_space_def word_le_nat_alt unat_sub)

lemma page_cells_insert:
  assumes cells: "page_cells page cs" and fits: "34 + 2 * length cs + cells_size cs + cell_size c \<le> 16384"
    and h: "unat (cell_count h) = length cs + 1" "unat (free_start h) = 34 + 2 * length cs"
      "unat (free_end h) = 16384 - cells_size cs - cell_size c"
  shows "page_cells (page_set_header h (overwrite (32 + 2 * length cs) (u16_le (word_of_nat (16384 - cells_size cs - cell_size c)))
      (overwrite (16384 - cells_size cs - cell_size c) (cell_bytes c) page))) (cs @ [c])"
    (is "page_cells (page_set_header h (overwrite ?po ?pb (overwrite ?o _ page))) _")
proof -
  obtain h0 where len: "length page = 16384" and
    ptr: "\<And>i. i < length cs \<Longrightarrow> window (32 + 2 * i) 2 page = u16_le (word_of_nat (16384 - cells_size (take (Suc i) cs)))" and
    cell: "\<And>i. i < length cs \<Longrightarrow> window (16384 - cells_size (take (Suc i) cs)) (cell_size (cs ! i)) page = cell_bytes (cs ! i)"
    by (rule page_cellsD [OF cells]) (rule that)
  let ?page = "page_set_header h (overwrite ?po ?pb (overwrite ?o (cell_bytes c) page))"
  have len': "length ?page = 16384" using len fits by (simp add: page_set_header_def)
  have old: "window (32 + 2 * i) 2 ?page = u16_le (word_of_nat (16384 - cells_size (take (Suc i) cs))) \<and>
      window (16384 - cells_size (take (Suc i) cs)) (cell_size (cs ! i)) ?page = cell_bytes (cs ! i)" if i: "i < length cs" for i
  proof -
    define o_i where "o_i = 16384 - cells_size (take (Suc i) cs)"
    have "cells_size (take (Suc i) cs) \<le> cells_size cs" by (rule cells_size_take_le)
    moreover have "cell_size (cs ! i) \<le> cells_size (take (Suc i) cs)" using cells_size_take [OF i] by simp
    ultimately have "34 + 2 * i \<le> ?o" "34 + 2 * i \<le> ?po" "?o + cell_size c \<le> o_i" "?po + 2 \<le> o_i"
        "o_i + cell_size (cs ! i) \<le> 16384" "?o + cell_size c \<le> 16384" "?po + 2 \<le> 16384"
      using fits i unfolding o_i_def by linarith+
    then show ?thesis using ptr [OF i] cell [OF i] len unfolding o_i_def [symmetric] by (simp add: page_set_header_def)
  qed
  have new: "window (32 + 2 * length cs) 2 ?page = ?pb" "window ?o (cell_size c) ?page = cell_bytes c"
  proof -
    have "?po + 2 \<le> ?o" "?o + cell_size c \<le> 16384" "32 \<le> ?o" "?po + 2 \<le> 16384" using fits by linarith+
    then show "window (32 + 2 * length cs) 2 ?page = ?pb" "window ?o (cell_size c) ?page = cell_bytes c"
      using len by (simp_all add: page_set_header_def)
  qed
  show ?thesis
    using len' old new fits h by (auto simp: page_cells_def page_sizes Let_def nth_append less_Suc_eq len page_set_header_def [symmetric])
qed

lemma cell_len_ok:
  "6 + length key + length value \<le> 16350 \<Longrightarrow> paged_cell_len (length key) (length value) = Some (cell_size (key, value))"
  by (auto simp: paged_cell_len_def checked_add64_def cell_size_def page_sizes u64_max_def)

lemma insert_cell_fits:
  assumes cells: "page_cells page cs" and small: "length key \<le> 65535" "6 + length key + length value \<le> 16350"
    and fits: "34 + 2 * length cs + cells_size cs + cell_size (key, value) \<le> 16384"
  shows "\<exists>page'. insert_cell key value page = (Inr (length cs), page') \<and> page_cells page' (cs @ [(key, value)])"
proof -
  obtain h where len: "length page = 16384" and
    hd: "page_get_header page = Inr h" and hc: "unat (cell_count h) = length cs" and
    hs: "unat (free_start h) = 32 + 2 * length cs" and he: "unat (free_end h) = 16384 - cells_size cs"
    by (rule page_cellsD [OF cells]) (rule that)
  let ?sz = "cell_size (key, value)" and ?o = "16384 - cells_size cs - cell_size (key, value)"
  define off :: u16 where "off = word_of_nat ?o"
  have off: "unat off = ?o" unfolding off_def by (rule unat_u16_nat) simp
  have bounds: "32 \<le> ?o" "?o < 16384" "?o + ?sz \<le> 16384" using fits by (simp_all add: cell_size_def)
  have off_eq: "word_of_nat (16384 - (cells_size cs + ?sz)) = off" by (simp add: off_def)
  have sz: "?sz \<le> 16350" using small by (simp add: cell_size_def)
  have enough: "\<not> free_space h < 2 + ?sz"
    using free_space_page_cells [OF hs he] fits by linarith
  have "write_paged_cell off key value page = (True, overwrite ?o (cell_bytes (key, value)) page)"
    using write_paged_cell_ok [of page off key "value"] off len bounds by (simp add: page_sizes)
  moreover have "set_paged_cell_pointer (length cs) off p = (True, overwrite (32 + 2 * length cs) (u16_le off) p)" for p
    using off bounds fits by (simp add: set_paged_cell_pointer_def paged_cell_pointer_offset_def
        paged_cell_pointer_is_valid_def page_sizes checked_add64_def u64_max_def mult.commute)
  moreover define h' where "h' = set_dirty (h\<lparr>cell_count := cell_count h + 1, free_start := free_start h + 2, free_end := off\<rparr>)"
  ultimately have ins: "insert_cell key value page = (Inr (length cs), page_set_header h'
      (overwrite (32 + 2 * length cs) (u16_le off) (overwrite ?o (cell_bytes (key, value)) page)))"
    using small cell_len_ok [OF small(2)] hd hc he enough sz off_eq
    by (simp add: insert_cell_def page_sizes Let_def)
  have "unat (cell_count h') = length cs + 1" "unat (free_start h') = 34 + 2 * length cs" "unat (free_end h') = ?o"
    using hc hs off fits by (simp_all add: h'_def set_dirty_def unat_word_ariths)
  from page_cells_insert [OF cells fits this] ins show ?thesis
    unfolding off_def by auto
qed

lemma insert_cell_refused:
  assumes "page_cells page cs"
  shows "length key > 65535 \<or> 6 + length key + length value > 16350 \<Longrightarrow> insert_cell key value page = (Inl OverflowRequired, page)"
    and "length key \<le> 65535 \<Longrightarrow> 6 + length key + length value \<le> 16350 \<Longrightarrow>
      34 + 2 * length cs + cells_size cs + cell_size (key, value) > 16384 \<Longrightarrow> insert_cell key value page = (Inl PageFull, page)"
proof -
  obtain h where total: "32 + 2 * length cs + cells_size cs \<le> 16384" and hd: "page_get_header page = Inr h" and
    hs: "unat (free_start h) = 32 + 2 * length cs" and he: "unat (free_end h) = 16384 - cells_size cs"
    by (rule page_cellsD [OF assms]) (rule that)
  show "length key > 65535 \<or> 6 + length key + length value > 16350 \<Longrightarrow> insert_cell key value page = (Inl OverflowRequired, page)"
    by (auto simp: insert_cell_def paged_cell_len_def checked_add64_def page_sizes split: option.splits bind_splits)
  assume small: "length key \<le> 65535" "6 + length key + length value \<le> 16350"
    and full: "34 + 2 * length cs + cells_size cs + cell_size (key, value) > 16384"
  have "free_space h < 2 + cell_size (key, value)"
    using free_space_page_cells [OF hs he] full total by linarith
  with small cell_len_ok [OF small(2)] hd show "insert_cell key value page = (Inl PageFull, page)"
    by (auto simp: insert_cell_def page_sizes cell_size_def)
qed

lemma cell_key_value:
  assumes "cell_size c \<le> 16384"
  shows "paged_cell_key_value (cell_bytes c) = Some c"
proof -
  have "u16_of_le (window 0 2 (cell_bytes c)) = word_of_nat (length (fst c))"
    "u32_of_le (window 2 4 (cell_bytes c)) = word_of_nat (length (snd c))"
    "window 6 (length (fst c)) (cell_bytes c) = fst c" "window (6 + length (fst c)) (length (snd c)) (cell_bytes c) = snd c"
    by (simp_all add: cell_bytes_def window_skip)
  with assms show ?thesis
    by (simp add: paged_cell_key_value_def Let_def paged_cell_len_def checked_add64_def u64_max_def page_sizes cell_size_def
        u32_max_def)
qed

lemma read_cell_page_cells:
  assumes cells: "page_cells page cs"
  shows "i < length cs \<Longrightarrow> read_cell page i = Inr (cs ! i)"
    and "\<not> i < length cs \<Longrightarrow> read_cell page i = Inl (CellOutOfBounds i)"
    and "unat (paged_page_cell_count page) = length cs"
proof -
  obtain h where len: "length page = 16384" and total: "32 + 2 * length cs + cells_size cs \<le> 16384" and
    hd: "page_get_header page = Inr h" and hc: "unat (cell_count h) = length cs" and
    ptr: "\<And>i. i < length cs \<Longrightarrow> window (32 + 2 * i) 2 page = u16_le (word_of_nat (16384 - cells_size (take (Suc i) cs)))" and
    cell: "\<And>i. i < length cs \<Longrightarrow> window (16384 - cells_size (take (Suc i) cs)) (cell_size (cs ! i)) page = cell_bytes (cs ! i)"
    by (rule page_cellsD [OF cells]) (rule that)
  show count: "unat (paged_page_cell_count page) = length cs"
    using cell_count_header [OF _ hd] len hc by (simp add: page_sizes)
  show "\<not> i < length cs \<Longrightarrow> read_cell page i = Inl (CellOutOfBounds i)"
    using count by (simp add: read_cell_def get_cell_def get_cell_pointer_def)
  assume i: "i < length cs"
  define o_i where "o_i = 16384 - cells_size (take (Suc i) cs)"
  have "cells_size (take (Suc i) cs) \<le> cells_size cs" by (rule cells_size_take_le)
  moreover have sz: "cell_size (cs ! i) \<le> cells_size (take (Suc i) cs)" using cells_size_take [OF i] by simp
  ultimately have o_i: "o_i + cell_size (cs ! i) \<le> 16384" "o_i < 65536" "cell_size (cs ! i) \<le> 16384"
    using total unfolding o_i_def by linarith+
  have w: "window o_i (cell_size (cs ! i)) page = cell_bytes (cs ! i)" using cell [OF i] by (simp add: o_i_def)
  have "6 \<le> cell_size (cs ! i)" by (simp add: cell_size_def)
  then have "window o_i 2 page = window 0 2 (cell_bytes (cs ! i))" "window (o_i + 2) 4 page = window 2 4 (cell_bytes (cs ! i))"
    using window_window [of 0 2 "cell_size (cs ! i)" o_i page] window_window [of 2 4 "cell_size (cs ! i)" o_i page] w by simp_all
  then have "u16_of_le (window o_i 2 page) = word_of_nat (length (fst (cs ! i)))"
    "u32_of_le (window (o_i + 2) 4 page) = word_of_nat (length (snd (cs ! i)))"
    by (simp_all add: cell_bytes_def window_skip)
  then have "paged_cell_bytes page (word_of_nat o_i) = Some (cell_bytes (cs ! i))"
    using o_i w by (simp add: paged_cell_bytes_def paged_cell_total_len_def Let_def paged_cell_len_def checked_add64_def
        u64_max_def page_sizes cell_size_def u32_max_def)
  moreover have "paged_cell_pointer page i = Some (word_of_nat o_i)"
    using ptr [OF i] i total by (simp add: paged_cell_pointer_def paged_cell_pointer_offset_def page_sizes checked_add64_def
        u64_max_def mult.commute o_i_def)
  ultimately show "read_cell page i = Inr (cs ! i)"
    using i count cell_key_value [OF o_i(3)] by (simp add: read_cell_def get_cell_def get_cell_pointer_def)
qed

lemma window_take: "off + n \<le> m \<Longrightarrow> window off n (take m xs) = window off n xs"
  by (simp add: window_def drop_take min_def)

lemma header_checksum:
  assumes "length page = paged_page_size" and "page_get_header page = Inr h"
  shows "page_get_header (overwrite 28 (u32_le c) page) = Inr (h\<lparr>page_checksum := c\<rparr>)"
proof -
  have "overwrite 28 (u32_le c) page ! 0 = page ! 0" "overwrite 28 (u32_le c) page ! 1 = page ! 1"
    using assms(1) by (simp_all add: nth_overwrite page_sizes)
  with assms show ?thesis
    by (auto simp: page_get_header_def page_header_from_bytes_def decode_paged_page_header_def Let_def window_take
        page_sizes and_then_Inr)
qed

lemma page_cells_overwrite_checksum:
  assumes cells: "page_cells page cs"
  shows "page_cells (overwrite 28 (u32_le c) page) cs"
proof -
  obtain h where len: "length page = 16384" and total: "32 + 2 * length cs + cells_size cs \<le> 16384" and
    hd: "page_get_header page = Inr h" "unat (cell_count h) = length cs" "unat (free_start h) = 32 + 2 * length cs"
      "unat (free_end h) = 16384 - cells_size cs" and
    ptr: "\<And>i. i < length cs \<Longrightarrow> window (32 + 2 * i) 2 page = u16_le (word_of_nat (16384 - cells_size (take (Suc i) cs)))" and
    cell: "\<And>i. i < length cs \<Longrightarrow> window (16384 - cells_size (take (Suc i) cs)) (cell_size (cs ! i)) page = cell_bytes (cs ! i)"
    by (rule page_cellsD [OF cells]) (rule that)
  have "window off n (overwrite 28 (u32_le c) page) = window off n page" if "32 \<le> off" "off + n \<le> 16384" for off n
    using that len by simp
  moreover have "32 \<le> 16384 - cells_size (take (Suc i) cs) \<and>
      16384 - cells_size (take (Suc i) cs) + cell_size (cs ! i) \<le> 16384" if "i < length cs" for i
    using cells_size_take [OF that] cells_size_take_le [of "Suc i" cs] total by linarith
  ultimately show ?thesis
    using len total hd ptr cell header_checksum [OF _ hd(1), of c] by (simp add: page_cells_def page_sizes Let_def)
qed

lemma page_cells_update_checksum: "page_cells page cs \<Longrightarrow> page_cells (update_checksum crc page) cs"
  by (simp add: update_checksum_def Let_def set_paged_page_checksum_def clear_paged_page_checksum_def page_cells_overwrite_checksum)

subsection \<open>Searching a page\<close>

definition search_result :: "bytes list \<Rightarrow> bytes \<Rightarrow> nat + nat \<Rightarrow> bool" where
  "search_result keys key r \<longleftrightarrow>
     (case r of
        Inr i \<Rightarrow> i < length keys \<and> keys ! i = key
      | Inl i \<Rightarrow> i \<le> length keys \<and> (\<forall>j < length keys. if j < i then keys ! j < key else key < keys ! j))"

text \<open>What a search relies on: cells can be counted, and read by index.\<close>

locale cell_store =
  fixes holds :: "'p \<Rightarrow> (bytes \<times> 'v) list \<Rightarrow> bool"
    and rd :: "'p \<Rightarrow> nat \<Rightarrow> 'e + (bytes \<times> 'v)"
    and count :: "'p \<Rightarrow> nat"
  assumes rd_cell: "holds p cs \<Longrightarrow> i < length cs \<Longrightarrow> rd p i = Inr (cs ! i)"
    and count_cells: "holds p cs \<Longrightarrow> count p = length cs"
begin

lemma search_loop_spec:
  assumes "holds p cs" and "sorted (map fst cs)" and "low \<le> high" and "high \<le> length cs"
    and "\<forall>j < low. fst (cs ! j) < key" and "\<forall>j < length cs. high \<le> j \<longrightarrow> key < fst (cs ! j)"
  shows "search_result (map fst cs) key (search_loop (rd p) key low high)"
  using assms
proof (induction "rd p" key low high rule: search_loop.induct)
  case (1 key low high)
  note IH = 1(1,2) and prems = 1(3-)
  show ?case
  proof (cases "low < high")
    case False
    with 1(3-) show ?thesis by (subst search_loop.simps) (auto simp: search_result_def)
  next
    case True
    let ?mid = "(low + high) div 2"
    have mid: "low \<le> ?mid" "?mid < high" "?mid < length cs" using True 1(6) by auto
    have rd: "rd p ?mid = Inr (fst (cs ! ?mid), snd (cs ! ?mid))" using rd_cell [OF 1(3) mid(3)] by simp
    have le: "fst (cs ! j) \<le> fst (cs ! j')" if "j \<le> j'" "j' < length cs" for j j'
      using sorted_nth_mono [OF 1(4), of j j'] that by simp
    consider "fst (cs ! ?mid) < key" | "key < fst (cs ! ?mid)" | "fst (cs ! ?mid) = key" by fastforce
    then show ?thesis
    proof cases
      case less: 1
      have "fst (cs ! j) < key" if "j < ?mid + 1" for j
        using le [of j ?mid] that mid(3) less by fastforce
      then have "search_result (map fst cs) key (search_loop (rd p) key (?mid + 1) high)"
        using IH(1) [OF True refl rd refl less] prems mid by auto
      then show ?thesis using True rd less by (subst search_loop.simps) (simp add: Let_def case_prod_unfold)
    next
      case greater: 2
      have "key < fst (cs ! j)" if "j < length cs" "?mid \<le> j" for j
        using le [OF that(2,1)] greater by fastforce
      moreover have "\<not> fst (cs ! ?mid) < key" using greater by simp
      ultimately have "search_result (map fst cs) key (search_loop (rd p) key low ?mid)"
        using IH(2) [OF True refl rd refl _ greater] prems mid by auto
      then show ?thesis using True rd greater \<open>\<not> fst (cs ! ?mid) < key\<close>
        by (subst search_loop.simps) (simp add: Let_def case_prod_unfold)
    next
      case 3
      with True rd mid show ?thesis by (subst search_loop.simps) (simp add: search_result_def Let_def case_prod_unfold)
    qed
  qed
qed

lemma search_spec:
  "holds p cs \<Longrightarrow> sorted (map fst cs) \<Longrightarrow> search_result (map fst cs) key (search_loop (rd p) key 0 (count p))"
  by (rule search_loop_spec) (auto simp: count_cells)

end

interpretation slotted: cell_store page_cells read_cell "\<lambda>page. unat (paged_page_cell_count page)"
  by unfold_locales (simp_all add: read_cell_page_cells)

subsection \<open>Properties\<close>

text \<open>
  inserting a cell refines appending to the list of cells. On a page holding \<open>cs\<close>, \<open>insert_cell\<close>
  refuses a cell that could never fit with \<open>OverflowRequired\<close>, one that does not fit now with \<open>PageFull\<close>
  (the page untouched in both cases), and otherwise returns the index \<open>length cs\<close> and a page holding \<open>cs\<close>
  and the new cell; every page starts out holding no cells.
\<close>

theorem page_insert_refines:
  assumes "page_cells page cs"
  shows "page_cells (page_new ty pid) [] \<and>
    (if length key > 65535 \<or> 6 + length key + length value > 16350 then insert_cell key value page = (Inl OverflowRequired, page)
     else if 34 + 2 * length cs + cells_size cs + cell_size (key, value) > 16384
     then insert_cell key value page = (Inl PageFull, page)
     else fst (insert_cell key value page) = Inr (length cs) \<and>
       page_cells (snd (insert_cell key value page)) (cs @ [(key, value)]))"
  using page_cells_new insert_cell_refused [OF assms] insert_cell_fits [OF assms, of key "value"] by force

theorem page_insert_refines_witness:
  "page_cells (snd (insert_cell [107] [118, 119] (page_new BTreeLeaf 3))) [([107], [118, 119])]"
  using page_insert_refines [OF page_cells_new, of BTreeLeaf 3 "[107]" "[118, 119]" BTreeLeaf 3]
  by (simp add: cell_size_def)

text \<open>
  a page returns the cells it holds: reading by index yields exactly the cells, an index past the end
  is \<open>CellOutOfBounds\<close>, and stamping the checksum changes no cell, is stable, and makes the page verify.
\<close>

theorem page_reads_and_checksum:
  assumes "page_cells page cs"
  shows "read_cell page i = (if i < length cs then Inr (cs ! i) else Inl (CellOutOfBounds i)) \<and>
    page_cells (update_checksum crc page) cs \<and> verify_checksum crc (update_checksum crc page) = Inr () \<and>
    update_checksum crc (update_checksum crc page) = update_checksum crc page"
proof -
  have len: "length page = paged_page_size" using assms by (simp add: page_cells_def)
  then have "verify_checksum crc (update_checksum crc page) = Inr ()"
    by (simp add: verify_checksum_def update_checksum_def Let_def clear_set_checksum clear_idem)
  then show ?thesis
    using read_cell_page_cells(1,2) [OF assms] page_cells_update_checksum [OF assms] update_checksum_idem [OF len] by simp
qed

theorem page_reads_and_checksum_witness:
  "verify_checksum (\<lambda>bs. u32_of_le (take 4 bs)) (update_checksum (\<lambda>bs. u32_of_le (take 4 bs)) (page_new BTreeLeaf 3)) = Inr ()"
  using page_reads_and_checksum [OF page_cells_new, of BTreeLeaf 3 0] by simp

text \<open>
  binary search over a page whose keys are in order is exact: a hit is an index of the key, a miss is
  the one position that keeps the keys in order.
\<close>

theorem page_search_correct:
  assumes "page_cells page cs" and "sorted (map fst cs)"
  shows "search_result (map fst cs) key (search_key page key)"
proof (cases "cs = []")
  case True
  then show ?thesis
    using read_cell_page_cells(3) [OF assms(1)] by (simp add: search_key_def search_result_def)
next
  case False
  then show ?thesis
    using slotted.search_spec [OF assms] read_cell_page_cells(3) [OF assms(1)] by (simp add: search_key_def)
qed

theorem page_search_correct_witness:
  "search_result [[107]] [104] (search_key (snd (insert_cell [107] [118] (page_new BTreeLeaf 3))) [104])"
proof -
  have "page_cells (snd (insert_cell [107] [118] (page_new BTreeLeaf 3))) [([107], [118])]"
    using insert_cell_fits [OF page_cells_new, of "[107]" "[118]" BTreeLeaf 3] by (auto simp: cell_size_def)
  from page_search_correct [OF this, of "[104]"] show ?thesis by simp
qed

end
