(* ===== verification/Wal_Recovery.thy ===== *)
theory Wal_Recovery
  imports Wal_Log Slotted_Page
begin

section \<open>Checkpoint and crash recovery\<close>

text \<open>
  \<open>src/crates/reddb-server/src/storage/wal/checkpoint.rs\<close>: the checkpointer reads the whole log, keeps the page
  writes of committed transactions, installs the last one of each page into the pager and, when the mode
  asks for it, restarts the log with a checkpoint marker. The pager is seen through the operations the
  checkpointer calls (\<open>write_page\<close>, \<open>set_checkpoint_in_progress\<close>, \<open>complete_checkpoint\<close> of
  \<open>src/crates/reddb-engine/src/storage/pager.rs\<close>): the pages it answers reads with, and the checkpoint fields of its
  header; it is open for writing, as the database opens it for recovery, and its I/O does not fail. The
  map of latest writes is a \<open>HashMap\<close>, so the order it is traversed in is the parameter \<open>order\<close>. Encoding
  a record may panic: the outer \<open>option\<close>.

  A checkpoint is the list of the calls it makes, in the order of the code, and a state that says for each of
  them what is on disk: page writes stay in the cache until the pager is synced or a page is evicted, the header
  fields and the log are written as the code writes and syncs them. A crash can come between any two calls.
  Pages reach the disk whole; the double-write buffer, which heals torn pages, is not modelled here.
\<close>

datatype checkpoint_mode = Passive | Full | Restart | Truncate

datatype checkpoint_error = CkIo io_error | CkPager string | CorruptedWal u32 nat | NoWal

datatype tx_state = TxActive | TxCommitted | TxAborted

record checkpoint_result =
  transactions_processed :: nat
  max_transaction_id :: u64
  pages_checkpointed :: nat
  records_processed :: nat
  result_lsn :: nat
  wal_truncated :: bool

definition checkpoint_result_default :: checkpoint_result where
  "checkpoint_result_default =
     \<lparr>transactions_processed = 0, max_transaction_id = 0, pages_checkpointed = 0, records_processed = 0,
      result_lsn = 0, wal_truncated = False\<rparr>"

record pending_write =
  pw_tx_id :: u64
  pw_page_id :: u32
  pw_data :: bytes
  pw_lsn :: nat

record checkpoint_scan =
  tx_states :: "(u64, tx_state) hmap"
  pending_writes :: "pending_write list"
  scanned :: nat
  last_lsn :: nat
  max_tx :: u64

record pager =
  pages :: "u32 \<Rightarrow> bytes option"
  checkpoint_in_progress :: bool
  checkpoint_target_lsn :: nat
  checkpoint_lsn :: nat

definition write_page :: "(bytes \<Rightarrow> u32) \<Rightarrow> u32 \<Rightarrow> bytes \<Rightarrow> pager \<Rightarrow> pager" where
  "write_page crc pid page p = p\<lparr>pages := (pages p)(pid \<mapsto> update_checksum crc page)\<rparr>"

definition set_checkpoint_in_progress :: "bool \<Rightarrow> nat \<Rightarrow> pager \<Rightarrow> pager" where
  "set_checkpoint_in_progress in_progress target p =
     p\<lparr>checkpoint_in_progress := in_progress, checkpoint_target_lsn := target\<rparr>"

definition complete_checkpoint :: "nat \<Rightarrow> pager \<Rightarrow> pager" where
  "complete_checkpoint l p =
     p\<lparr>checkpoint_lsn := l, checkpoint_in_progress := False, checkpoint_target_lsn := 0\<rparr>"

subsection \<open>The checkpointer\<close>

definition scan_init :: checkpoint_scan where
  "scan_init = \<lparr>tx_states = [], pending_writes = [], scanned = 0, last_lsn = 0, max_tx = 0\<rparr>"

definition observe_tx_id :: "u64 \<Rightarrow> checkpoint_scan \<Rightarrow> checkpoint_scan" where
  "observe_tx_id tx s = s\<lparr>max_tx := max (max_tx s) tx\<rparr>"

definition set_tx_state :: "u64 \<Rightarrow> tx_state \<Rightarrow> checkpoint_scan \<Rightarrow> checkpoint_scan" where
  "set_tx_state tx st s = s\<lparr>tx_states := hput tx st (tx_states s)\<rparr>"

definition scan_record :: "checkpoint_scan \<Rightarrow> nat \<times> main_wal_record_frame \<Rightarrow> checkpoint_error + checkpoint_scan" where
  "scan_record s0 item =
     (let s = s0\<lparr>scanned := scanned s0 + 1, last_lsn := fst item\<rparr> in
      case snd item of
        FPageOwnership _ \<Rightarrow> Inl (CkIo (OtherError ''page ownership journal requires recovery before checkpoint''))
      | FBegin tx \<Rightarrow> Inr (set_tx_state tx TxActive (observe_tx_id tx s))
      | FCommit tx \<Rightarrow> Inr (set_tx_state tx TxCommitted (observe_tx_id tx s))
      | FRollback tx \<Rightarrow> Inr (set_tx_state tx TxAborted (observe_tx_id tx s))
      | FPageWrite tx pid data \<Rightarrow>
          Inr ((observe_tx_id tx s)\<lparr>pending_writes := pending_writes s @
            [\<lparr>pw_tx_id = tx, pw_page_id = pid, pw_data = data, pw_lsn = fst item\<rparr>]\<rparr>)
      | FCheckpoint _ \<Rightarrow> Inr s
      | FTxCommitBatch tx _ \<Rightarrow> Inr (observe_tx_id tx s)
      | FVectorInsert _ _ _ \<Rightarrow> Inr s
      | FProbabilisticDelta _ _ _ _ \<Rightarrow> Inr s
      | FFullPageImage tx _ _ _ \<Rightarrow> Inr (observe_tx_id tx s))"

definition scan_wal ::
  "(nat \<times> main_wal_record_frame) list \<Rightarrow> io_error option \<Rightarrow> checkpoint_error + checkpoint_scan" where
  "scan_wal items failure =
     and_then (try_fold scan_record scan_init items) (\<lambda>s.
       case failure of Some e \<Rightarrow> Inl (CkIo e) | None \<Rightarrow> Inr s)"

definition committed_txs :: "checkpoint_scan \<Rightarrow> u64 list" where
  "committed_txs s = map fst (filter (\<lambda>(_, st). st = TxCommitted) (tx_states s))"

definition latest_writes :: "u64 list \<Rightarrow> pending_write list \<Rightarrow> (u32, bytes) hmap" where
  "latest_writes txs ws =
     foldl (\<lambda>m w. if pw_tx_id w \<in> set txs then hput (pw_page_id w) (pw_data w) m else m) [] ws"

text \<open>The calls of a checkpoint on the pager and on the log.\<close>

datatype checkpoint_action =
    SetInProgress bool nat | WritePage u32 bytes | SyncPager | CompleteCheckpoint nat
  | LogEmpty | LogWrite bytes | LogSync

fun plan_writes :: "(u32 \<times> bytes) list \<Rightarrow> nat \<Rightarrow> (checkpoint_error + nat) \<times> checkpoint_action list" where
  "plan_writes [] n = (Inr n, [])"
| "plan_writes ((pid, data) # ws) n =
     (if length data \<noteq> paged_page_size then (Inl (CorruptedWal pid (length data)), [])
      else let (applied, acts) = plan_writes ws (n + 1) in (applied, WritePage pid data # acts))"

text \<open>Truncating the log empties the file, writes its header and syncs; then the marker is appended and synced.\<close>

definition restart_actions :: "bytes \<Rightarrow> checkpoint_action list" where
  "restart_actions marker = [LogEmpty, LogWrite encode_wal_file_header, LogSync, LogWrite marker, LogSync]"

definition checkpoint_plan ::
  "checkpoint_mode \<Rightarrow> ((u32, bytes) hmap \<Rightarrow> (u32 \<times> bytes) list) \<Rightarrow> (bytes \<Rightarrow> u32) \<Rightarrow> (bytes \<Rightarrow> bytes option) \<Rightarrow>
   (bytes \<Rightarrow> nat \<Rightarrow> bytes option) \<Rightarrow> bytes \<Rightarrow> ((checkpoint_error + checkpoint_result) \<times> checkpoint_action list) option" where
  "checkpoint_plan mode order crc compress decompress file =
     (case and_then (map_err CkIo (wal_read crc decompress file)) (\<lambda>(items, failure). scan_wal items failure) of
        Inl e \<Rightarrow> Some (Inl e, [])
      | Inr s \<Rightarrow>
          let txs = committed_txs s;
              latest = latest_writes txs (pending_writes s);
              prepare = (if latest \<noteq> [] then [SetInProgress True (last_lsn s)] else []);
              (applied, writes) = plan_writes (order latest) 0 in
          case applied of
            Inl e \<Rightarrow> Some (Inl e, prepare @ writes)
          | Inr n \<Rightarrow>
              let finish = SyncPager # (if latest \<noteq> [] then [CompleteCheckpoint (last_lsn s)] else []);
                  truncated = (mode = Restart \<or> mode = Truncate);
                  r = \<lparr>transactions_processed = length txs, max_transaction_id = max_tx s,
                       pages_checkpointed = n, records_processed = scanned s, result_lsn = last_lsn s,
                       wal_truncated = truncated\<rparr> in
              if truncated
              then map_option (\<lambda>marker. (Inr r, prepare @ writes @ finish @ restart_actions marker))
                     (wal_encode crc compress (FCheckpoint (word_of_nat (last_lsn s))))
              else Some (Inr r, prepare @ writes @ finish))"

text \<open>
  The pager as the process sees it and what of it is on disk; the log file as the process sees it, the log at
  its last sync, and how many bytes from the start of the file are known to be on disk.
\<close>

record checkpoint_state =
  ck_pager :: pager
  ck_disk :: pager
  ck_log :: bytes
  ck_log_disk :: bytes
  ck_log_kept :: nat

definition checkpoint_start :: "pager \<Rightarrow> pager \<Rightarrow> bytes \<Rightarrow> checkpoint_state" where
  "checkpoint_start p d file = \<lparr>ck_pager = p, ck_disk = d, ck_log = file, ck_log_disk = file, ck_log_kept = length file\<rparr>"

fun checkpoint_call :: "(bytes \<Rightarrow> u32) \<Rightarrow> checkpoint_action \<Rightarrow> checkpoint_state \<Rightarrow> checkpoint_state" where
  "checkpoint_call crc (SetInProgress b l) st =
     st\<lparr>ck_pager := set_checkpoint_in_progress b l (ck_pager st), ck_disk := set_checkpoint_in_progress b l (ck_disk st)\<rparr>"
| "checkpoint_call crc (WritePage pid data) st = st\<lparr>ck_pager := write_page crc pid data (ck_pager st)\<rparr>"
| "checkpoint_call crc SyncPager st = st\<lparr>ck_disk := (ck_disk st)\<lparr>pages := pages (ck_pager st)\<rparr>\<rparr>"
| "checkpoint_call crc (CompleteCheckpoint l) st =
     st\<lparr>ck_pager := complete_checkpoint l (ck_pager st), ck_disk := complete_checkpoint l (ck_disk st)\<rparr>"
| "checkpoint_call crc LogEmpty st = st\<lparr>ck_log := [], ck_log_kept := 0\<rparr>"
| "checkpoint_call crc (LogWrite bs) st = st\<lparr>ck_log := ck_log st @ bs\<rparr>"
| "checkpoint_call crc LogSync st = st\<lparr>ck_log_disk := ck_log st, ck_log_kept := length (ck_log st)\<rparr>"

text \<open>
  What a crash can leave: each page as it is on disk or, if it was evicted, as the process sees it; the header
  fields on disk; the log of the last sync, or the bytes known to be on disk and some of those after them.
\<close>

definition crashed :: "checkpoint_state \<Rightarrow> pager \<Rightarrow> bytes \<Rightarrow> bool" where
  "crashed st p file \<longleftrightarrow>
     (\<forall>pid. pages p pid = pages (ck_disk st) pid \<or> pages p pid = pages (ck_pager st) pid) \<and>
     checkpoint_in_progress p = checkpoint_in_progress (ck_disk st) \<and> checkpoint_target_lsn p = checkpoint_target_lsn (ck_disk st) \<and>
     checkpoint_lsn p = checkpoint_lsn (ck_disk st) \<and>
     (file = ck_log_disk st \<or> (\<exists>n \<ge> ck_log_kept st. file = take n (ck_log st)))"

definition checkpoint ::
  "checkpoint_mode \<Rightarrow> ((u32, bytes) hmap \<Rightarrow> (u32 \<times> bytes) list) \<Rightarrow> (bytes \<Rightarrow> u32) \<Rightarrow> (bytes \<Rightarrow> bytes option) \<Rightarrow>
   (bytes \<Rightarrow> nat \<Rightarrow> bytes option) \<Rightarrow> pager \<Rightarrow> bytes option \<Rightarrow>
   ((checkpoint_error + checkpoint_result) \<times> pager \<times> bytes option) option" where
  "checkpoint mode order crc compress decompress p file =
     (case file of
        None \<Rightarrow> Some (Inr checkpoint_result_default, p, None)
      | Some bs \<Rightarrow>
          map_option (\<lambda>(r, acts). let st = fold (checkpoint_call crc) acts (checkpoint_start p p bs) in (r, ck_pager st, Some (ck_log st)))
            (checkpoint_plan mode order crc compress decompress bs))"

definition recover ::
  "((u32, bytes) hmap \<Rightarrow> (u32 \<times> bytes) list) \<Rightarrow> (bytes \<Rightarrow> u32) \<Rightarrow> (bytes \<Rightarrow> bytes option) \<Rightarrow>
   (bytes \<Rightarrow> nat \<Rightarrow> bytes option) \<Rightarrow> pager \<Rightarrow> bytes option \<Rightarrow>
   ((checkpoint_error + checkpoint_result) \<times> pager \<times> bytes option) option" where
  "recover order crc compress decompress p file =
     checkpoint Truncate order crc compress decompress
       (if checkpoint_in_progress p then set_checkpoint_in_progress False 0 p else p) file"

subsection \<open>What redo means\<close>

text \<open>
  The specification, on the records of the log alone: a transaction is committed when the last of its
  begin, commit and rollback records is a commit; the redo image of a page is the data of its last write
  by a committed transaction.
\<close>

definition status_of :: "u64 \<Rightarrow> main_wal_record_frame \<Rightarrow> tx_state option" where
  "status_of tx f =
     (if f = FBegin tx then Some TxActive else if f = FCommit tx then Some TxCommitted
      else if f = FRollback tx then Some TxAborted else None)"

definition last_some :: "('a \<Rightarrow> 'b option) \<Rightarrow> 'a list \<Rightarrow> 'b option" where
  "last_some g xs = foldl (\<lambda>acc x. case g x of Some y \<Rightarrow> Some y | None \<Rightarrow> acc) None xs"

definition committed :: "(nat \<times> main_wal_record_frame) list \<Rightarrow> u64 \<Rightarrow> bool" where
  "committed items tx \<longleftrightarrow> last_some (\<lambda>(_, f). status_of tx f) items = Some TxCommitted"

definition redo_image :: "(nat \<times> main_wal_record_frame) list \<Rightarrow> u32 \<Rightarrow> bytes option" where
  "redo_image items pid =
     last_some (\<lambda>(_, f). case f of
         FPageWrite tx pid' data \<Rightarrow> if pid' = pid \<and> committed items tx then Some data else None
       | _ \<Rightarrow> None) items"

definition redo :: "(bytes \<Rightarrow> u32) \<Rightarrow> (nat \<times> main_wal_record_frame) list \<Rightarrow> (u32 \<Rightarrow> bytes option) \<Rightarrow> u32 \<Rightarrow> bytes option" where
  "redo crc items disk pid =
     (case redo_image items pid of Some data \<Rightarrow> Some (update_checksum crc data) | None \<Rightarrow> disk pid)"

text \<open>A traversal of a hash map visits each entry once.\<close>

definition traverses :: "((u32, bytes) hmap \<Rightarrow> (u32 \<times> bytes) list) \<Rightarrow> bool" where
  "traverses order \<longleftrightarrow>
     (\<forall>m. hmap_wf m \<longrightarrow> set (order m) = set m \<and> hmap_wf (order m) \<and> length (order m) = length m)"

lemma last_some_simps [simp]:
  "last_some g [] = None"
  "last_some g (xs @ [x]) = (case g x of Some y \<Rightarrow> Some y | None \<Rightarrow> last_some g xs)"
  by (simp_all add: last_some_def cong: option.case_cong)

lemma last_some_cong: "(\<And>x. x \<in> set xs \<Longrightarrow> g x = h x) \<Longrightarrow> last_some g xs = last_some h xs"
  by (induction xs rule: rev_induct) (auto split: option.splits)

lemma last_some_SomeD: "last_some g xs = Some y \<Longrightarrow> \<exists>x \<in> set xs. g x = Some y"
  by (induction xs rule: rev_induct) (auto split: option.splits)

definition no_ownership :: "(nat \<times> main_wal_record_frame) list \<Rightarrow> bool" where
  "no_ownership items \<longleftrightarrow> list_all (\<lambda>(_, f). case f of FPageOwnership _ \<Rightarrow> False | _ \<Rightarrow> True) items"

definition page_write_of :: "nat \<times> main_wal_record_frame \<Rightarrow> pending_write list" where
  "page_write_of item =
     (case snd item of
        FPageWrite tx pid data \<Rightarrow> [\<lparr>pw_tx_id = tx, pw_page_id = pid, pw_data = data, pw_lsn = fst item\<rparr>]
      | _ \<Rightarrow> [])"

lemma scan_items:
  assumes "no_ownership items"
  shows "\<exists>s. try_fold scan_record scan_init items = Inr s \<and> hmap_wf (tx_states s) \<and>
    (\<forall>tx. hget (tx_states s) tx = last_some (\<lambda>(_, f). status_of tx f) items) \<and>
    pending_writes s = concat (map page_write_of items) \<and> scanned s = length items \<and>
    last_lsn s = (if items = [] then 0 else fst (last items))"
  using assms
proof (induction items rule: rev_induct)
  case Nil
  then show ?case by (simp add: scan_init_def)
next
  case (snoc item items)
  then obtain s where s: "try_fold scan_record scan_init items = Inr s" "hmap_wf (tx_states s)"
      "\<And>tx. hget (tx_states s) tx = last_some (\<lambda>(_, f). status_of tx f) items"
      "pending_writes s = concat (map page_write_of items)" "scanned s = length items"
    by (auto simp: no_ownership_def)
  obtain l f where item: "item = (l, f)" by (cases item)
  have "\<exists>s'. scan_record s item = Inr s' \<and> hmap_wf (tx_states s') \<and>
      (\<forall>tx. hget (tx_states s') tx = (case status_of tx f of Some y \<Rightarrow> Some y | None \<Rightarrow> hget (tx_states s) tx)) \<and>
      pending_writes s' = pending_writes s @ page_write_of item \<and> scanned s' = Suc (scanned s) \<and> last_lsn s' = l"
    using snoc.prems s(2)
    by (cases f) (auto simp: item scan_record_def Let_def no_ownership_def status_of_def page_write_of_def set_tx_state_def
        observe_tx_id_def)
  with s show ?case
    by (auto simp: try_fold_append item cong: option.case_cong)
qed

lemma committed_txs_iff:
  "hmap_wf (tx_states s) \<Longrightarrow> tx \<in> set (committed_txs s) \<longleftrightarrow> hget (tx_states s) tx = Some TxCommitted"
  by (force simp: committed_txs_def hmap_wf_map_of_eq)

lemma latest_writes_append:
  "latest_writes txs (ws @ [w]) = (if pw_tx_id w \<in> set txs then hput (pw_page_id w) (pw_data w) (latest_writes txs ws)
     else latest_writes txs ws)"
  by (simp add: latest_writes_def)

lemma latest_writes_wf [simp]: "hmap_wf (latest_writes txs ws)"
  by (induction ws rule: rev_induct) (auto simp: latest_writes_append, simp add: latest_writes_def)

lemma latest_writes_image:
  "hget (latest_writes txs (concat (map page_write_of items))) pid =
     last_some (\<lambda>(_, f). case f of
         FPageWrite tx pid' data \<Rightarrow> if pid' = pid \<and> tx \<in> set txs then Some data else None
       | _ \<Rightarrow> None) items"
proof (induction items rule: rev_induct)
  case Nil
  then show ?case by (simp add: latest_writes_def)
next
  case (snoc item items)
  obtain l f where item: "item = (l, f)" by (cases item)
  show ?case
    using snoc by (cases f) (simp_all add: item page_write_of_def latest_writes_append)
qed

lemma plan_writes_ok:
  "\<forall>(pid, data) \<in> set ws. length data = paged_page_size \<Longrightarrow> plan_writes ws n = (Inr (n + length ws), map (\<lambda>(pid, data). WritePage pid data) ws)"
  by (induction ws arbitrary: n) auto

definition installed :: "(bytes \<Rightarrow> u32) \<Rightarrow> (u32 \<times> bytes) list \<Rightarrow> (u32 \<Rightarrow> bytes option) \<Rightarrow> u32 \<Rightarrow> bytes option" where
  "installed crc ws disk pid = (case hget ws pid of Some data \<Rightarrow> Some (update_checksum crc data) | None \<Rightarrow> disk pid)"

lemma write_calls:
  assumes "hmap_wf ws"
  shows "fold (checkpoint_call crc) (map (\<lambda>(pid, data). WritePage pid data) ws) st =
    st\<lparr>ck_pager := (ck_pager st)\<lparr>pages := installed crc ws (pages (ck_pager st))\<rparr>\<rparr>"
  using assms
proof (induction ws arbitrary: st)
  case Nil
  then show ?case by (simp add: installed_def [abs_def])
next
  case (Cons w ws)
  obtain pid data where w: "w = (pid, data)" by (cases w)
  have fresh: "hget ws pid = None" using Cons.prems by (simp add: w hmap_wf_def map_of_eq_None_iff)
  then have "installed crc ws (m(pid \<mapsto> update_checksum crc data)) = installed crc (w # ws) m" for m
    by (auto simp: w fun_eq_iff installed_def split: option.splits)
  with Cons show ?case by (simp add: w hmap_wf_def write_page_def)
qed

lemma traverses_lookup: "traverses order \<Longrightarrow> hmap_wf m \<Longrightarrow> hget (order m) k = hget m k"
  by (metis hmap_wf_map_of_eq not_Some_eq traverses_def)

lemma wal_read_log:
  assumes "log_ok crc compress decompress log"
  shows "wal_read crc decompress (encode_wal_file_header @ concat (map fst log)) = Inr (stamp 8 log, None)"
  using wal_scan_log [OF assms, of 8 "[]"] by (simp add: wal_read_def wal_header_bytes_def wal_scan_end)

lemma marker_encodes:
  assumes "zstd_contract compress decompress"
  obtains marker where "wal_encode crc compress (FCheckpoint x) = Some marker" "log_entry crc compress decompress marker (FCheckpoint x)"
proof -
  obtain bs where "log_entry crc compress decompress bs (FCheckpoint x)"
    using log_entry_encodable [OF _ assms, of crc "FCheckpoint x"] by (auto simp: encodable_def)
  then show thesis using that by (auto simp: log_entry_def)
qed

lemma restarted_log_reads:
  assumes "log_entry crc compress decompress marker (FCheckpoint x)"
  shows "wal_read crc decompress (encode_wal_file_header @ marker) = Inr ([(8, FCheckpoint x)], None)"
    and "wal_read crc decompress encode_wal_file_header = Inr ([], None)"
proof -
  have "log_ok crc compress decompress [(marker, FCheckpoint x)]" "log_ok crc compress decompress []" using assms by (simp_all add: log_ok_def)
  from this [THEN wal_read_log] show "wal_read crc decompress (encode_wal_file_header @ marker) = Inr ([(8, FCheckpoint x)], None)"
    "wal_read crc decompress encode_wal_file_header = Inr ([], None)" by simp_all
qed

definition sizes_ok :: "(nat \<times> main_wal_record_frame) list \<Rightarrow> bool" where
  "sizes_ok items \<longleftrightarrow> list_all (\<lambda>(_, f). case f of FPageWrite _ _ data \<Rightarrow> length data = paged_page_size | _ \<Rightarrow> True) items"

lemma redo_image_size:
  assumes "sizes_ok items" and "redo_image items pid = Some data"
  shows "length data = paged_page_size"
  using last_some_SomeD [OF assms(2) [unfolded redo_image_def]] assms(1)
  by (auto simp: sizes_ok_def list_all_iff split: main_wal_record_frame.splits if_splits)

text \<open>The plan of a checkpoint of a readable log.\<close>

lemma checkpoint_plan_ok:
  assumes wal: "wal_read crc decompress file = Inr (items, None)" and own: "no_ownership items" and sizes: "sizes_ok items"
    and order: "traverses order" and zstd: "zstd_contract compress decompress"
  obtains r ws prepare finish restart marker where
    "checkpoint_plan mode order crc compress decompress file = Some (Inr r, prepare @ map (\<lambda>(pid, data). WritePage pid data) ws @ SyncPager # finish @ restart)"
    and "hmap_wf ws" and "\<And>disk. installed crc ws disk = redo crc items disk" and "records_processed r = length items"
    and "prepare = (if ws = [] then [] else [SetInProgress True (result_lsn r)])" and "finish = (if ws = [] then [] else [CompleteCheckpoint (result_lsn r)])"
    and "wal_truncated r = (mode = Restart \<or> mode = Truncate)" and "restart = (if wal_truncated r then restart_actions marker else [])"
    and "log_entry crc compress decompress marker (FCheckpoint (word_of_nat (result_lsn r)))"
proof -
  obtain s where s: "try_fold scan_record scan_init items = Inr s" "hmap_wf (tx_states s)"
      "\<And>tx. hget (tx_states s) tx = last_some (\<lambda>(_, f). status_of tx f) items"
      "pending_writes s = concat (map page_write_of items)" "scanned s = length items"
    using scan_items [OF own] by blast
  have scan: "scan_wal items None = Inr s" by (simp add: scan_wal_def s(1))
  define latest where "latest = latest_writes (committed_txs s) (pending_writes s)"
  have wf: "hmap_wf latest" by (simp add: latest_def)
  have image: "hget latest pid = redo_image items pid" for pid
    unfolding latest_def s(4) latest_writes_image redo_image_def
    by (rule last_some_cong) (auto simp: committed_txs_iff [OF s(2)] s(3) committed_def split: main_wal_record_frame.splits)
  let ?ws = "order latest"
  have ws: "hmap_wf ?ws" "length ?ws = length latest" "set ?ws = set latest" using order wf by (auto simp: traverses_def)
  have "\<forall>(pid, data) \<in> set ?ws. length data = paged_page_size"
    using ws(3) wf image redo_image_size [OF sizes] by (auto simp: hmap_wf_map_of_eq)
  note writes = plan_writes_ok [OF this, of 0]
  have inst: "installed crc ?ws disk = redo crc items disk" for disk
    by (simp add: fun_eq_iff installed_def redo_def traverses_lookup [OF order wf] image)
  obtain marker where marker: "wal_encode crc compress (FCheckpoint (word_of_nat (last_lsn s))) = Some marker"
      "log_entry crc compress decompress marker (FCheckpoint (word_of_nat (last_lsn s)))" by (rule marker_encodes [OF zstd])
  let ?trunc = "mode = Restart \<or> mode = Truncate"
  define r where "r = \<lparr>transactions_processed = length (committed_txs s), max_transaction_id = max_tx s,
    pages_checkpointed = length latest, records_processed = length items, result_lsn = last_lsn s, wal_truncated = ?trunc\<rparr>"
  have empty: "?ws = [] \<longleftrightarrow> latest = []" using ws(2) by auto
  show thesis
    by (rule that [OF _ ws(1) inst, of r "if ?ws = [] then [] else [SetInProgress True (last_lsn s)]"
          "if ?ws = [] then [] else [CompleteCheckpoint (last_lsn s)]" "if ?trunc then restart_actions marker else []" marker])
      (use marker in \<open>simp_all add: checkpoint_plan_def wal scan latest_def [symmetric] writes s(5) ws(2) empty r_def\<close>)
qed

lemma restart_calls:
  "fold (checkpoint_call crc) (restart_actions marker) st =
     st\<lparr>ck_log := encode_wal_file_header @ marker, ck_log_disk := encode_wal_file_header @ marker, ck_log_kept := 8 + length marker\<rparr>"
  by (simp add: restart_actions_def)

lemma checkpoint_redo:
  assumes "wal_read crc decompress file = Inr (items, None)" and "no_ownership items" and "sizes_ok items"
    and "traverses order" and "zstd_contract compress decompress"
  obtains r p' file' where
    "checkpoint mode order crc compress decompress p (Some file) = Some (Inr r, p', Some file')"
    and "pages p' = redo crc items (pages p)" and "records_processed r = length items"
    and "\<not> checkpoint_in_progress p \<Longrightarrow> \<not> checkpoint_in_progress p'"
    and "if mode = Restart \<or> mode = Truncate
         then wal_read crc decompress file' = Inr ([(8, FCheckpoint (word_of_nat (result_lsn r)))], None) else file' = file"
proof -
  obtain r ws prepare finish restart marker where
      plan: "checkpoint_plan mode order crc compress decompress file = Some (Inr r, prepare @ map (\<lambda>(pid, data). WritePage pid data) ws @ SyncPager # finish @ restart)"
      and wf: "hmap_wf ws" and inst: "\<And>disk. installed crc ws disk = redo crc items disk" and records: "records_processed r = length items"
      and prepare: "prepare = (if ws = [] then [] else [SetInProgress True (result_lsn r)])"
      and finish: "finish = (if ws = [] then [] else [CompleteCheckpoint (result_lsn r)])"
      and trunc: "wal_truncated r = (mode = Restart \<or> mode = Truncate)" and restart: "restart = (if wal_truncated r then restart_actions marker else [])"
      and marker: "log_entry crc compress decompress marker (FCheckpoint (word_of_nat (result_lsn r)))"
    by (rule checkpoint_plan_ok [OF assms]) (rule that)
  define st where "st = fold (checkpoint_call crc) (prepare @ map (\<lambda>(pid, data). WritePage pid data) ws @ SyncPager # finish @ restart)
    (checkpoint_start p p file)"
  have run: "checkpoint mode order crc compress decompress p (Some file) = Some (Inr r, ck_pager st, Some (ck_log st))"
    by (simp add: checkpoint_def plan st_def Let_def)
  show thesis
    by (rule that [OF run])
      (use records restarted_log_reads(1) [OF marker] in \<open>auto simp: st_def write_calls [OF wf] inst prepare finish restart trunc restart_calls
        checkpoint_start_def set_checkpoint_in_progress_def complete_checkpoint_def\<close>)
qed

lemma recover_redo:
  assumes "wal_read crc decompress file = Inr (items, None)" and "no_ownership items" and "sizes_ok items"
    and "traverses order" and "zstd_contract compress decompress"
  obtains r p' file' where "recover order crc compress decompress p (Some file) = Some (Inr r, p', Some file')"
    and "pages p' = redo crc items (pages p)" and "\<not> checkpoint_in_progress p'" and "records_processed r = length items"
    and "wal_read crc decompress file' = Inr ([(8, FCheckpoint (word_of_nat (result_lsn r)))], None)"
proof -
  let ?p = "if checkpoint_in_progress p then set_checkpoint_in_progress False 0 p else p"
  have "\<not> checkpoint_in_progress ?p" "pages ?p = pages p" by (simp_all add: set_checkpoint_in_progress_def)
  with checkpoint_redo [OF assms, of Truncate ?p] show thesis
    by (metis recover_def that)
qed

lemma redo_marker [simp]: "redo crc [(l, FCheckpoint x)] disk = disk"
proof -
  have "redo_image [(l, FCheckpoint x)] pid = None" for pid
    by (simp add: redo_image_def last_some_def)
  then show ?thesis by (simp add: redo_def [abs_def])
qed

lemma redo_nil [simp]: "redo crc [] disk = disk"
  by (simp add: redo_def redo_image_def fun_eq_iff)

lemma recover_restarted:
  assumes "wal_read crc decompress file = Inr ([(8, FCheckpoint x)], None)" and "traverses order"
    and "zstd_contract compress decompress"
  obtains r p' file' where "recover order crc compress decompress p (Some file) = Some (Inr r, p', file')" and "pages p' = pages p"
proof -
  have "no_ownership [(8, FCheckpoint x)]" "sizes_ok [(8, FCheckpoint x)]" by (simp_all add: no_ownership_def sizes_ok_def)
  from recover_redo [OF assms(1) this assms(2,3), of p] show thesis by (metis redo_marker that)
qed

text \<open>
  C9: recovery installs exactly the committed work. On a log that reads to its end, recovery succeeds,
  every page then holds the data of its last write by a transaction whose outcome in the log is a commit
  (sealed with its checksum) or what it held before, no checkpoint is left in progress, and recovering
  once more, from the log recovery leaves behind, changes no page.
\<close>

theorem recovery_redoes_committed:
  assumes "wal_read crc decompress file = Inr (items, None)" and "no_ownership items" and "sizes_ok items"
    and "traverses order" and "zstd_contract compress decompress"
  shows "\<exists>r p' file' r2 p2 file2. recover order crc compress decompress p (Some file) = Some (Inr r, p', file') \<and>
    pages p' = redo crc items (pages p) \<and> \<not> checkpoint_in_progress p' \<and> records_processed r = length items \<and>
    recover order crc compress decompress p' file' = Some (Inr r2, p2, file2) \<and> pages p2 = pages p'"
proof -
  obtain r p' file' where first: "recover order crc compress decompress p (Some file) = Some (Inr r, p', Some file')"
      "pages p' = redo crc items (pages p)" "\<not> checkpoint_in_progress p'" "records_processed r = length items"
      "wal_read crc decompress file' = Inr ([(8, FCheckpoint (word_of_nat (result_lsn r)))], None)"
    by (rule recover_redo [OF assms]) (rule that)
  obtain r2 p2 file2 where "recover order crc compress decompress p' (Some file') = Some (Inr r2, p2, file2)" "pages p2 = pages p'"
    by (rule recover_restarted [OF first(5) assms(4,5)]) (rule that)
  with first(1-4) show ?thesis by blast
qed

definition demo_pager :: pager where
  "demo_pager = \<lparr>pages = (\<lambda>_. None), checkpoint_in_progress = True, checkpoint_target_lsn = 8, checkpoint_lsn = 0\<rparr>"

lemma log_of_frames:
  assumes "\<forall>f \<in> set fs. encodable crc f" and "zstd_contract compress decompress"
  shows "\<exists>log. log_ok crc compress decompress log \<and> map snd log = fs"
  using assms(1)
proof (induction fs)
  case Nil
  then show ?case by (simp add: log_ok_def)
next
  case (Cons f fs)
  then obtain bs log where "log_entry crc compress decompress bs f" "log_ok crc compress decompress log" "map snd log = fs"
    using log_entry_encodable [OF _ assms(2), of crc f] by auto
  then show ?case by (intro exI [of _ "(bs, f) # log"]) (simp add: log_ok_def)
qed

lemma demo_log:
  obtains log_file l1 l2 l3 l4 l5 where "wal_read demo_crc demo_decompress log_file =
    Inr ([(l1, FBegin 7), (l2, FPageWrite 7 3 (replicate 16384 1)), (l3, FBegin 8),
          (l4, FPageWrite 8 4 (replicate 16384 2)), (l5, FCommit 7)], None)"
proof -
  let ?fs = "[FBegin 7, FPageWrite 7 3 (replicate 16384 1), FBegin 8, FPageWrite 8 4 (replicate 16384 2), FCommit 7]"
  have "\<forall>f \<in> set ?fs. encodable demo_crc f"
    by (simp add: encodable_def wal_payload_ok_def max_main_wal_payload_def)
  then obtain log where log: "log_ok demo_crc demo_compress demo_decompress log" "map snd log = ?fs"
    using log_of_frames [OF _ demo_zstd, of ?fs demo_crc] by (elim impE exE conjE meta_impE)
  then obtain b1 b2 b3 b4 b5 where eq: "log = [(b1, ?fs ! 0), (b2, ?fs ! 1), (b3, ?fs ! 2), (b4, ?fs ! 3), (b5, ?fs ! 4)]"
    by (auto simp: map_eq_Cons_conv)
  from wal_read_log [OF log(1)] show thesis unfolding eq by simp (rule that)
qed

lemma demo_order: "traverses (\<lambda>m. m)"
  by (simp add: traverses_def)

theorem recovery_redoes_committed_witness:
  "\<exists>file r p' file'. recover (\<lambda>m. m) demo_crc demo_compress demo_decompress demo_pager (Some file) = Some (Inr r, p', file') \<and>
    pages p' 3 = Some (update_checksum demo_crc (replicate 16384 1)) \<and> pages p' 4 = None"
proof -
  obtain log_file l1 l2 l3 l4 l5 where read: "wal_read demo_crc demo_decompress log_file =
    Inr ([(l1, FBegin 7), (l2, FPageWrite 7 3 (replicate 16384 1)), (l3, FBegin 8),
          (l4, FPageWrite 8 4 (replicate 16384 2)), (l5, FCommit 7)], None)" (is "_ = Inr (?items, None)")
    by (rule demo_log)
  have "redo demo_crc ?items (pages demo_pager) 3 = Some (update_checksum demo_crc (replicate 16384 1))"
    "redo demo_crc ?items (pages demo_pager) 4 = None" "no_ownership ?items" "sizes_ok ?items"
    by (simp_all add: redo_def redo_image_def committed_def last_some_def status_of_def no_ownership_def sizes_ok_def
        demo_pager_def paged_page_size_def)
  with recovery_redoes_committed [OF read _ _ demo_order demo_zstd, of demo_pager] show ?thesis by metis
qed

text \<open>Every state between two calls is one of two kinds: the log is whole, or the pages are.\<close>

definition log_whole :: "(bytes \<Rightarrow> u32) \<Rightarrow> (nat \<times> main_wal_record_frame) list \<Rightarrow> pager \<Rightarrow> pager \<Rightarrow> bytes \<Rightarrow> checkpoint_state \<Rightarrow> bool" where
  "log_whole crc items p d file st \<longleftrightarrow>
     ck_log st = file \<and> ck_log_disk st = file \<and> ck_log_kept st = length file \<and>
     (\<forall>pid. pages (ck_disk st) pid \<in> {pages d pid, redo crc items (pages p) pid}) \<and>
     (\<forall>pid. pages (ck_pager st) pid \<in> {pages p pid, redo crc items (pages p) pid})"

definition pages_whole :: "(bytes \<Rightarrow> u32) \<Rightarrow> (nat \<times> main_wal_record_frame) list \<Rightarrow> pager \<Rightarrow> bytes \<Rightarrow> bytes \<Rightarrow> checkpoint_state \<Rightarrow> bool" where
  "pages_whole crc items p file new st \<longleftrightarrow>
     pages (ck_disk st) = redo crc items (pages p) \<and> pages (ck_pager st) = redo crc items (pages p) \<and>
     (ck_log_disk st = file \<or> (\<exists>n. ck_log_disk st = take n new)) \<and> (\<exists>n. ck_log st = take n new)"

lemma redo_twice: "redo crc items (redo crc items m) = redo crc items m"
  by (auto simp: redo_def fun_eq_iff split: option.splits)

lemma redo_cong: "m pid = m' pid \<Longrightarrow> redo crc items m pid = redo crc items m' pid"
  by (simp add: redo_def split: option.split)

lemma fold_prefixes:
  assumes "\<And>k. Q (fold g (take k xs) s)" and "\<And>k. Q (fold g (take k ys) (fold g xs s))"
  shows "Q (fold g (take k (xs @ ys)) s)"
  using assms by (cases "k \<le> length xs") (simp_all add: not_le)

lemma write_prefix:
  assumes "hmap_wf ws" and "installed crc ws (pages p) = redo crc items (pages p)" and "log_whole crc items p d file st" and "pages (ck_pager st) = pages p"
  shows "log_whole crc items p d file (fold (checkpoint_call crc) (take k (map (\<lambda>(pid, data). WritePage pid data) ws)) st)"
proof -
  have wf: "hmap_wf (take k ws)" using assms(1) by (simp add: hmap_wf_def take_map [symmetric])
  have "installed crc (take k ws) (pages p) pid \<in> {pages p pid, redo crc items (pages p) pid}" for pid
  proof (cases "hget (take k ws) pid")
    case (Some data)
    then have "hget ws pid = Some data" using wf assms(1) by (metis hmap_wf_map_of_eq in_set_takeD)
    with Some show ?thesis by (simp add: assms(2) [symmetric] installed_def)
  qed (simp add: installed_def)
  with assms(3,4) show ?thesis by (simp add: take_map write_calls [OF wf] log_whole_def)
qed

lemma checkpoint_prefix:
  assumes wf: "hmap_wf ws" and inst: "installed crc ws (pages p) = redo crc items (pages p)"
    and prepare: "prepare = (if e then [] else [SetInProgress True l])" and finish: "finish = (if e then [] else [CompleteCheckpoint l])"
    and restart: "restart = (if trunc then restart_actions marker else [])"
    and st: "st = fold (checkpoint_call crc) (take k (prepare @ map (\<lambda>(pid, data). WritePage pid data) ws @ (SyncPager # finish) @ restart))
      (checkpoint_start p d file)"
  defines "new \<equiv> encode_wal_file_header @ marker"
  shows "log_whole crc items p d file st \<or> trunc \<and> pages_whole crc items p file new st"
proof -
  let ?Q = "\<lambda>st. log_whole crc items p d file st \<or> trunc \<and> pages_whole crc items p file new st"
  let ?ws = "map (\<lambda>(pid, data). WritePage pid data) ws"
  define s0 where "s0 = checkpoint_start p d file"
  define s1 where "s1 = fold (checkpoint_call crc) prepare s0"
  define s2 where "s2 = fold (checkpoint_call crc) ?ws s1"
  define s3 where "s3 = fold (checkpoint_call crc) (SyncPager # finish) s2"
  note defs = s0_def s1_def s2_def s3_def checkpoint_start_def prepare finish write_calls [OF wf] inst set_checkpoint_in_progress_def
    complete_checkpoint_def log_whole_def
  have s1: "log_whole crc items p d file s1" "pages (ck_pager s1) = pages p" by (simp_all add: defs)
  have 0: "?Q (fold (checkpoint_call crc) (take k prepare) s0)" for k by (cases k) (simp_all add: defs)
  have 1: "?Q (fold (checkpoint_call crc) (take k ?ws) s1)" for k using write_prefix [OF wf inst s1] by blast
  have 2: "?Q (fold (checkpoint_call crc) (take k (SyncPager # finish)) s2)" for k
    by (cases k; cases "k - 1") (simp_all add: defs)
  have s3: "log_whole crc items p d file s3" "pages (ck_disk s3) = redo crc items (pages p)" "pages (ck_pager s3) = redo crc items (pages p)"
    by (simp_all add: defs)
  have 3: "?Q (fold (checkpoint_call crc) (take k restart) s3)" for k
  proof (cases trunc)
    case True
    have new: "\<exists>n. encode_wal_file_header = take n new" "\<exists>n. encode_wal_file_header @ marker = take n new" "\<exists>n. [] = take n new"
      by (rule exI [of _ 8], simp add: new_def, rule exI [of _ "length new"], simp add: new_def, rule exI [of _ 0], simp)
    have log: "ck_log_disk s3 = file" using s3(1) by (simp add: log_whole_def)
    consider "k = 0" | "k = 1" | "k = 2" | "k = 3" | "k = 4" | "k \<ge> 5" by linarith
    then show ?thesis
      by cases (use s3(1) True new in \<open>simp_all add: restart restart_actions_def numeral_eq_Suc pages_whole_def s3(2,3) log\<close>)
  qed (simp add: restart s3)
  note 23 = fold_prefixes [where Q = ?Q, OF 2 3 [unfolded s3_def]]
  note 123 = fold_prefixes [where Q = ?Q, OF 1 23 [unfolded s2_def]]
  show ?thesis unfolding st s0_def [symmetric] by (rule fold_prefixes [where Q = ?Q, OF 0 123 [unfolded s1_def]])
qed

text \<open>Recovery on what is left of the log after a crash.\<close>

lemma recover_failed_read:
  assumes "wal_read crc decompress file = Inl e \<or> wal_read crc decompress file = Inr (items, Some e) \<and> no_ownership items"
  shows "\<exists>p'. recover order crc compress decompress p (Some file) = Some (Inl (CkIo e), p', Some file) \<and> pages p' = pages p"
proof -
  have "scan_wal items (Some e) = Inl (CkIo e)" if "no_ownership items" using scan_items [OF that] by (auto simp: scan_wal_def)
  with assms show ?thesis
    by (auto simp: recover_def checkpoint_def checkpoint_plan_def checkpoint_start_def set_checkpoint_in_progress_def)
qed

lemma torn_scan:
  assumes "log_entry crc compress decompress (xs @ ys) f" and "xs \<noteq> []" and "ys \<noteq> []" and "\<not> (\<exists>r. f = FPageOwnership r)"
  shows "wal_scan crc decompress wal_file_version pos xs = ([], Some UnexpectedEof)"
proof -
  have "decode_main_wal_record_frame crc decompress wal_file_version wal_default_term xs = Inl (torn_error f)"
    using assms(1-3) unfolding log_entry_def by blast
  moreover have "torn_error f = UnexpectedEof"
    using assms(4) by (auto simp: torn_error_def split: main_wal_record_frame.splits)
  ultimately show ?thesis by (subst wal_scan.simps) simp
qed

lemma restarted_log_prefix:
  assumes marker: "log_entry crc compress decompress marker (FCheckpoint x)" and "traverses order" and "zstd_contract compress decompress"
  defines "new \<equiv> encode_wal_file_header @ marker"
  shows "(\<exists>r p' f'. recover order crc compress decompress p (Some (take n new)) = Some (Inr r, p', f') \<and> pages p' = pages p) \<or>
    n \<noteq> 8 \<and> n < length new \<and>
    (\<exists>p'. recover order crc compress decompress p (Some (take n new)) = Some (Inl (CkIo UnexpectedEof), p', Some (take n new)) \<and> pages p' = pages p)"
proof -
  consider (short) "n < 8" | (header) "n = 8" | (torn) "8 < n" "n < length new" | (all) "length new \<le> n" by linarith
  then show ?thesis
  proof cases
    case short
    then have "wal_read crc decompress (take n new) = Inl UnexpectedEof" by (simp add: wal_read_def wal_header_bytes_def new_def)
    then show ?thesis using short recover_failed_read by (force simp: new_def)
  next
    case header
    have "wal_read crc decompress (take n new) = Inr ([], None)" using restarted_log_reads(2) [OF marker] header by (simp add: new_def)
    from recover_redo [OF this _ _ assms(2,3), of p] show ?thesis
      by (simp add: no_ownership_def sizes_ok_def) (metis redo_nil)
  next
    case torn
    define m where "m = n - 8"
    have m: "take m marker \<noteq> []" "drop m marker \<noteq> []" using torn by (auto simp: m_def new_def)
    have "wal_scan crc decompress wal_file_version pos (take m marker) = ([], Some UnexpectedEof)" for pos
      by (rule torn_scan [of _ _ _ _ "drop m marker" "FCheckpoint x"]) (use marker m in simp_all)
    moreover have "take n new = encode_wal_file_header @ take m marker" using torn by (simp add: new_def m_def)
    ultimately have "wal_read crc decompress (take n new) = Inr ([], Some UnexpectedEof)" by (simp add: wal_read_def wal_header_bytes_def)
    then show ?thesis using torn recover_failed_read [of crc decompress "take n new" UnexpectedEof "[]"] by (simp add: no_ownership_def)
  next
    case all
    have "wal_read crc decompress (take n new) = Inr ([(8, FCheckpoint x)], None)" using restarted_log_reads(1) [OF marker] all by (simp add: new_def)
    from recover_restarted [OF this assms(2,3), of p] show ?thesis by metis
  qed
qed

lemma crash_log_whole:
  assumes "log_whole crc items p d file st" and "crashed st p' file'" and "wal_read crc decompress file = Inr (items, None)"
    and "no_ownership items" and "sizes_ok items" and "traverses order" and "zstd_contract compress decompress"
  shows "\<exists>r' p2 f2. recover order crc compress decompress p' (Some file') = Some (Inr r', p2, f2) \<and>
    (\<forall>pid. pages p2 pid = redo crc items (pages p) pid \<or> pages p2 pid = redo crc items (pages d) pid)"
proof -
  have same: "file' = file" using assms(1,2) by (auto simp: crashed_def log_whole_def)
  have "pages p' pid \<in> {pages d pid, pages p pid, redo crc items (pages p) pid}" for pid
  proof -
    have "pages p' pid \<in> {pages (ck_disk st) pid, pages (ck_pager st) pid}" using assms(2) by (simp add: crashed_def)
    then show ?thesis using assms(1) unfolding log_whole_def by (metis insertE insertI1 insertI2 singletonD)
  qed
  then have "redo crc items (pages p') pid \<in> {redo crc items (pages p) pid, redo crc items (pages d) pid}" for pid
    using redo_cong [of "pages p'" pid _ crc items] redo_twice [of crc items "pages p"] by (metis insertE insertI1 insertI2 singletonD)
  with recover_redo [OF assms(3-7), of p'] show ?thesis unfolding same by (metis insertE singletonD)
qed

lemma crash_pages_whole:
  assumes "pages_whole crc items p file (encode_wal_file_header @ marker) st" and "crashed st p' file'"
    and "log_entry crc compress decompress marker (FCheckpoint x)" and "wal_read crc decompress file = Inr (items, None)"
    and "no_ownership items" and "sizes_ok items" and "traverses order" and "zstd_contract compress decompress"
  shows "(\<exists>r' p2 f2. recover order crc compress decompress p' (Some file') = Some (Inr r', p2, f2) \<and> pages p2 = redo crc items (pages p)) \<or>
    pages p' = redo crc items (pages p) \<and>
    (\<exists>n. file' = take n (encode_wal_file_header @ marker) \<and> n \<noteq> 8 \<and> n < 8 + length marker) \<and>
    (\<exists>p2. recover order crc compress decompress p' (Some file') = Some (Inl (CkIo UnexpectedEof), p2, Some file') \<and> pages p2 = pages p')"
proof -
  have pages: "pages p' = redo crc items (pages p)" using assms(1,2) by (auto simp: crashed_def pages_whole_def fun_eq_iff)
  consider "file' = file" | n where "file' = take n (encode_wal_file_header @ marker)"
    using assms(1,2) unfolding crashed_def pages_whole_def by (metis take_take)
  then show ?thesis
  proof cases
    case 1
    then show ?thesis using recover_redo [OF assms(4-8), of p'] by (metis pages redo_twice)
  next
    case 2
    then show ?thesis using restarted_log_prefix [OF assms(3,7,8), of p' n] pages by auto
  qed
qed

text \<open>
  C11: a checkpoint can be interrupted between any two of its calls. Take a log that reads to its end, whose
  page writes are whole pages and which has no ownership record, pages \<open>p\<close> as the process sees them and \<open>d\<close> as
  they are on disk, and stop the checkpoint after any number of calls. Whatever the crash leaves, recovery
  brings each page to the redo of the log on what the process saw of it or on what was on disk, which is the
  same when nothing was dirty; so a committed page write is never lost. The one exception is a crash while a
  checkpoint that truncates rewrites the log: when what is left is part of the file header, or the header and
  part of the marker, recovery fails with \<open>UnexpectedEof\<close>, but the pages on disk are then already the redo of the log.
\<close>

theorem interrupted_checkpoint_recovers:
  assumes "wal_read crc decompress file = Inr (items, None)" and "no_ownership items" and "sizes_ok items"
    and "traverses order" and "traverses order'" and "zstd_contract compress decompress"
  shows "\<exists>r acts marker. checkpoint_plan mode order crc compress decompress file = Some (Inr r, acts) \<and>
    (\<forall>k p' file'. crashed (fold (checkpoint_call crc) (take k acts) (checkpoint_start p d file)) p' file' \<longrightarrow>
      (\<exists>r' p2 f2. recover order' crc compress decompress p' (Some file') = Some (Inr r', p2, f2) \<and>
        (\<forall>pid. pages p2 pid = redo crc items (pages p) pid \<or> pages p2 pid = redo crc items (pages d) pid)) \<or>
      wal_truncated r \<and> pages p' = redo crc items (pages p) \<and>
      (\<exists>n. file' = take n (encode_wal_file_header @ marker) \<and> n \<noteq> 8 \<and> n < 8 + length marker) \<and>
      (\<exists>p2. recover order' crc compress decompress p' (Some file') = Some (Inl (CkIo UnexpectedEof), p2, Some file') \<and> pages p2 = pages p'))"
proof -
  obtain r ws prepare finish restart marker where
      plan: "checkpoint_plan mode order crc compress decompress file = Some (Inr r, prepare @ map (\<lambda>(pid, data). WritePage pid data) ws @ SyncPager # finish @ restart)"
      and wf: "hmap_wf ws" and inst: "\<And>disk. installed crc ws disk = redo crc items disk"
      and prepare: "prepare = (if ws = [] then [] else [SetInProgress True (result_lsn r)])"
      and finish: "finish = (if ws = [] then [] else [CompleteCheckpoint (result_lsn r)])"
      and restart: "restart = (if wal_truncated r then restart_actions marker else [])"
      and marker: "log_entry crc compress decompress marker (FCheckpoint (word_of_nat (result_lsn r)))"
    by (rule checkpoint_plan_ok [OF assms(1-4,6)]) (rule that)
  let ?new = "encode_wal_file_header @ marker"
  show ?thesis
  proof (intro exI [of _ r] exI [of _ marker] exI conjI, rule plan, intro allI impI, goal_cases)
    case (1 k p' file')
    define st where "st = fold (checkpoint_call crc) (take k (prepare @ map (\<lambda>(pid, data). WritePage pid data) ws @ SyncPager # finish @ restart)) (checkpoint_start p d file)"
    have crash: "crashed st p' file'" using 1 by (simp only: st_def)
    have "log_whole crc items p d file st \<or> wal_truncated r \<and> pages_whole crc items p file ?new st"
      by (rule checkpoint_prefix [OF wf inst prepare finish restart]) (simp add: st_def)
    then show ?case
    proof (elim disjE conjE)
      assume "log_whole crc items p d file st"
      then show ?thesis using crash_log_whole [OF _ crash assms(1-3,5,6)] by blast
    next
      assume truncated: "wal_truncated r" and whole: "pages_whole crc items p file ?new st"
      from crash_pages_whole [OF whole crash marker assms(1-3,5,6)] show ?thesis
      proof
        assume "\<exists>r' p2 f2. recover order' crc compress decompress p' (Some file') = Some (Inr r', p2, f2) \<and> pages p2 = redo crc items (pages p)"
        then show ?thesis by (elim exE conjE) auto
      qed (use truncated in blast)
    qed
  qed
qed

theorem interrupted_checkpoint_recovers_witness:
  "\<exists>file r acts st. checkpoint_plan Truncate (\<lambda>m. m) demo_crc demo_compress demo_decompress file = Some (Inr r, acts) \<and>
    st = fold (checkpoint_call demo_crc) (take 2 acts) (checkpoint_start demo_pager demo_pager file) \<and>
    ((\<exists>r' p2 f2. recover (\<lambda>m. m) demo_crc demo_compress demo_decompress (ck_disk st) (Some (ck_log_disk st)) = Some (Inr r', p2, f2) \<and>
        pages p2 3 = Some (update_checksum demo_crc (replicate 16384 1)) \<and> pages p2 4 = None) \<or>
      pages (ck_disk st) 3 = Some (update_checksum demo_crc (replicate 16384 1)) \<and> pages (ck_disk st) 4 = None)"
proof -
  obtain log_file l1 l2 l3 l4 l5 where read: "wal_read demo_crc demo_decompress log_file =
    Inr ([(l1, FBegin 7), (l2, FPageWrite 7 3 (replicate 16384 1)), (l3, FBegin 8),
          (l4, FPageWrite 8 4 (replicate 16384 2)), (l5, FCommit 7)], None)" (is "_ = Inr (?items, None)")
    by (rule demo_log)
  have items: "redo demo_crc ?items (pages demo_pager) 3 = Some (update_checksum demo_crc (replicate 16384 1))"
    "redo demo_crc ?items (pages demo_pager) 4 = None" "no_ownership ?items" "sizes_ok ?items"
    by (simp_all add: redo_def redo_image_def committed_def last_some_def status_of_def no_ownership_def sizes_ok_def
        demo_pager_def paged_page_size_def)
  from interrupted_checkpoint_recovers [OF read items(3,4) demo_order demo_order demo_zstd, of Truncate demo_pager demo_pager]
  obtain r acts where plan: "checkpoint_plan Truncate (\<lambda>m. m) demo_crc demo_compress demo_decompress log_file = Some (Inr r, acts)"
    and outcome: "\<And>p' file'. crashed (fold (checkpoint_call demo_crc) (take 2 acts) (checkpoint_start demo_pager demo_pager log_file)) p' file' \<Longrightarrow>
      (\<exists>r' p2 f2. recover (\<lambda>m. m) demo_crc demo_compress demo_decompress p' (Some file') = Some (Inr r', p2, f2) \<and>
        (\<forall>pid. pages p2 pid = redo demo_crc ?items (pages demo_pager) pid)) \<or> pages p' = redo demo_crc ?items (pages demo_pager)"
    by (elim exE conjE) (drule_tac x = 2 in spec, blast)
  have "crashed st (ck_disk st) (ck_log_disk st)" for st by (simp add: crashed_def)
  note outcome = outcome [OF this]
  show ?thesis
    by (intro exI [of _ log_file] exI [of _ r] exI [of _ acts] exI conjI, rule plan, rule refl) (use outcome items(1,2) in metis)
qed

text \<open>
  The exception is reached: between the call that empties the file and the sync of its new header, a crash can
  leave an empty log, and recovery of an empty log fails.
\<close>

lemma emptied_log_stops_recovery:
  "crashed (checkpoint_call crc LogEmpty st) (ck_disk st) []"
  "\<exists>p'. recover order crc compress decompress p (Some []) = Some (Inl (CkIo UnexpectedEof), p', Some []) \<and> pages p' = pages p"
  using recover_failed_read [of crc decompress "[]" UnexpectedEof] by (simp_all add: crashed_def wal_read_def wal_header_bytes_def)

text \<open>
  C12: a torn tail stops recovery. When the crash cut the last record of the log short, which is what a crash
  in the middle of an append leaves, recovery reports \<open>UnexpectedEof\<close> and installs nothing, however much
  committed work the readable part of the log holds; the log is left as it is, so every later attempt
  fails in the same way.
\<close>

theorem torn_tail_stops_recovery:
  assumes "log_ok crc compress decompress log" and "no_ownership (stamp 8 log)"
    and "log_entry crc compress decompress (xs @ ys) f" and "xs \<noteq> []" and "ys \<noteq> []" and "\<not> (\<exists>r. f = FPageOwnership r)"
  defines "torn \<equiv> encode_wal_file_header @ concat (map fst log) @ xs"
  shows "\<exists>p'. recover order crc compress decompress p (Some torn) = Some (Inl (CkIo UnexpectedEof), p', Some torn) \<and> pages p' = pages p"
proof -
  have "wal_read crc decompress torn = Inr (stamp 8 log, Some UnexpectedEof)"
    using wal_scan_log [OF assms(1), of 8 xs] torn_scan [OF assms(3-6)] by (simp add: torn_def wal_read_def wal_header_bytes_def)
  with assms(2) show ?thesis by (intro recover_failed_read) blast
qed

theorem torn_tail_stops_recovery_witness:
  "\<exists>p'. recover (\<lambda>m. m) demo_crc demo_compress demo_decompress demo_pager
      (Some (encode_wal_file_header @ the (wal_encode demo_crc demo_compress (FBegin 7)) @ [2])) =
    Some (Inl (CkIo UnexpectedEof), p',
      Some (encode_wal_file_header @ the (wal_encode demo_crc demo_compress (FBegin 7)) @ [2]))"
proof -
  obtain bs where bs: "log_entry demo_crc demo_compress demo_decompress bs (FBegin 7)"
    using log_entry_encodable [OF _ demo_zstd, of demo_crc "FBegin 7"] by (auto simp: encodable_def)
  obtain cs where cs: "log_entry demo_crc demo_compress demo_decompress cs (FCommit 7)"
    using log_entry_encodable [OF _ demo_zstd, of demo_crc "FCommit 7"] by (auto simp: encodable_def)
  have cut: "cs = [2] @ tl cs" "tl cs \<noteq> []"
  proof -
    have "wal_encode demo_crc demo_compress (FCommit 7) = Some cs" using cs unfolding log_entry_def by blast
    then have "cs = [2] @ u64_le 1 @ u64_le 0 @ u64_le 7 @ u32_le (demo_crc ([2] @ u64_le 1 @ u64_le 0 @ u64_le 7))"
      unfolding demo_encode(2) by simp
    then show "cs = [2] @ tl cs" "tl cs \<noteq> []" by simp_all
  qed
  have log: "log_ok demo_crc demo_compress demo_decompress [(bs, FBegin 7)]" "no_ownership (stamp 8 [(bs, FBegin 7)])"
    using bs by (simp_all add: log_ok_def no_ownership_def)
  have bytes: "the (wal_encode demo_crc demo_compress (FBegin 7)) = concat (map fst [(bs, FBegin 7)])"
    using bs by (simp add: log_entry_def)
  have cs': "log_entry demo_crc demo_compress demo_decompress ([2] @ tl cs) (FCommit 7)"
    using cs cut(1) by simp
  have "\<not> (\<exists>r. FCommit 7 = FPageOwnership r)" by simp
  from torn_tail_stops_recovery [OF log cs' _ cut(2) this, of "\<lambda>m. m" demo_pager] show ?thesis
    unfolding bytes by (elim exE conjE meta_impE) (simp, rule exI)
qed

end
