(* ===== verification/Wal_Reopen.thy ===== *)
theory Wal_Reopen
  imports Wal_Log
begin

section \<open>Appending to a log that ends in a torn record\<close>

text \<open>
  What \<open>src/crates/reddb-server/src/storage/unified/store/commit.rs\<close> does with a log whose tail a crash cut: the
  coordinator opens the writer at the end of the file (\<open>StoreCommitCoordinator::open\<close>), replay stops at the
  cut record without error, and new records are appended behind it. The readers of the decoder are
  local: what they return depends only on the bytes they consume. So a scan that starts inside the cut
  record never resumes at the first record written behind it.
\<close>

definition local_rd :: "'a wal_reader \<Rightarrow> bool" where
  "local_rd p \<longleftrightarrow> shrinks p \<and>
     (\<forall>a b seen v r seen'. p (a @ b, seen) = Inr (v, (r, seen')) \<longrightarrow> length b \<le> length r \<longrightarrow>
        (\<exists>c. r = c @ b \<and> p (a, seen) = Inr (v, (c, seen'))))"

lemma local_rdD:
  assumes "local_rd p" and "p (a @ b, seen) = Inr (v, (r, seen'))" and "length b \<le> length r"
  obtains c where "r = c @ b" and "p (a, seen) = Inr (v, (c, seen'))"
  using assms unfolding local_rd_def by blast

lemma local_rd_shrinks: "local_rd p \<Longrightarrow> shrinks p"
  by (simp add: local_rd_def)

lemma local_rd_bind [intro!]: 
  assumes p: "local_rd p" and f: "\<And>x. local_rd (f x)"
  shows "local_rd (rd_bind p f)"
  unfolding local_rd_def
proof (intro conjI allI impI)
  show "shrinks (rd_bind p f)" by (rule shrinks_bind) (rule local_rd_shrinks, rule p f)+
  fix a b seen v r seen'
  assume run: "rd_bind p f (a @ b, seen) = Inr (v, (r, seen'))" and len: "length b \<le> length r"
  obtain x r1 seen1 where 1: "p (a @ b, seen) = Inr (x, (r1, seen1))" and 2: "f x (r1, seen1) = Inr (v, (r, seen'))"
    using run by (auto simp: rd_bind_def split: sum.splits prod.splits)
  have "length r \<le> length r1" using shrinksD [OF local_rd_shrinks [OF f] 2] by simp
  then obtain c1 where c1: "r1 = c1 @ b" "p (a, seen) = Inr (x, (c1, seen1))"
    using len by (elim local_rdD [OF p 1 order_trans])
  obtain c where "r = c @ b" "f x (c1, seen1) = Inr (v, (c, seen'))"
    by (rule local_rdD [OF f 2 [unfolded c1(1)] len])
  with c1(2) show "\<exists>c. r = c @ b \<and> rd_bind p f (a, seen) = Inr (v, (c, seen'))"
    by (simp add: rd_bind_def)
qed

lemma local_rd_basic [intro!]:
  "local_rd (rd_return x)" "local_rd (rd_lift q)" "local_rd (rd_fail e)" "local_rd (read_array_tracked n)"
proof -
  show "local_rd (rd_return x)" "local_rd (rd_lift q)" "local_rd (rd_fail e)"
    by (auto simp: local_rd_def rd_return_def rd_lift_def rd_fail_def split: sum.splits)
  have "\<exists>c. r = c @ b \<and> read_array_tracked n (a, seen) = Inr (v, (c, seen'))"
    if run: "read_array_tracked n (a @ b, seen) = Inr (v, (r, seen'))" and len: "length b \<le> length r" for a b seen v r seen'
  proof -
    have "n \<le> length a" using run len by (auto simp: read_array_tracked_def split: if_splits)
    then show ?thesis using run by (auto simp: read_array_tracked_def split: if_splits)
  qed
  then show "local_rd (read_array_tracked n)" unfolding local_rd_def by (intro conjI allI impI shrinks_basic)
qed

lemma local_rd_map_err [intro!]: "local_rd p \<Longrightarrow> local_rd (rd_map_err f p)"
  unfolding local_rd_def by (intro conjI shrinks_map_err) (simp_all add: rd_map_err_def map_err_Inr)

lemma local_rd_times [intro!]: "local_rd p \<Longrightarrow> local_rd (rd_times n p)"
  by (induction n) auto

lemma local_rd_readers [intro!]:
  "local_rd read_u64_tracked" "local_rd read_u32_tracked" "local_rd read_u8_tracked" "local_rd read_bytes_tracked"
  "local_rd read_compression_tracked"
  by (auto simp: read_u64_tracked_def read_u32_tracked_def read_u8_tracked_def read_bytes_tracked_def
      read_compression_tracked_def)

lemma local_rd_frame: "local_rd (read_frame crc decompress version rt)"
  by (cases rt) auto

lemma local_rd_authority: "local_rd (read_authority rt version d)"
  by (auto simp: read_authority_def)

lemma decode_local:
  assumes "decode_main_wal_record_frame crc decompress version d (a @ b) = Inr (Some (t, f, rest))" and "length b \<le> length rest" and "a \<noteq> []"
  shows "\<exists>c. decode_main_wal_record_frame crc decompress version d a = Inr (Some (t, f, c))"
proof -
  obtain tag a' where a: "a = tag # a'" using assms(3) by (cases a) auto
  let ?d = "\<lparr>auth_term = d, auth_ownership_epoch = None\<rparr>"
  from assms(1) obtain rt au q1 e1 q2 e2 where rt: "record_type_from_u8 tag = Some rt"
    and r1: "read_authority rt version ?d (a' @ b, [tag]) = Inr (au, (q1, e1))"
    and r2: "read_frame crc decompress version rt (q1, e1) = Inr (f, (q2, e2))"
    and fin: "\<not> length q2 < 4" "crc e2 = u32_of_le (take 4 q2)" "rest = drop 4 q2" and t: "t = auth_term au"
    by (auto simp: a decode_main_wal_record_frame_def decode_main_wal_record_frame_with_authority_def and_then_Inr ok_or_Inr
        mk_cursor_def split: if_splits)
  have len2: "length b + 4 \<le> length q2" using assms(2) fin by simp
  have "length q2 \<le> length q1" using shrinksD [OF local_rd_shrinks [OF local_rd_frame] r2] by simp
  with len2 have len1: "length b \<le> length q1" and len: "length b \<le> length q2" by simp_all
  obtain c1 where c1: "q1 = c1 @ b" "read_authority rt version ?d (a', [tag]) = Inr (au, (c1, e1))"
    by (rule local_rdD [OF local_rd_authority r1 len1])
  obtain c2 where c2: "q2 = c2 @ b" "read_frame crc decompress version rt (c1, e1) = Inr (f, (c2, e2))"
    by (rule local_rdD [OF local_rd_frame r2 [unfolded c1(1)] len])
  have "4 \<le> length c2" using len2 c2(1) by simp
  then have "decode_main_wal_record_frame crc decompress version d a = Inr (Some (t, f, drop 4 c2))"
    using rt c1(2) c2 fin(2) t
    by (simp add: a decode_main_wal_record_frame_def decode_main_wal_record_frame_with_authority_def mk_cursor_def)
  then show ?thesis by blast
qed

lemma wal_scan_positions:
  "(l, f) \<in> set (fst (wal_scan crc decompress version pos input)) \<Longrightarrow> pos \<le> l"
proof (induction crc decompress version pos input rule: wal_scan.induct)
  case (1 crc decompress version pos input)
  show ?case
  proof (cases "decode_main_wal_record_frame crc decompress version wal_default_term input")
    case (Inl e)
    with 1(2) show ?thesis by (simp add: wal_scan.simps [of _ _ _ _ input])
  next
    case (Inr r)
    show ?thesis
    proof (cases r)
      case None
      with Inr 1(2) show ?thesis by (simp add: wal_scan.simps [of _ _ _ _ input])
    next
      case (Some q)
      obtain t g rest where q: "q = (t, g, rest)" by (cases q)
      have "l = pos \<or> (l, f) \<in> set (fst (wal_scan crc decompress version (pos + (length input - length rest)) rest))"
        using 1(2) Inr Some q by (auto simp: wal_scan.simps [of _ _ _ _ input] split: prod.splits)
      then show ?thesis using 1(1) [OF Inr Some q [symmetric] refl] by auto
    qed
  qed
qed

lemma scan_skips:
  assumes "decode_main_wal_record_frame crc decompress version wal_default_term xs = Inl e" and "xs \<noteq> []"
    and "(l, f) \<in> set (fst (wal_scan crc decompress version pos (xs @ tail)))"
  shows "l \<noteq> pos + length xs"
proof (cases "decode_main_wal_record_frame crc decompress version wal_default_term (xs @ tail)")
  case (Inl e')
  with assms(3) show ?thesis by (simp add: wal_scan.simps [of _ _ _ _ "xs @ tail"])
next
  case (Inr r)
  with assms(3) obtain t g rest where r: "r = Some (t, g, rest)"
    and l: "l = pos \<or> (l, f) \<in> set (fst (wal_scan crc decompress version (pos + (length (xs @ tail) - length rest)) rest))"
    by (auto simp: wal_scan.simps [of _ _ _ _ "xs @ tail"] split: option.splits prod.splits)
  have "length rest < length tail"
    using decode_local [OF Inr [unfolded r] _ assms(2)] assms(1) by (rule_tac ccontr) auto
  with l assms(2) show ?thesis by (auto dest!: wal_scan_positions)
qed

lemma scan_log_skips:
  assumes "log_ok crc compress decompress log" and "decode_main_wal_record_frame crc decompress wal_file_version wal_default_term xs = Inl e"
    and "xs \<noteq> []" and "(l, f) \<in> set (fst (wal_scan crc decompress wal_file_version pos (concat (map fst log) @ xs @ tail)))"
  shows "l \<noteq> pos + length (concat (map fst log) @ xs)"
proof -
  have below: "(l, f) \<in> set (stamp pos log) \<Longrightarrow> l \<le> pos + length (concat (map fst log))"
    by (induction pos log rule: stamp.induct) fastforce+
  let ?p = "pos + length (concat (map fst log))"
  consider "(l, f) \<in> set (stamp pos log)" | "(l, f) \<in> set (fst (wal_scan crc decompress wal_file_version ?p (xs @ tail)))"
    using assms(4) wal_scan_log [OF assms(1), of pos "xs @ tail"] by (auto split: prod.splits)
  then show ?thesis
  proof cases
    case 1
    then show ?thesis using below assms(3) by fastforce
  next
    case 2
    from scan_skips [OF assms(2,3) this] show ?thesis by (simp add: add.assoc)
  qed
qed

text \<open>
  C21: a record committed behind a torn tail is lost. If a crash cut the last record of the log, the log is
  opened for writing as it is and a record is appended and synced, then no later scan returns that record
  at the position the append returned, whatever is appended behind it.
\<close>

theorem append_after_torn_tail_lost:
  assumes "log_ok crc compress decompress log" and "log_entry crc compress decompress (xs @ ys) lost" and "xs \<noteq> []" and "ys \<noteq> []"
    and "wal_append crc compress f (wal_open (encode_wal_file_header @ concat (map fst log) @ xs)) = Some (l, w)"
    and "wal_read crc decompress (wal_content (wal_sync w) @ later) = Inr (items, failure)"
  shows "(l, g) \<notin> set items"
proof
  assume item: "(l, g) \<in> set items"
  obtain bs where w: "wal_content w = encode_wal_file_header @ concat (map fst log) @ xs @ bs"
    and l: "l = 8 + length (concat (map fst log) @ xs)"
    using assms(3,5) by (auto simp: wal_append_def wal_append_bytes_def wal_open_def)
  have "items = fst (wal_scan crc decompress wal_file_version 8 (concat (map fst log) @ xs @ bs @ later))"
    using assms(6) by (auto simp: w wal_sync_def wal_read_def wal_header_bytes_def)
  moreover have "decode_main_wal_record_frame crc decompress wal_file_version wal_default_term xs = Inl (torn_error lost)"
    using assms(2-4) unfolding log_entry_def by blast
  ultimately show False
    using scan_log_skips [OF assms(1) _ assms(3)] item l by blast
qed

definition demo_torn :: wal_writer where
  "demo_torn = snd (the (wal_append demo_crc demo_compress (FCommit 7) (wal_open (encode_wal_file_header @ [1]))))"

theorem append_after_torn_tail_lost_witness:
  "(9, FCommit 7) \<notin> set (fst (projr (wal_read demo_crc demo_decompress (wal_content (wal_sync demo_torn)))))"
proof -
  obtain cs where cs: "log_entry demo_crc demo_compress demo_decompress cs (FBegin 7)"
    using log_entry_encodable [OF _ demo_zstd, of demo_crc "FBegin 7"] by (auto simp: encodable_def)
  then have "wal_encode demo_crc demo_compress (FBegin 7) = Some cs" unfolding log_entry_def by blast
  then have cut: "cs = [1] @ tl cs" "tl cs \<noteq> []" unfolding demo_encode(1) by auto
  have append: "wal_append demo_crc demo_compress (FCommit 7) (wal_open (encode_wal_file_header @ concat (map fst []) @ [1])) = Some (9, demo_torn)"
    by (simp add: demo_torn_def wal_append_def demo_encode(2) wal_append_bytes_def wal_open_def)
  have read: "wal_read demo_crc demo_decompress (wal_content (wal_sync demo_torn) @ []) =
      Inr (fst (projr (wal_read demo_crc demo_decompress (wal_content (wal_sync demo_torn)))),
        snd (projr (wal_read demo_crc demo_decompress (wal_content (wal_sync demo_torn)))))"
    by (simp add: demo_torn_def wal_append_def demo_encode(2) wal_append_bytes_def wal_open_def wal_sync_def wal_read_def
        wal_header_bytes_def)
  have "log_ok demo_crc demo_compress demo_decompress []" by (simp add: log_ok_def)
  from append_after_torn_tail_lost [OF this _ _ cut(2) append read] cs cut(1) show ?thesis by (metis list.distinct(1))
qed

end
