(* ===== verification/Group_Commit.thy ===== *)
theory Group_Commit
  imports Wal_Log
begin

section \<open>Group commit\<close>

text \<open>
  The commit coordinator of \<open>src/crates/reddb-server/src/storage/unified/store/commit.rs\<close>: committers put encoded
  batches into an append queue that reserves their byte range of the log, a background flusher drains the
  queue into the writer and syncs it, and a committer in grouped mode waits until the published durable
  position covers its range. Strict mode appends and syncs inline; asynchronous mode does not wait, except
  for page-ownership records. Each critical section of the source (the queue mutex, the writer mutex, the
  state mutex) is one step; the epoch lock, which a checkpoint takes exclusively, is the guard of the
  truncation step and of the release of the log after a page-ownership epoch. Both read the log file; without
  device faults nothing is left in the writer's buffer while the lock is held exclusively. Any caller may
  also sync the log (\<open>force_sync\<close>) or wait for what is queued (\<open>sync_pending\<close>). The atomics that record the kinds of records in the log are read by truncation only, so
  storing them is part of the append step. The clock of the commit window only delays the flusher, so it is
  left out. Truncation is the one after a runtime checkpoint (\<open>truncate_inner(true)\<close>); the rewrite
  that retains runtime records without a checkpoint is left out. A failed write appends nothing and keeps
  the position, as \<open>VfsBufWriter::write_all\<close> does when its buffer cannot be drained.
\<close>

datatype durability_mode = Strict | WalDurableGrouped | Async

record gc_state =
  gc_mode :: durability_mode
  gc_wal :: wal_writer
  queue_next :: nat
  queue_entries :: "(nat \<times> bytes) list"
  queued_bytes :: nat
  pub_durable :: nat
  pending_target :: nat
  pending_statements :: nat
  pending_bytes :: nat
  last_error :: "string option"
  wal_generation :: nat
  ownership_wal_state :: nat
  runtime_wal_state :: nat

subsection \<open>The append queue\<close>

definition enqueue :: "bytes \<Rightarrow> gc_state \<Rightarrow> nat \<times> gc_state" where
  "enqueue bs s =
     (let start = queue_next s; end_lsn = wrapping_add64 start (length bs) in
      (end_lsn, s\<lparr>queue_next := end_lsn, queue_entries := queue_entries s @ [(start, bs)],
                  queued_bytes := wrapping_add64 (queued_bytes s) (length bs)\<rparr>))"

definition drain_sorted :: "gc_state \<Rightarrow> (nat \<times> bytes) list \<times> gc_state" where
  "drain_sorted s =
     (let v = queue_entries s; drained = sum_list (map (length \<circ> snd) v) in
      (sort_key fst v, s\<lparr>queue_entries := [], queued_bytes := queued_bytes s - drained\<rparr>))"

definition has_pending :: "gc_state \<Rightarrow> bool" where
  "has_pending s \<longleftrightarrow> queue_entries s \<noteq> []"

definition queue_reset :: "nat \<Rightarrow> gc_state \<Rightarrow> gc_state" where
  "queue_reset next_lsn s = s\<lparr>queue_next := next_lsn, queue_entries := [], queued_bytes := 0\<rparr>"

subsection \<open>The coordinator\<close>

definition gc_open :: "durability_mode \<Rightarrow> bytes \<Rightarrow> gc_state" where
  "gc_open mode wal_file =
     (let w = wal_open wal_file in
      \<lparr>gc_mode = mode, gc_wal = w, queue_next = current_lsn w, queue_entries = [], queued_bytes = 0,
       pub_durable = durable_lsn w, pending_target = durable_lsn w, pending_statements = 0, pending_bytes = 0,
       last_error = None, wal_generation = 0, ownership_wal_state = 0, runtime_wal_state = 0\<rparr>)"

text \<open>Entering \<open>wait_until_durable\<close>, and one turn of its waiting loop: \<open>None\<close> goes back to the condition variable.\<close>

definition register_wait :: "nat \<Rightarrow> nat \<Rightarrow> gc_state \<Rightarrow> gc_state" where
  "register_wait target wal_bytes s =
     s\<lparr>pending_target := max (pending_target s) target,
       pending_statements := saturating_add64 (pending_statements s) 1,
       pending_bytes := saturating_add64 (pending_bytes s) wal_bytes\<rparr>"

definition wait_turn :: "nat \<Rightarrow> gc_state \<Rightarrow> (string + unit) option" where
  "wait_turn target s =
     (case last_error s of
        Some e \<Rightarrow> Some (Inl e)
      | None \<Rightarrow> if pub_durable s \<ge> target then Some (Inr ()) else None)"

text \<open>Entering \<open>sync_pending\<close>, with the end of the queue read before.\<close>

definition register_barrier :: "nat \<Rightarrow> gc_state \<Rightarrow> gc_state" where
  "register_barrier target s =
     s\<lparr>pending_target := max (pending_target s) target, pending_statements := saturating_add64 (pending_statements s) 1\<rparr>"

text \<open>The second half of \<open>force_sync\<close>, after the writer mutex is released with the position it synced.\<close>

definition publish_sync :: "nat \<Rightarrow> gc_state \<Rightarrow> gc_state" where
  "publish_sync durable s =
     s\<lparr>pub_durable := durable, pending_target := max durable (pending_target s), pending_statements := 0,
       pending_bytes := 0, last_error := None\<rparr>"

definition append_batches :: "(nat \<times> bytes) list \<Rightarrow> wal_writer \<Rightarrow> wal_writer" where
  "append_batches batches w = foldl (\<lambda>w b. snd (wal_append_bytes (snd b) w)) w batches"

text \<open>The checks of \<open>truncate_inner\<close> on the drained entries: an entry must start where the writer stands.\<close>

fun append_checked :: "(nat \<times> bytes) list \<Rightarrow> wal_writer \<Rightarrow> (string \<times> wal_writer) + wal_writer" where
  "append_checked [] w = Inr w"
| "append_checked ((off, bs) # rest) w =
     (if off \<noteq> current_lsn w then Inl (''WAL queue offset differs from writer'', w)
      else append_checked rest (snd (wal_append_bytes bs w)))"

text \<open>The scans of the log for records that forbid or restrict truncation; \<open>rd\<close> is the log reader.\<close>

type_synonym wal_reader = "bytes \<Rightarrow> io_error + ((nat \<times> main_wal_record_frame) list \<times> io_error option)"

definition is_ownership :: "main_wal_record_frame \<Rightarrow> bool" where
  "is_ownership f = (case f of FPageOwnership _ \<Rightarrow> True | _ \<Rightarrow> False)"

definition is_runtime :: "main_wal_record_frame \<Rightarrow> bool" where
  "is_runtime f = (case f of FProbabilisticDelta _ _ _ _ \<Rightarrow> True | FVectorInsert _ _ _ \<Rightarrow> True | _ \<Rightarrow> False)"

definition scan_ownership :: "wal_reader \<Rightarrow> gc_state \<Rightarrow> io_error + nat" where
  "scan_ownership rd s =
     (if ownership_wal_state s \<noteq> 0 then Inr (ownership_wal_state s)
      else and_then (rd (wal_content (gc_wal s))) (\<lambda>(items, failure).
        if list_ex (is_ownership \<circ> snd) items then Inr 2
        else case failure of Some e \<Rightarrow> if e = UnexpectedEof then Inr 1 else Inl e | None \<Rightarrow> Inr 1))"

definition scan_runtime :: "wal_reader \<Rightarrow> gc_state \<Rightarrow> io_error + nat" where
  "scan_runtime rd s =
     (if runtime_wal_state s \<noteq> 0 then Inr (runtime_wal_state s)
      else and_then (rd (wal_content (gc_wal s))) (\<lambda>(items, failure).
        case failure of Some e \<Rightarrow> Inl e | None \<Rightarrow> Inr (if list_ex (is_runtime \<circ> snd) items then 2 else 1)))"

definition gc_reset :: "gc_state \<Rightarrow> gc_state" where
  "gc_reset s =
     (let w = wal_truncate (gc_wal s); s1 = queue_reset (current_lsn w) (s\<lparr>gc_wal := w\<rparr>) in
      s1\<lparr>wal_generation := wrapping_add64 (wal_generation s) 1, runtime_wal_state := 1, pub_durable := durable_lsn w,
         pending_target := durable_lsn w, pending_statements := 0, pending_bytes := 0, last_error := None\<rparr>)"

definition gc_truncate :: "wal_reader \<Rightarrow> gc_state \<Rightarrow> (io_error + unit) \<times> gc_state" where
  "gc_truncate rd s =
     (let (batches, s1) = drain_sorted s in
      case append_checked batches (gc_wal s1) of
        Inl (e, w) \<Rightarrow> (Inl (OtherError e), s1\<lparr>gc_wal := w\<rparr>)
      | Inr w \<Rightarrow>
          (let s2 = s1\<lparr>gc_wal := wal_sync w\<rparr> in
           case scan_ownership rd s2 of
             Inl e \<Rightarrow> (Inl e, s2)
           | Inr own \<Rightarrow>
               (let s3 = s2\<lparr>ownership_wal_state := own\<rparr> in
                if own = 2 then (Inl (OtherError ''cannot truncate WAL while page ownership records require recovery''), s3)
                else case scan_runtime rd s3 of Inl e \<Rightarrow> (Inl e, s3) | Inr _ \<Rightarrow> (Inr (), gc_reset s3))))"

text \<open>
  The release of the log after a page-ownership epoch: the log is read to its end, its ownership records must
  form a journal with no epoch pending, the last of them a finish record. Only then may a truncation follow.
\<close>

definition journal_item ::
  "(bytes \<Rightarrow> u32) \<Rightarrow> bytes \<times> page_ownership_record option \<Rightarrow> nat \<times> main_wal_record_frame \<Rightarrow>
   io_error + bytes \<times> page_ownership_record option" where
  "journal_item crc st item =
     (case snd item of
        FPageOwnership r \<Rightarrow> and_then (own_encode crc r) (\<lambda>bs. Inr (fst st @ bs, Some r))
      | _ \<Rightarrow> Inr st)"

definition completed_journal :: "(bytes \<Rightarrow> u32) \<Rightarrow> wal_reader \<Rightarrow> gc_state \<Rightarrow> io_error + bytes \<times> page_ownership_record option" where
  "completed_journal crc rd s =
     and_then (rd (wal_content (gc_wal s))) (\<lambda>(items, failure).
       and_then (try_fold (journal_item crc) ([], None) items) (\<lambda>st.
         case failure of
           Some e \<Rightarrow> Inl (if e = UnexpectedEof then InvalidData ''incomplete WAL before ownership completion'' else e)
         | None \<Rightarrow> Inr st))"

definition is_finish :: "page_ownership_record option \<Rightarrow> bool" where
  "is_finish r = (case r of Some (OwnFinish _) \<Rightarrow> True | _ \<Rightarrow> False)"

definition release_completed_ownership_wal :: "(bytes \<Rightarrow> u32) \<Rightarrow> wal_reader \<Rightarrow> gc_state \<Rightarrow> (io_error + unit) \<times> gc_state" where
  "release_completed_ownership_wal crc rd s =
     (case and_then (completed_journal crc rd s) (\<lambda>(journal, last_record).
        and_then (pending_epoch crc journal) (\<lambda>pending.
          if pending \<noteq> None \<or> \<not> is_finish last_record then Inl (OtherError ''page ownership WAL is not complete'') else Inr ())) of
        Inl e \<Rightarrow> (Inl e, s)
      | Inr _ \<Rightarrow> (Inr (), s\<lparr>ownership_wal_state := 1\<rparr>))"

subsection \<open>Committers and the flusher\<close>

text \<open>
  What a committer appends: a batch of actions, a runtime record (a probabilistic delta or a vector), or
  page-ownership records. Where the flusher stands in its loop: waiting, woken, holding drained batches,
  holding the outcome of a write, holding it with the answer of \<open>has_pending\<close>. Where a committer stands; the
  same callers may instead sync the log (\<open>force_sync\<close>) or wait for what is queued (\<open>sync_pending\<close>).
\<close>

datatype append_kind = Batch | Runtime | Ownership

definition mark_append :: "append_kind \<Rightarrow> gc_state \<Rightarrow> gc_state" where
  "mark_append k s =
     (case k of Batch \<Rightarrow> s | Runtime \<Rightarrow> s\<lparr>runtime_wal_state := 2\<rparr> | Ownership \<Rightarrow> s\<lparr>ownership_wal_state := 2\<rparr>)"

datatype flusher =
    FWait | FWoken | FWriting "(nat \<times> bytes) list" | FWritten "string + nat" | FChecked "string + nat" bool

datatype committer =
    CIdle | CQueued append_kind nat bytes | CWaiting nat bytes | CAppended nat bytes | CSynced nat bytes nat
  | CAcked nat bytes | CReturned | CFailed string | CSyncing nat | CBarrier bool nat

type_synonym gc_config = "gc_state \<times> flusher \<times> (nat \<Rightarrow> committer)"

definition leased :: "committer \<Rightarrow> bool" where
  "leased c \<longleftrightarrow>
     (case c of CQueued _ _ _ \<Rightarrow> True | CWaiting _ _ \<Rightarrow> True | CAppended _ _ \<Rightarrow> True | CSynced _ _ _ \<Rightarrow> True
      | CSyncing _ \<Rightarrow> True | CBarrier _ _ \<Rightarrow> True | _ \<Rightarrow> False)"

definition flusher_publish :: "string + nat \<Rightarrow> bool \<Rightarrow> gc_state \<Rightarrow> gc_state" where
  "flusher_publish outcome more_pending s =
     (case outcome of
        Inl e \<Rightarrow> s\<lparr>last_error := Some e\<rparr>
      | Inr durable \<Rightarrow>
          (let s1 = s\<lparr>pub_durable := durable, last_error := None\<rparr> in
           if more_pending then s1 else s1\<lparr>pending_statements := 0, pending_bytes := 0\<rparr>))"

inductive gc_step :: "(bytes \<Rightarrow> u32) \<Rightarrow> wal_reader \<Rightarrow> gc_config \<Rightarrow> gc_config \<Rightarrow> bool" for crc rd where
  enqueue: "gc_mode s \<noteq> Strict \<Longrightarrow> cs t = CIdle \<Longrightarrow> bs \<noteq> [] \<Longrightarrow> queue_next s + length bs \<le> u64_max \<Longrightarrow>
     gc_step crc rd (s, fl, cs)
       (snd (enqueue bs (mark_append k s)), fl, cs(t := CQueued k (fst (enqueue bs (mark_append k s)) - length bs) bs))"
| wait: "gc_mode s = WalDurableGrouped \<or> gc_mode s = Async \<and> k = Ownership \<Longrightarrow> cs t = CQueued k start bs \<Longrightarrow>
     gc_step crc rd (s, fl, cs) (register_wait (start + length bs) wal_bytes s, fl, cs(t := CWaiting start bs))"
| return_async: "gc_mode s = Async \<Longrightarrow> k \<noteq> Ownership \<Longrightarrow> cs t = CQueued k start bs \<Longrightarrow>
     gc_step crc rd (s, fl, cs) (register_wait (start + length bs) wal_bytes s, fl, cs(t := CReturned))"
| ack: "cs t = CWaiting start bs \<Longrightarrow> wait_turn (start + length bs) s = Some (Inr ()) \<Longrightarrow>
     gc_step crc rd (s, fl, cs) (s, fl, cs(t := CAcked start bs))"
| fail: "cs t = CWaiting start bs \<Longrightarrow> wait_turn (start + length bs) s = Some (Inl e) \<Longrightarrow>
     gc_step crc rd (s, fl, cs) (s, fl, cs(t := CFailed e))"
| strict_append: "gc_mode s = Strict \<Longrightarrow> cs t = CIdle \<Longrightarrow> bs \<noteq> [] \<Longrightarrow> current_lsn (gc_wal s) + length bs \<le> u64_max \<Longrightarrow>
     gc_step crc rd (s, fl, cs)
       ((mark_append k s)\<lparr>gc_wal := snd (wal_append_bytes bs (gc_wal s))\<rparr>, fl, cs(t := CAppended (current_lsn (gc_wal s)) bs))"
| strict_sync: "cs t = CAppended start bs \<Longrightarrow> w = wal_sync (gc_wal s) \<Longrightarrow>
     gc_step crc rd (s, fl, cs) (s\<lparr>gc_wal := w\<rparr>, fl, cs(t := CSynced start bs (durable_lsn w)))"
| strict_publish: "cs t = CSynced start bs durable \<Longrightarrow>
     gc_step crc rd (s, fl, cs) (publish_sync durable s, fl, cs(t := CAcked start bs))"
| force_sync: "cs t = CIdle \<Longrightarrow> w = wal_sync (gc_wal s) \<Longrightarrow>
     gc_step crc rd (s, fl, cs) (s\<lparr>gc_wal := w\<rparr>, fl, cs(t := CSyncing (durable_lsn w)))"
| force_publish: "cs t = CSyncing durable \<Longrightarrow> gc_step crc rd (s, fl, cs) (publish_sync durable s, fl, cs(t := CReturned))"
| sync_pending: "gc_mode s \<noteq> Strict \<Longrightarrow> cs t = CIdle \<Longrightarrow>
     gc_step crc rd (s, fl, cs) (s, fl, cs(t := CBarrier False (queue_next s)))"
| barrier: "cs t = CBarrier False target \<Longrightarrow> gc_step crc rd (s, fl, cs) (register_barrier target s, fl, cs(t := CBarrier True target))"
| barrier_done: "cs t = CBarrier True target \<Longrightarrow> wait_turn target s = Some (Inr ()) \<Longrightarrow>
     gc_step crc rd (s, fl, cs) (s, fl, cs(t := CReturned))"
| barrier_fail: "cs t = CBarrier True target \<Longrightarrow> wait_turn target s = Some (Inl e) \<Longrightarrow>
     gc_step crc rd (s, fl, cs) (s, fl, cs(t := CFailed e))"
| wake: "gc_mode s \<noteq> Strict \<Longrightarrow> pub_durable s < pending_target s \<Longrightarrow> gc_step crc rd (s, FWait, cs) (s, FWoken, cs)"
| drain: "gc_step crc rd (s, FWoken, cs) (snd (drain_sorted s), FWriting (fst (drain_sorted s)), cs)"
| flush: "w = wal_sync (append_batches batches (gc_wal s)) \<Longrightarrow>
     gc_step crc rd (s, FWriting batches, cs) (s\<lparr>gc_wal := w\<rparr>, FWritten (Inr (durable_lsn w)), cs)"
| check: "gc_step crc rd (s, FWritten outcome, cs) (s, FChecked outcome (has_pending s), cs)"
| publish: "gc_step crc rd (s, FChecked outcome more_pending, cs) (flusher_publish outcome more_pending s, FWait, cs)"
| truncate: "fl = FWait \<or> fl = FWoken \<Longrightarrow> \<forall>t. \<not> leased (cs t) \<Longrightarrow> gc_step crc rd (s, fl, cs) (snd (gc_truncate rd s), fl, cs)"
| release: "fl = FWait \<or> fl = FWoken \<Longrightarrow> \<forall>t. \<not> leased (cs t) \<Longrightarrow>
     gc_step crc rd (s, fl, cs) (snd (release_completed_ownership_wal crc rd s), fl, cs)"


inductive gc_reach :: "(bytes \<Rightarrow> u32) \<Rightarrow> wal_reader \<Rightarrow> gc_config \<Rightarrow> bool" for crc rd where
  start: "length wal_file \<le> u64_max \<Longrightarrow> gc_reach crc rd (gc_open mode wal_file, FWait, \<lambda>_. CIdle)"
| step: "gc_reach crc rd c \<Longrightarrow> gc_step crc rd c c' \<Longrightarrow> gc_reach crc rd c'"

subsection \<open>The offsets of the queue\<close>

fun contiguous :: "nat \<Rightarrow> (nat \<times> bytes) list \<Rightarrow> bool" where
  "contiguous pos [] = True"
| "contiguous pos ((off, bs) # rest) = (off = pos \<and> bs \<noteq> [] \<and> contiguous (pos + length bs) rest)"

definition batch_bytes :: "(nat \<times> bytes) list \<Rightarrow> bytes" where
  "batch_bytes batches = concat (map snd batches)"

definition in_flight :: "flusher \<Rightarrow> (nat \<times> bytes) list" where
  "in_flight fl = (case fl of FWriting batches \<Rightarrow> batches | _ \<Rightarrow> [])"

definition outcome_of :: "flusher \<Rightarrow> (string + nat) option" where
  "outcome_of fl = (case fl of FWritten r \<Rightarrow> Some r | FChecked r _ \<Rightarrow> Some r | _ \<Rightarrow> None)"

lemma contiguous_append [simp]:
  "contiguous pos (xs @ ys) \<longleftrightarrow> contiguous pos xs \<and> contiguous (pos + length (batch_bytes xs)) ys"
  by (induction pos xs rule: contiguous.induct) (auto simp: batch_bytes_def add.assoc)

lemma contiguous_sorted: "contiguous pos xs \<Longrightarrow> sorted (map fst xs) \<and> (\<forall>x \<in> set xs. pos \<le> fst x)"
  by (induction pos xs rule: contiguous.induct) fastforce+

lemma contiguous_sort [simp]: "contiguous pos xs \<Longrightarrow> sort_key fst xs = xs"
  using contiguous_sorted by (simp add: sort_key_id_if_sorted)

lemma contiguous_lookup:
  "contiguous pos xs \<Longrightarrow> (off, bs) \<in> set xs \<Longrightarrow> pos \<le> off \<and> take (length bs) (drop (off - pos) (batch_bytes xs)) = bs"
proof (induction pos xs rule: contiguous.induct)
  case (2 pos off' bs' rest)
  show ?case
  proof (cases "(off, bs) \<in> set rest")
    case True
    with 2 have IH: "pos + length bs' \<le> off" "take (length bs) (drop (off - (pos + length bs')) (batch_bytes rest)) = bs"
      by simp_all
    then have "drop (off - pos) (bs' @ batch_bytes rest) = drop (off - (pos + length bs')) (batch_bytes rest)"
      by simp
    with IH show ?thesis by (simp add: batch_bytes_def)
  next
    case False
    with 2 show ?thesis by (auto simp: batch_bytes_def)
  qed
qed simp

lemma contiguous_end: "contiguous pos xs \<Longrightarrow> (off, bs) \<in> set xs \<Longrightarrow> off + length bs \<le> pos + length (batch_bytes xs)"
  by (induction pos xs rule: contiguous.induct) (fastforce simp: batch_bytes_def)+

lemma append_batches_Nil [simp]: "append_batches [] w = w"
  by (simp add: append_batches_def)

lemma append_batches_ok:
  "contiguous (current_lsn w) xs \<Longrightarrow> current_lsn w + length (batch_bytes xs) \<le> u64_max \<Longrightarrow>
   append_batches xs w = w\<lparr>wal_content := wal_content w @ batch_bytes xs, current_lsn := current_lsn w + length (batch_bytes xs)\<rparr>"
proof (induction xs arbitrary: w)
  case Nil
  then show ?case by (simp add: batch_bytes_def)
next
  case (Cons x xs)
  obtain off bs where x: "x = (off, bs)" by (cases x)
  with Cons.prems have "wrapping_add64 (current_lsn w) (length bs) = current_lsn w + length bs"
    by (intro wrapping_add64_no_wrap) (simp add: batch_bytes_def)
  with Cons show ?case
    by (simp add: x append_batches_def wal_append_bytes_def batch_bytes_def add.assoc)
qed

lemma append_checked_ok:
  "contiguous (current_lsn w) xs \<Longrightarrow> current_lsn w + length (batch_bytes xs) \<le> u64_max \<Longrightarrow>
   append_checked xs w = Inr (append_batches xs w)"
proof (induction xs arbitrary: w)
  case (Cons x xs)
  obtain off bs where x: "x = (off, bs)" by (cases x)
  with Cons.prems have "wrapping_add64 (current_lsn w) (length bs) = current_lsn w + length bs"
    by (intro wrapping_add64_no_wrap) (simp add: batch_bytes_def)
  with Cons show ?case by (simp add: x append_batches_def wal_append_bytes_def batch_bytes_def add.assoc)
qed simp

definition logged :: "nat \<Rightarrow> bytes \<Rightarrow> wal_writer \<Rightarrow> bool" where
  "logged start bs w \<longleftrightarrow> take (length bs) (drop start (wal_content w)) = bs"

lemma logged_append: "logged start bs w \<Longrightarrow> wal_content w' = wal_content w @ more_bytes \<Longrightarrow> logged start bs w'"
proof -
  assume l: "logged start bs w" and w': "wal_content w' = wal_content w @ more_bytes"
  then have "length bs \<le> length (wal_content w) - start" by (metis length_drop length_take logged_def min.cobounded1)
  then show "logged start bs w'" using l w' by (cases "bs = []") (simp_all add: logged_def)
qed

lemma logged_bound: "logged start bs w \<Longrightarrow> bs \<noteq> [] \<Longrightarrow> start + length bs \<le> length (wal_content w)"
proof -
  assume "logged start bs w" and "bs \<noteq> []"
  then have "length bs \<le> length (wal_content w) - start" by (metis length_drop length_take logged_def min.cobounded1)
  with \<open>bs \<noteq> []\<close> show ?thesis by (cases bs) auto
qed

text \<open>
  The invariant of fault-free runs: the batches in flight and in the queue continue the log without gap or
  overlap, no position is published before it is durable, and a committer's batch is in the queue, in
  flight or in the log at its position.
\<close>

definition wal_inv :: "gc_state \<Rightarrow> flusher \<Rightarrow> bool" where
  "wal_inv s fl \<longleftrightarrow>
     (let w = gc_wal s; pend = in_flight fl @ queue_entries s in
      current_lsn w = length (wal_content w) \<and> current_lsn w \<le> u64_max \<and> durable_lsn w \<le> current_lsn w \<and>
      pub_durable s \<le> durable_lsn w \<and> contiguous (current_lsn w) pend \<and>
      (if gc_mode s = Strict then pend = [] \<and> fl = FWait
       else queue_next s = current_lsn w + length (batch_bytes pend) \<and> queue_next s \<le> u64_max) \<and>
      (\<forall>durable. outcome_of fl = Some (Inr durable) \<longrightarrow> durable \<le> durable_lsn w))"

definition committer_inv :: "gc_state \<Rightarrow> flusher \<Rightarrow> committer \<Rightarrow> bool" where
  "committer_inv s fl c \<longleftrightarrow>
     (case c of
        CQueued _ start bs \<Rightarrow> bs \<noteq> [] \<and> ((start, bs) \<in> set (in_flight fl @ queue_entries s) \<or> logged start bs (gc_wal s))
      | CWaiting start bs \<Rightarrow> bs \<noteq> [] \<and> ((start, bs) \<in> set (in_flight fl @ queue_entries s) \<or> logged start bs (gc_wal s))
      | CAppended start bs \<Rightarrow> bs \<noteq> [] \<and> logged start bs (gc_wal s)
      | CSynced start bs durable \<Rightarrow>
          bs \<noteq> [] \<and> logged start bs (gc_wal s) \<and> start + length bs \<le> durable \<and> durable \<le> durable_lsn (gc_wal s)
      | CSyncing durable \<Rightarrow> durable \<le> durable_lsn (gc_wal s)
      | _ \<Rightarrow> True)"

definition gc_inv :: "gc_config \<Rightarrow> bool" where
  "gc_inv c \<longleftrightarrow> wal_inv (fst c) (fst (snd c)) \<and> (\<forall>t. committer_inv (fst c) (fst (snd c)) (snd (snd c) t))"

lemma committer_inv_mono:
  assumes "committer_inv s fl c" and "set (in_flight fl @ queue_entries s) \<subseteq> set (in_flight fl' @ queue_entries s') \<union> {(off, bs). logged off bs (gc_wal s')}"
    and "\<And>off bs. logged off bs (gc_wal s) \<Longrightarrow> logged off bs (gc_wal s')" and "durable_lsn (gc_wal s) \<le> durable_lsn (gc_wal s')"
  shows "committer_inv s' fl' c"
  using assms by (cases c) (auto simp: committer_inv_def)

lemma wal_inv_open: "length wal_file \<le> u64_max \<Longrightarrow> wal_inv (gc_open mode wal_file) FWait"
  by (auto simp: wal_inv_def outcome_of_def gc_open_def wal_open_def Let_def in_flight_def batch_bytes_def wal_header_bytes_def u64_max_def)

lemma gc_inv_start: "length wal_file \<le> u64_max \<Longrightarrow> gc_inv (gc_open mode wal_file, FWait, \<lambda>_. CIdle)"
  by (simp add: gc_inv_def wal_inv_open committer_inv_def)

lemma in_flight_simps [simp]: "in_flight FWait = []" "in_flight FWoken = []" "in_flight (FWriting b) = b" "in_flight (FWritten r) = []"
    "in_flight (FChecked r m) = []" "outcome_of FWait = None" "outcome_of FWoken = None" "outcome_of (FWriting b) = None"
    "outcome_of (FWritten r) = Some r" "outcome_of (FChecked r m) = Some r"
  by (simp_all add: in_flight_def outcome_of_def)

lemma gc_invD:
  assumes "gc_inv (s, fl, cs)"
  shows "wal_inv s fl" and "committer_inv s fl (cs t)"
  using assms by (simp_all add: gc_inv_def)

lemma wal_invD:
  assumes "wal_inv s fl"
  shows "current_lsn (gc_wal s) = length (wal_content (gc_wal s))" "length (wal_content (gc_wal s)) \<le> u64_max"
    "durable_lsn (gc_wal s) \<le> length (wal_content (gc_wal s))" "pub_durable s \<le> durable_lsn (gc_wal s)"
    "contiguous (length (wal_content (gc_wal s))) (in_flight fl)"
    "contiguous (length (wal_content (gc_wal s)) + length (batch_bytes (in_flight fl))) (queue_entries s)"
    "gc_mode s = Strict \<Longrightarrow> in_flight fl = []" "gc_mode s = Strict \<Longrightarrow> queue_entries s = []" "gc_mode s = Strict \<Longrightarrow> fl = FWait"
    "gc_mode s \<noteq> Strict \<Longrightarrow> queue_next s = length (wal_content (gc_wal s)) + (length (batch_bytes (in_flight fl)) + length (batch_bytes (queue_entries s)))"
    "gc_mode s \<noteq> Strict \<Longrightarrow> queue_next s \<le> u64_max"
    "outcome_of fl = Some (Inr durable) \<Longrightarrow> durable \<le> durable_lsn (gc_wal s)"
  using assms unfolding wal_inv_def Let_def by (elim conjE; simp add: batch_bytes_def)+

lemma wal_invI:
  assumes "current_lsn (gc_wal s) = length (wal_content (gc_wal s))" and "length (wal_content (gc_wal s)) \<le> u64_max"
    and "durable_lsn (gc_wal s) \<le> length (wal_content (gc_wal s))" and "pub_durable s \<le> durable_lsn (gc_wal s)"
    and "contiguous (length (wal_content (gc_wal s))) (in_flight fl)"
    and "contiguous (length (wal_content (gc_wal s)) + length (batch_bytes (in_flight fl))) (queue_entries s)"
    and "gc_mode s = Strict \<Longrightarrow> in_flight fl = [] \<and> queue_entries s = [] \<and> fl = FWait"
    and "gc_mode s \<noteq> Strict \<Longrightarrow> queue_next s = length (wal_content (gc_wal s)) + (length (batch_bytes (in_flight fl)) + length (batch_bytes (queue_entries s)))
      \<and> queue_next s \<le> u64_max"
    and "\<And>durable. outcome_of fl = Some (Inr durable) \<Longrightarrow> durable \<le> durable_lsn (gc_wal s)"
  shows "wal_inv s fl"
  unfolding wal_inv_def Let_def using assms
  by (intro conjI allI impI; simp add: batch_bytes_def split: if_splits)

lemma gc_invI: "wal_inv s fl \<Longrightarrow> (\<And>t. committer_inv s fl (cs t)) \<Longrightarrow> gc_inv (s, fl, cs)"
  by (simp add: gc_inv_def)

lemma mark_append_simps [simp]:
  "gc_mode (mark_append k s) = gc_mode s" "gc_wal (mark_append k s) = gc_wal s" "queue_next (mark_append k s) = queue_next s"
  "queue_entries (mark_append k s) = queue_entries s" "pub_durable (mark_append k s) = pub_durable s"
  "pending_target (mark_append k s) = pending_target s" "last_error (mark_append k s) = last_error s"
  by (simp_all add: mark_append_def split: append_kind.splits)

text \<open>Steps that leave the log, the queue and the batches in flight alone.\<close>

lemma gc_inv_frame:
  assumes "gc_inv (s, fl, cs)" and "gc_mode s' = gc_mode s" and "gc_wal s' = gc_wal s" and "queue_next s' = queue_next s"
    and "queue_entries s' = queue_entries s" and "pub_durable s' \<le> durable_lsn (gc_wal s)" and "in_flight fl' = in_flight fl"
    and "\<And>d. outcome_of fl' = Some (Inr d) \<Longrightarrow> outcome_of fl = Some (Inr d)" and "gc_mode s = Strict \<Longrightarrow> fl' = FWait"
  shows "gc_inv (s', fl', cs)"
proof (rule gc_invI)
  show "wal_inv s' fl'"
    using wal_invD [OF gc_invD(1) [OF assms(1)]] assms(2-9) by (intro wal_invI) simp_all
  show "committer_inv s' fl' (cs t)" for t
    using gc_invD(2) [OF assms(1), of t] by (rule committer_inv_mono) (simp_all add: assms(3,5,7))
qed

lemma gc_inv_published: "gc_inv (s, fl, cs) \<Longrightarrow> pub_durable s \<le> durable_lsn (gc_wal s)"
  using gc_invD(1) wal_invD(4) by blast

lemma mark_append_inv: "gc_inv (s, fl, cs) \<Longrightarrow> gc_inv (mark_append k s, fl, cs)"
  by (rule gc_inv_frame) (auto dest: gc_inv_published wal_invD(9) [OF gc_invD(1)])

lemma enqueue_inv:
  assumes "gc_inv (s, fl, cs)" and "gc_mode s \<noteq> Strict" and "bs \<noteq> []" and "queue_next s + length bs \<le> u64_max"
  shows "gc_inv (snd (enqueue bs s), fl, cs(t := CQueued k (fst (enqueue bs s) - length bs) bs))"
proof -
  let ?s = "snd (enqueue bs s)"
  note inv = gc_invD(1) [OF assms(1)]
  have eq: "?s = s\<lparr>queue_next := queue_next s + length bs, queue_entries := queue_entries s @ [(queue_next s, bs)],
      queued_bytes := wrapping_add64 (queued_bytes s) (length bs)\<rparr>" "fst (enqueue bs s) - length bs = queue_next s"
    using assms(4) by (simp_all add: enqueue_def Let_def wrapping_add64_no_wrap)
  have "wal_inv ?s fl"
    using wal_invD [OF inv] assms(2-4) by (intro wal_invI) (simp_all add: eq batch_bytes_def)
  moreover have "committer_inv ?s fl (cs t')" for t'
    using gc_invD(2) [OF assms(1), of t'] by (rule committer_inv_mono) (auto simp: eq)
  moreover have "committer_inv ?s fl (CQueued k (queue_next s) bs)"
    using assms(3) by (simp add: committer_inv_def eq)
  ultimately show ?thesis by (simp add: gc_inv_def eq(2))
qed

lemma flush_wal:
  assumes "wal_inv s (FWriting batches)"
  shows "append_batches batches (gc_wal s) = (gc_wal s)\<lparr>wal_content := wal_content (gc_wal s) @ batch_bytes batches,
    current_lsn := current_lsn (gc_wal s) + length (batch_bytes batches)\<rparr>"
  using wal_invD [OF assms] by (intro append_batches_ok) (simp, cases "gc_mode s = Strict", simp_all)

lemma flush_inv:
  assumes "gc_inv (s, FWriting batches, cs)"
  defines "w \<equiv> wal_sync (append_batches batches (gc_wal s))"
  shows "gc_inv (s\<lparr>gc_wal := w\<rparr>, FWritten (Inr (durable_lsn w)), cs)"
proof (rule gc_invI)
  note inv = gc_invD(1) [OF assms(1)]
  have w: "wal_content w = wal_content (gc_wal s) @ batch_bytes batches"
      "current_lsn w = current_lsn (gc_wal s) + length (batch_bytes batches)" "durable_lsn w = current_lsn w"
    by (simp_all add: w_def wal_sync_def flush_wal [OF inv])
  have "gc_mode s \<noteq> Strict" using wal_invD(9) [OF inv] by auto
  then show "wal_inv (s\<lparr>gc_wal := w\<rparr>) (FWritten (Inr (durable_lsn w)))"
    using wal_invD [OF inv] by (intro wal_invI) (simp_all add: w batch_bytes_def)
  have "logged off bs w" if "(off, bs) \<in> set batches" for off bs
  proof -
    have "contiguous (length (wal_content (gc_wal s))) batches" using wal_invD(5) [OF inv] by simp
    from contiguous_lookup [OF this that] show ?thesis by (simp add: logged_def w)
  qed
  then show "committer_inv (s\<lparr>gc_wal := w\<rparr>) (FWritten (Inr (durable_lsn w))) (cs t)" for t
    using gc_invD(2) [OF assms(1), of t] by (rule_tac committer_inv_mono) (use wal_invD(1,3) [OF inv] in \<open>auto simp: w intro: logged_append [OF _ w(1)]\<close>)
qed

lemma drain_inv:
  assumes "gc_inv (s, FWoken, cs)"
  shows "gc_inv (snd (drain_sorted s), FWriting (fst (drain_sorted s)), cs)"
proof (rule gc_invI)
  note inv = gc_invD(1) [OF assms]
  have "contiguous (length (wal_content (gc_wal s))) (queue_entries s)"
    using wal_invD(6) [OF inv] by (simp add: batch_bytes_def)
  then have d: "drain_sorted s = (queue_entries s, s\<lparr>queue_entries := [],
      queued_bytes := queued_bytes s - sum_list (map (length \<circ> snd) (queue_entries s))\<rparr>)"
    by (simp add: drain_sorted_def Let_def)
  show "wal_inv (snd (drain_sorted s)) (FWriting (fst (drain_sorted s)))"
    using wal_invD [OF inv] by (intro wal_invI) (auto simp: d batch_bytes_def)
  show "committer_inv (snd (drain_sorted s)) (FWriting (fst (drain_sorted s))) (cs t)" for t
    using gc_invD(2) [OF assms, of t] by (rule committer_inv_mono) (simp_all add: d)
qed

lemma check_inv: "gc_inv (s, FWritten outcome, cs) \<Longrightarrow> gc_inv (s, FChecked outcome m, cs)"
  by (rule gc_inv_frame) (auto dest: gc_inv_published wal_invD(9) [OF gc_invD(1)])

lemma flusher_publish_simps [simp]:
  "gc_wal (flusher_publish outcome m s) = gc_wal s" "queue_entries (flusher_publish outcome m s) = queue_entries s"
  "gc_mode (flusher_publish outcome m s) = gc_mode s" "queue_next (flusher_publish outcome m s) = queue_next s"
  "pending_target (flusher_publish outcome m s) = pending_target s"
  "pub_durable (flusher_publish outcome m s) = (case outcome of Inl _ \<Rightarrow> pub_durable s | Inr d \<Rightarrow> d)"
  "last_error (flusher_publish outcome m s) = (case outcome of Inl e \<Rightarrow> Some e | Inr _ \<Rightarrow> None)"
  "ownership_wal_state (flusher_publish outcome m s) = ownership_wal_state s"
  by (simp_all add: flusher_publish_def Let_def split: sum.splits)

lemma publish_inv:
  assumes "gc_inv (s, FChecked outcome m, cs)"
  shows "gc_inv (flusher_publish outcome m s, FWait, cs)"
proof (rule gc_inv_frame [OF assms])
  show "pub_durable (flusher_publish outcome m s) \<le> durable_lsn (gc_wal s)"
    using gc_inv_published [OF assms] wal_invD(12) [OF gc_invD(1) [OF assms]] by (cases outcome) simp_all
qed simp_all

lemma committer_update:
  "gc_inv (s, fl, cs) \<Longrightarrow> committer_inv s fl c \<Longrightarrow> gc_inv (s, fl, cs(t := c))"
  by (simp add: gc_inv_def)

lemma strict_inv:
  assumes "gc_inv (s, fl, cs)" and "gc_mode s = Strict" and "bs \<noteq> []" and "current_lsn (gc_wal s) + length bs \<le> u64_max"
  shows "gc_inv (s\<lparr>gc_wal := snd (wal_append_bytes bs (gc_wal s))\<rparr>, fl, cs(t := CAppended (current_lsn (gc_wal s)) bs))"
proof (rule committer_update [OF gc_invI])
  let ?w = "snd (wal_append_bytes bs (gc_wal s))"
  note inv = gc_invD(1) [OF assms(1)]
  have w: "wal_content ?w = wal_content (gc_wal s) @ bs" "current_lsn ?w = current_lsn (gc_wal s) + length bs"
      "durable_lsn ?w = durable_lsn (gc_wal s)"
    using assms(4) by (simp_all add: wal_append_bytes_def wrapping_add64_no_wrap)
  have lsn: "current_lsn (gc_wal s) = length (wal_content (gc_wal s))"
    by (rule wal_invD(1) [OF inv])
  show "wal_inv (s\<lparr>gc_wal := ?w\<rparr>) fl"
    using wal_invD [OF inv] assms(2,4) by (intro wal_invI) (auto simp: w)
  show "committer_inv (s\<lparr>gc_wal := ?w\<rparr>) fl (cs t')" for t'
    using gc_invD(2) [OF assms(1), of t'] by (rule committer_inv_mono) (simp_all add: w(3) logged_append [OF _ w(1)])
  show "committer_inv (s\<lparr>gc_wal := ?w\<rparr>) fl (CAppended (current_lsn (gc_wal s)) bs)"
    using assms(3) lsn by (simp add: committer_inv_def logged_def w(1))
qed

lemma sync_inv:
  assumes "gc_inv (s, fl, cs)"
  defines "w \<equiv> wal_sync (gc_wal s)"
  shows "gc_inv (s\<lparr>gc_wal := w\<rparr>, fl, cs)"
proof (rule gc_invI)
  note inv = wal_invD [OF gc_invD(1) [OF assms(1)]]
  have w: "wal_content w = wal_content (gc_wal s)" "current_lsn w = current_lsn (gc_wal s)" "durable_lsn w = current_lsn (gc_wal s)"
    by (simp_all add: w_def wal_sync_def)
  show "wal_inv (s\<lparr>gc_wal := w\<rparr>) fl"
    using inv by (intro wal_invI) (auto simp: w intro: order_trans)
  show "committer_inv (s\<lparr>gc_wal := w\<rparr>) fl (cs t')" for t'
    using gc_invD(2) [OF assms(1), of t'] by (rule committer_inv_mono) (use inv(1,3) in \<open>simp_all add: w logged_def\<close>)
qed

lemma strict_sync_inv:
  assumes "gc_inv (s, fl, cs)" and "cs t = CAppended start bs"
  defines "w \<equiv> wal_sync (gc_wal s)"
  shows "gc_inv (s\<lparr>gc_wal := w\<rparr>, fl, cs(t := CSynced start bs (durable_lsn w)))"
proof (rule committer_update [OF sync_inv [OF assms(1), folded w_def]])
  have "bs \<noteq> []" "logged start bs (gc_wal s)" using gc_invD(2) [OF assms(1), of t] assms(2) by (simp_all add: committer_inv_def)
  then show "committer_inv (s\<lparr>gc_wal := w\<rparr>) fl (CSynced start bs (durable_lsn w))"
    using logged_bound [of start bs "gc_wal s"] wal_invD(1) [OF gc_invD(1) [OF assms(1)]]
    by (simp add: committer_inv_def logged_def w_def wal_sync_def)
qed

lemma force_sync_inv: "gc_inv (s, fl, cs) \<Longrightarrow>
  gc_inv (s\<lparr>gc_wal := wal_sync (gc_wal s)\<rparr>, fl, cs(t := CSyncing (durable_lsn (wal_sync (gc_wal s)))))"
  by (rule committer_update [OF sync_inv]) (simp_all add: committer_inv_def)

lemma publish_sync_inv:
  assumes "gc_inv (s, fl, cs)" and "cs t = CSynced start bs durable \<or> cs t = CSyncing durable" and "\<not> leased c"
  shows "gc_inv (publish_sync durable s, fl, cs(t := c))"
proof (rule committer_update [OF gc_inv_frame [OF assms(1)]])
  show "pub_durable (publish_sync durable s) \<le> durable_lsn (gc_wal s)"
    using gc_invD(2) [OF assms(1), of t] assms(2) by (auto simp: committer_inv_def publish_sync_def)
  show "fl = FWait" if "gc_mode s = Strict" by (rule wal_invD(9) [OF gc_invD(1) [OF assms(1)] that])
  show "committer_inv (publish_sync durable s) fl c" using assms(3) by (cases c) (simp_all add: committer_inv_def leased_def)
qed (simp_all add: publish_sync_def)

lemma register_barrier_inv:
  assumes "gc_inv (s, fl, cs)"
  shows "gc_inv (register_barrier target s, fl, cs(t := CBarrier b target))"
proof (rule committer_update [OF gc_inv_frame [OF assms]])
  show "fl = FWait" if "gc_mode s = Strict" by (rule wal_invD(9) [OF gc_invD(1) [OF assms] that])
qed (use gc_inv_published [OF assms] in \<open>simp_all add: register_barrier_def committer_inv_def\<close>)

lemma release_state: "\<exists>own. snd (release_completed_ownership_wal crc rd s) = s\<lparr>ownership_wal_state := own\<rparr>"
proof -
  have "s = s\<lparr>ownership_wal_state := ownership_wal_state s\<rparr>" by simp
  then show ?thesis by (simp only: release_completed_ownership_wal_def split: sum.split) (metis snd_conv)
qed

lemma release_inv:
  assumes "gc_inv (s, fl, cs)"
  shows "gc_inv (snd (release_completed_ownership_wal crc rd s), fl, cs)"
proof -
  obtain own where "snd (release_completed_ownership_wal crc rd s) = s\<lparr>ownership_wal_state := own\<rparr>" using release_state by blast
  then show ?thesis using gc_inv_published [OF assms] wal_invD(9) [OF gc_invD(1) [OF assms]]
    by (simp only:) (rule gc_inv_frame [OF assms], simp_all)
qed

text \<open>The state of a truncation after the queue went into the log, and the ways a truncation can end.\<close>

definition drained :: "gc_state \<Rightarrow> gc_state" where
  "drained s = (snd (drain_sorted s))\<lparr>gc_wal := wal_sync (append_batches (queue_entries s) (gc_wal s))\<rparr>"

lemma drained_log:
  assumes "gc_inv (s, fl, cs)" and "in_flight fl = []"
  shows "contiguous (current_lsn (gc_wal s)) (queue_entries s)"
    and "append_checked (queue_entries s) (gc_wal s) = Inr (append_batches (queue_entries s) (gc_wal s))"
    and "append_batches (queue_entries s) (gc_wal s) =
      (gc_wal s)\<lparr>wal_content := wal_content (gc_wal s) @ batch_bytes (queue_entries s),
        current_lsn := current_lsn (gc_wal s) + length (batch_bytes (queue_entries s))\<rparr>"
proof -
  note inv = wal_invD [OF gc_invD(1) [OF assms(1)]]
  show c: "contiguous (current_lsn (gc_wal s)) (queue_entries s)"
    using inv(1,6) assms(2) by (simp add: batch_bytes_def)
  have b: "current_lsn (gc_wal s) + length (batch_bytes (queue_entries s)) \<le> u64_max"
    using inv assms(2) by (cases "gc_mode s = Strict") (simp_all add: batch_bytes_def)
  from c b show "append_checked (queue_entries s) (gc_wal s) = Inr (append_batches (queue_entries s) (gc_wal s))"
    and "append_batches (queue_entries s) (gc_wal s) =
      (gc_wal s)\<lparr>wal_content := wal_content (gc_wal s) @ batch_bytes (queue_entries s),
        current_lsn := current_lsn (gc_wal s) + length (batch_bytes (queue_entries s))\<rparr>"
    by (rule append_checked_ok, rule append_batches_ok)
qed

lemma truncate_outcome:
  assumes "gc_inv (s, fl, cs)" and "in_flight fl = []"
  obtains (kept) own where "snd (gc_truncate rd s) = (drained s)\<lparr>ownership_wal_state := own\<rparr>"
      "ownership_wal_state s = 2 \<Longrightarrow> own = 2"
    | (reset) own where "snd (gc_truncate rd s) = gc_reset ((drained s)\<lparr>ownership_wal_state := own\<rparr>)"
      "ownership_wal_state s \<noteq> 2"
proof -
  note log = drained_log [OF assms]
  have d: "drain_sorted s = (queue_entries s, snd (drain_sorted s))"
    using log(1) by (simp add: drain_sorted_def Let_def)
  have wal: "gc_wal (snd (drain_sorted s)) = gc_wal s" and own: "ownership_wal_state (drained s) = ownership_wal_state s"
    by (simp_all add: drained_def drain_sorted_def Let_def)
  have eq: "gc_truncate rd s = (case scan_ownership rd (drained s) of Inl e \<Rightarrow> (Inl e, drained s)
      | Inr own \<Rightarrow> let s3 = (drained s)\<lparr>ownership_wal_state := own\<rparr> in
          if own = 2 then (Inl (OtherError ''cannot truncate WAL while page ownership records require recovery''), s3)
          else case scan_runtime rd s3 of Inl e \<Rightarrow> (Inl e, s3) | Inr _ \<Rightarrow> (Inr (), gc_reset s3))"
    unfolding gc_truncate_def by (subst d) (simp add: wal log(2) drained_def Let_def split: sum.split)
  show thesis
  proof (cases "scan_ownership rd (drained s)")
    case (Inl e)
    with kept [of "ownership_wal_state (drained s)"] own show thesis by (simp add: eq)
  next
    case (Inr st)
    have keep: "ownership_wal_state s = 2 \<Longrightarrow> st = 2" using Inr own by (simp add: scan_ownership_def)
    show thesis
    proof (cases "st = 2 \<or> (\<exists>e. scan_runtime rd ((drained s)\<lparr>ownership_wal_state := st\<rparr>) = Inl e)")
      case True
      with kept [of st] Inr keep show thesis by (auto simp: eq Let_def)
    next
      case False
      with reset [of st] Inr keep show thesis by (auto simp: eq Let_def split: sum.splits)
    qed
  qed
qed

lemma committer_inv_unleased: "\<not> leased c \<Longrightarrow> committer_inv s fl c"
  by (cases c) (simp_all add: committer_inv_def leased_def)

lemma drained_inv:
  assumes "gc_inv (s, fl, cs)" and "in_flight fl = []" and "outcome_of fl = None"
  shows "wal_inv ((drained s)\<lparr>ownership_wal_state := own\<rparr>) fl"
proof -
  have same: "queue_entries (drained s) = []" "gc_mode (drained s) = gc_mode s" "queue_next (drained s) = queue_next s"
      "pub_durable (drained s) = pub_durable s" "wal_content (gc_wal (drained s)) = wal_content (gc_wal s) @ batch_bytes (queue_entries s)"
      "current_lsn (gc_wal (drained s)) = current_lsn (gc_wal s) + length (batch_bytes (queue_entries s))"
      "durable_lsn (gc_wal (drained s)) = current_lsn (gc_wal (drained s))"
    by (simp_all add: drained_def drain_sorted_def Let_def wal_sync_def drained_log(3) [OF assms(1,2)])
  show ?thesis
    using wal_invD [OF gc_invD(1) [OF assms(1)]] assms(2,3)
    by (intro wal_invI) (cases "gc_mode s = Strict"; simp add: same batch_bytes_def)+
qed

lemma reset_inv:
  assumes "wal_inv s fl" and "in_flight fl = []" and "outcome_of fl = None"
  shows "wal_inv (gc_reset s) fl"
  using wal_invD(9) [OF assms(1)] assms(2,3)
  by (intro wal_invI) (auto simp: gc_reset_def queue_reset_def Let_def wal_truncate_def wal_header_bytes_def u64_max_def batch_bytes_def)

lemma truncate_inv:
  assumes "gc_inv (s, fl, cs)" and fl: "fl = FWait \<or> fl = FWoken" and "\<forall>t. \<not> leased (cs t)"
  shows "gc_inv (snd (gc_truncate rd s), fl, cs)"
proof -
  have flight: "in_flight fl = []" "outcome_of fl = None" using fl by auto
  have "wal_inv (snd (gc_truncate rd s)) fl"
    using truncate_outcome [OF assms(1) flight(1), of rd] drained_inv [OF assms(1) flight] reset_inv [OF _ flight] by metis
  then show ?thesis using assms(3) by (intro gc_invI committer_inv_unleased) simp_all
qed

lemma register_wait_inv:
  assumes "gc_inv (s, fl, cs)" and "committer_inv s fl c"
  shows "gc_inv (register_wait target n s, fl, cs(t := c))"
proof -
  have "wal_inv (register_wait target n s) fl"
    using wal_invD [OF gc_invD(1) [OF assms(1)]] by (intro wal_invI) (simp_all add: register_wait_def)
  moreover have "committer_inv (register_wait target n s) fl c'" if "committer_inv s fl c'" for c'
    using that by (rule committer_inv_mono) (simp_all add: register_wait_def)
  ultimately show ?thesis using gc_invD(2) [OF assms(1)] assms(2) by (simp add: gc_inv_def)
qed

lemma gc_step_inv: "gc_step crc rd c c' \<Longrightarrow> gc_inv c \<Longrightarrow> gc_inv c'"
proof (induction rule: gc_step.induct)
  case (enqueue s cs t bs fl k)
  then show ?case using enqueue_inv [OF mark_append_inv] by simp
next
  case (wait s k cs t start bs fl wal_bytes)
  then have "committer_inv s fl (CWaiting start bs)" using gc_invD(2) [OF wait(3), of t] by (simp add: committer_inv_def)
  then show ?case by (rule register_wait_inv [OF wait(3)])
next
  case (return_async s k cs t start bs fl wal_bytes)
  then show ?case by (intro register_wait_inv) (simp_all add: committer_inv_def)
next
  case (strict_append s cs t bs fl k)
  then show ?case using strict_inv [OF mark_append_inv] by simp
next
  case (wake s cs)
  show ?case by (rule gc_inv_frame [OF wake(3)]) (use wake(1) gc_inv_published [OF wake(3)] in simp_all)
next
  case (strict_publish cs t start bs durable s fl)
  then show ?case by (intro publish_sync_inv) (auto simp: leased_def)
next
  case (force_publish cs t durable s fl)
  then show ?case by (intro publish_sync_inv) (auto simp: leased_def)
qed (simp_all add: drain_inv check_inv publish_inv strict_sync_inv force_sync_inv register_barrier_inv release_inv truncate_inv flush_inv
  committer_update committer_inv_def)

lemma gc_reach_inv: "gc_reach crc rd c \<Longrightarrow> gc_inv c"
  by (induction rule: gc_reach.induct) (simp_all add: gc_inv_start gc_step_inv)

text \<open>
  C17: an acknowledged commit is durable. In every run without device faults, when a committer is
  acknowledged (in grouped mode after the published position covered it, in strict mode after its own
  sync), the bytes of its batch stand in the log at the position reserved for it, below the durable
  position of the log.
\<close>

theorem acked_commit_is_durable:
  assumes "gc_reach crc (wal_read crc decompress) (s, fl, cs)" and "gc_step crc (wal_read crc decompress) (s, fl, cs) (s', fl', cs')" and "cs' t = CAcked start bs" and "cs t \<noteq> CAcked start bs"
  shows "take (length bs) (drop start (wal_content (gc_wal s'))) = bs \<and> start + length bs \<le> durable_lsn (gc_wal s')"
proof -
  have inv: "gc_inv (s, fl, cs)" by (rule gc_reach_inv [OF assms(1)])
  from assms(2-4) consider
      "cs t = CWaiting start bs" "wait_turn (start + length bs) s = Some (Inr ())" "s' = s"
    | durable where "cs t = CSynced start bs durable" "s' = publish_sync durable s"
    by (cases rule: gc_step.cases) (auto split: if_splits)
  then show ?thesis
  proof cases
    case 1
    have pub: "start + length bs \<le> length (wal_content (gc_wal s))" "start + length bs \<le> durable_lsn (gc_wal s)"
      using 1(2) wal_invD(3,4) [OF gc_invD(1) [OF inv]] by (auto simp: wait_turn_def split: option.splits if_splits)
    have "bs \<noteq> []" and place: "(start, bs) \<in> set (in_flight fl @ queue_entries s) \<or> logged start bs (gc_wal s)"
      using gc_invD(2) [OF inv, of t] 1(1) by (simp_all add: committer_inv_def)
    have "contiguous (length (wal_content (gc_wal s))) (in_flight fl @ queue_entries s)"
      using wal_invD(5,6) [OF gc_invD(1) [OF inv]] by simp
    then have "(start, bs) \<in> set (in_flight fl @ queue_entries s) \<Longrightarrow> length (wal_content (gc_wal s)) \<le> start"
      using contiguous_lookup by blast
    with pub \<open>bs \<noteq> []\<close> place have "logged start bs (gc_wal s)" by (cases bs) auto
    with pub 1(3) show ?thesis by (simp add: logged_def)
  next
    case 2
    with gc_invD(2) [OF inv, of t] show ?thesis by (simp add: committer_inv_def publish_sync_def logged_def)
  qed
qed

subsection \<open>Concrete runs\<close>

text \<open>One commit in grouped mode, from the open log to the turn of the waiting loop that acknowledges it.\<close>

definition demo_queued :: gc_state where
  "demo_queued = register_wait 9 1 (snd (enqueue [1] (gc_open WalDurableGrouped [])))"

definition demo_flushed :: gc_state where
  "demo_flushed = (snd (drain_sorted demo_queued))\<lparr>gc_wal := wal_sync (append_batches [(8, [1])] (gc_wal demo_queued))\<rparr>"

abbreviation demo_committers :: "committer \<Rightarrow> nat \<Rightarrow> committer" where
  "demo_committers c \<equiv> (\<lambda>_. CIdle)(0 := c)"

lemmas demo_defs = demo_queued_def demo_flushed_def gc_open_def wal_open_def Let_def wal_header_bytes_def enqueue_def mark_append_def
  register_wait_def drain_sorted_def append_batches_def wal_append_bytes_def wal_sync_def wrapping_add64_def u64_max_def
  saturating_add64_def

lemma demo_start: "gc_reach crc rd (demo_queued, FWait, demo_committers (CWaiting 8 [1]))"
proof -
  have "gc_reach crc rd (gc_open WalDurableGrouped [], FWait, \<lambda>_. CIdle)" by (rule gc_reach.start) simp
  from gc_reach.step [OF this gc_step.enqueue [where t = 0 and bs = "[1]" and k = Batch]]
  have "gc_reach crc rd (snd (enqueue [1] (gc_open WalDurableGrouped [])), FWait, demo_committers (CQueued Batch 8 [1]))"
    by (simp add: demo_defs)
  from gc_reach.step [OF this gc_step.wait [where t = 0 and start = 8 and bs = "[1]" and k = Batch and wal_bytes = 1]] show ?thesis
    by (simp add: demo_defs)
qed

lemma demo_writing: "gc_reach crc rd (snd (drain_sorted demo_queued), FWriting [(8, [1])], demo_committers (CWaiting 8 [1]))"
proof -
  from gc_reach.step [OF demo_start gc_step.wake] have "gc_reach crc rd (demo_queued, FWoken, demo_committers (CWaiting 8 [1]))"
    by (simp add: demo_defs)
  from gc_reach.step [OF this gc_step.drain] show ?thesis by (simp add: demo_defs)
qed

lemma demo_grouped_run: "gc_reach crc rd (flusher_publish (Inr 9) False demo_flushed, FWait, demo_committers (CWaiting 8 [1]))"
proof -
  from gc_reach.step [OF demo_writing gc_step.flush [OF refl]]
  have "gc_reach crc rd (demo_flushed, FWritten (Inr 9), demo_committers (CWaiting 8 [1]))"
    by (simp add: demo_defs)
  from gc_reach.step [OF gc_reach.step [OF this gc_step.check] gc_step.publish] show ?thesis
    by (simp add: has_pending_def demo_defs)
qed

theorem acked_commit_is_durable_witness:
  "take 1 (drop 8 (wal_content (gc_wal (flusher_publish (Inr 9) False demo_flushed)))) = [1]"
proof -
  have "wait_turn (8 + length [1]) (flusher_publish (Inr 9) False demo_flushed) = Some (Inr ())"
    by (simp add: wait_turn_def flusher_publish_def has_pending_def demo_defs)
  then have "gc_step demo_crc (wal_read demo_crc demo_decompress) (flusher_publish (Inr 9) False demo_flushed, FWait, demo_committers (CWaiting 8 [1]))
      (flusher_publish (Inr 9) False demo_flushed, FWait, (demo_committers (CWaiting 8 [1]))(0 := CAcked 8 [1]))"
    by (intro gc_step.ack) simp_all
  from acked_commit_is_durable [OF demo_grouped_run this, of 0 8 "[1]"] show ?thesis by simp
qed





subsection \<open>Progress\<close>

definition wait_inv :: "gc_config \<Rightarrow> bool" where
  "wait_inv c = (case c of (s, fl, cs) \<Rightarrow>
     last_error s = None \<and> (\<forall>e. outcome_of fl \<noteq> Some (Inl e)) \<and>
     (\<forall>t start bs. cs t = CWaiting start bs \<longrightarrow> gc_mode s \<noteq> Strict \<and> start + length bs \<le> pending_target s))"

lemma wait_invI:
  assumes "last_error s = None" and "\<And>e. outcome_of fl \<noteq> Some (Inl e)"
    and "\<And>t start bs. cs t = CWaiting start bs \<Longrightarrow> gc_mode s \<noteq> Strict \<and> start + length bs \<le> pending_target s"
  shows "wait_inv (s, fl, cs)"
  using assms by (simp add: wait_inv_def)

lemma wait_invD:
  assumes "wait_inv (s, fl, cs)"
  shows "last_error s = None" and "outcome_of fl \<noteq> Some (Inl e)"
    and "cs t = CWaiting start bs \<Longrightarrow> gc_mode s \<noteq> Strict" and "cs t = CWaiting start bs \<Longrightarrow> start + length bs \<le> pending_target s"
  using assms unfolding wait_inv_def prod.case by blast+

lemma wait_inv_frame:
  assumes "wait_inv (s, fl, cs)" and "last_error s' = None" and "\<And>e. outcome_of fl' \<noteq> Some (Inl e)" and "gc_mode s' = gc_mode s"
    and "pending_target s \<le> pending_target s'"
    and "\<And>t start bs. cs' t = CWaiting start bs \<Longrightarrow>
      cs t = CWaiting start bs \<or> gc_mode s' \<noteq> Strict \<and> start + length bs \<le> pending_target s'"
  shows "wait_inv (s', fl', cs')"
proof (rule wait_invI [OF assms(2,3)])
  fix t start bs
  assume "cs' t = CWaiting start bs"
  from assms(6) [OF this] show "gc_mode s' \<noteq> Strict \<and> start + length bs \<le> pending_target s'"
  proof
    assume "cs t = CWaiting start bs"
    from wait_invD(3,4) [OF assms(1) this] assms(4,5) show ?thesis by simp
  qed
qed

lemma truncate_last_error: "last_error s = None \<Longrightarrow> last_error (snd (gc_truncate rd s)) = None"
  by (auto simp: gc_truncate_def gc_reset_def drain_sorted_def queue_reset_def Let_def split: sum.splits)

lemma gc_step_wait_inv: "gc_step crc rd c c' \<Longrightarrow> wait_inv c \<Longrightarrow> wait_inv c'"
proof (induction rule: gc_step.induct)
  case (check s outcome cs)
  then show ?case using wait_invD(1,2) [OF check] by (intro wait_inv_frame [OF check]) simp_all
next
  case (publish s outcome m cs)
  have "last_error (flusher_publish outcome m s) = None" using wait_invD(2) [OF publish, of "projl outcome"] by (cases outcome) simp_all
  then show ?case by (intro wait_inv_frame [OF publish]) simp_all
next
  case (truncate fl cs s)
  have "cs t \<noteq> CWaiting start bs" for t start bs using truncate(2) [rule_format, of t] by (auto simp: leased_def)
  then show ?case using wait_invD(1,2) [OF truncate(3)] by (intro wait_invI) (simp_all add: truncate_last_error)
next
  case (enqueue s cs t bs fl k)
  then show ?case using wait_invD(1,2) [OF enqueue(5)]
    by (intro wait_inv_frame [OF enqueue(5)]) (simp_all add: enqueue_def Let_def split: if_splits)
next
  case (wait s k cs t start bs fl wal_bytes)
  have "gc_mode s \<noteq> Strict" using wait(1) by auto
  with wait show ?case using wait_invD(1,2) [OF wait(3)]
    by (intro wait_inv_frame [OF wait(3)]) (simp_all add: register_wait_def split: if_splits)
next
  case (return_async s k cs t start bs fl wal_bytes)
  then show ?case using wait_invD(1,2) [OF return_async(4)]
    by (intro wait_inv_frame [OF return_async(4)]) (simp_all add: register_wait_def split: if_splits)
next
  case (strict_append s cs t bs fl k)
  then show ?case using wait_invD(1,2) [OF strict_append(5)]
    by (intro wait_inv_frame [OF strict_append(5)]) (simp_all split: if_splits)
next
  case (strict_sync cs t start bs w s fl)
  then show ?case using wait_invD(1,2) [OF strict_sync(3)]
    by (intro wait_inv_frame [OF strict_sync(3)]) (simp_all split: if_splits)
next
  case (strict_publish cs t start bs durable s fl)
  then show ?case using wait_invD(2) [OF strict_publish(2)]
    by (intro wait_inv_frame [OF strict_publish(2)]) (simp_all add: publish_sync_def split: if_splits)
next
  case (ack cs t start bs s fl)
  then show ?case using wait_invD(1,2) [OF ack(3)] by (intro wait_inv_frame [OF ack(3)]) (simp_all split: if_splits)
next
  case (fail cs t start bs s e fl)
  then show ?case using wait_invD(1,2) [OF fail(3)] by (intro wait_inv_frame [OF fail(3)]) (simp_all split: if_splits)
next
  case (wake s cs)
  then show ?case using wait_invD(1) [OF wake(3)] by (intro wait_inv_frame [OF wake(3)]) simp_all
next
  case (drain s cs)
  then show ?case using wait_invD(1) [OF drain] by (intro wait_inv_frame [OF drain]) (simp_all add: drain_sorted_def Let_def)
next
  case (flush w batches s cs)
  then show ?case using wait_invD(1) [OF flush(2)] by (intro wait_inv_frame [OF flush(2)]) simp_all
next
  case (force_sync cs t w s fl)
  then show ?case using wait_invD(1,2) [OF force_sync(3)]
    by (intro wait_inv_frame [OF force_sync(3)]) (simp_all split: if_splits)
next
  case (force_publish cs t durable s fl)
  then show ?case using wait_invD(2) [OF force_publish(2)]
    by (intro wait_inv_frame [OF force_publish(2)]) (simp_all add: publish_sync_def split: if_splits)
next
  case (sync_pending s cs t fl)
  then show ?case using wait_invD(1,2) [OF sync_pending(3)] by (intro wait_inv_frame [OF sync_pending(3)]) (simp_all split: if_splits)
next
  case (barrier cs t target s fl)
  then show ?case using wait_invD(1,2) [OF barrier(2)]
    by (intro wait_inv_frame [OF barrier(2)]) (simp_all add: register_barrier_def split: if_splits)
next
  case (barrier_done cs t target s fl)
  then show ?case using wait_invD(1,2) [OF barrier_done(3)] by (intro wait_inv_frame [OF barrier_done(3)]) (simp_all split: if_splits)
next
  case (barrier_fail cs t target s e fl)
  then show ?case using wait_invD(1,2) [OF barrier_fail(3)] by (intro wait_inv_frame [OF barrier_fail(3)]) (simp_all split: if_splits)
next
  case (release fl cs s)
  obtain own where "snd (release_completed_ownership_wal crc rd s) = s\<lparr>ownership_wal_state := own\<rparr>" using release_state by blast
  then show ?case using wait_invD(1,2) [OF release(3)] by (simp only:) (rule wait_inv_frame [OF release(3)], simp_all)
qed

lemma gc_reach_wait_inv: "gc_reach crc rd c \<Longrightarrow> wait_inv c"
proof (induction rule: gc_reach.induct)
  case (start wal_file mode)
  show ?case by (rule wait_invI) (simp_all add: gc_open_def Let_def)
qed (rule gc_step_wait_inv)

lemma finish_cycle: "\<exists>s'. (gc_step crc rd)\<^sup>*\<^sup>* (s, fl, cs) (s', FWait, cs)"
proof -
  have checked: "\<exists>s'. (gc_step crc rd)\<^sup>*\<^sup>* (s, FChecked r m, cs) (s', FWait, cs)" for s r m
    by (blast intro: gc_step.publish)
  have written: "\<exists>s'. (gc_step crc rd)\<^sup>*\<^sup>* (s, FWritten r, cs) (s', FWait, cs)" for s r
    using checked by (meson converse_rtranclp_into_rtranclp gc_step.check)
  have writing: "\<exists>s'. (gc_step crc rd)\<^sup>*\<^sup>* (s, FWriting b, cs) (s', FWait, cs)" for s b
    using written by (meson converse_rtranclp_into_rtranclp gc_step.flush)
  have "\<exists>s'. (gc_step crc rd)\<^sup>*\<^sup>* (s, FWoken, cs) (s', FWait, cs)" for s
    using writing by (meson converse_rtranclp_into_rtranclp gc_step.drain)
  with checked written writing show ?thesis by (cases fl) blast+
qed

lemma full_cycle:
  assumes inv: "gc_inv (s, FWait, cs)" and "gc_mode s \<noteq> Strict" and "pub_durable s < pending_target s"
  shows "\<exists>s'. (gc_step crc rd)\<^sup>*\<^sup>* (s, FWait, cs) (s', FWait, cs) \<and> pub_durable s' = queue_next s \<and> last_error s' = None"
proof -
  define s1 where "s1 = snd (drain_sorted s)"
  define w where "w = wal_sync (append_batches (fst (drain_sorted s)) (gc_wal s1))"
  note log = drained_log [OF inv in_flight_simps(1)]
  have "durable_lsn w = queue_next s"
    using log(1,3) wal_invD(1,10) [OF gc_invD(1) [OF inv]] assms(2)
    by (simp add: w_def s1_def drain_sorted_def Let_def wal_sync_def batch_bytes_def)
  moreover have "(gc_step crc rd)\<^sup>*\<^sup>* (s, FWait, cs) (s1\<lparr>gc_wal := w\<rparr>, FWritten (Inr (durable_lsn w)), cs)"
    using gc_step.wake [OF assms(2,3), of crc rd cs] gc_step.drain [of crc rd s cs]
      gc_step.flush [OF refl, of crc rd s1 "fst (drain_sorted s)" cs, folded w_def]
    unfolding s1_def [symmetric] by (meson r_into_rtranclp rtranclp.rtrancl_into_rtrancl)
  then have "(gc_step crc rd)\<^sup>*\<^sup>* (s, FWait, cs)
      (flusher_publish (Inr (durable_lsn w)) (has_pending (s1\<lparr>gc_wal := w\<rparr>)) (s1\<lparr>gc_wal := w\<rparr>), FWait, cs)"
    by (rule rtranclp.rtrancl_into_rtrancl [OF rtranclp.rtrancl_into_rtrancl]) (rule gc_step.check gc_step.publish)+
  moreover have "pub_durable (flusher_publish (Inr d) m q) = d" "last_error (flusher_publish (Inr d) m q) = None" for d m q
    by simp_all
  ultimately show ?thesis by (metis (no_types))
qed

lemma waiting_reserved:
  assumes inv: "gc_inv (s, fl, cs)" and wait: "cs t = CWaiting start bs" and "gc_mode s \<noteq> Strict"
  shows "start + length bs \<le> queue_next s"
proof -
  note facts = wal_invD [OF gc_invD(1) [OF inv]]
  have "bs \<noteq> []" and place: "(start, bs) \<in> set (in_flight fl @ queue_entries s) \<or> logged start bs (gc_wal s)"
    using gc_invD(2) [OF inv, of t] wait by (simp_all add: committer_inv_def)
  have "contiguous (length (wal_content (gc_wal s))) (in_flight fl @ queue_entries s)" using facts(5,6) by simp
  with contiguous_end [OF this, of start bs] logged_bound [of start bs "gc_wal s"] place \<open>bs \<noteq> []\<close> facts(10) [OF assms(3)]
  show ?thesis by (auto simp: batch_bytes_def)
qed

lemma gc_reach_steps: "(gc_step crc rd)\<^sup>*\<^sup>* c c' \<Longrightarrow> gc_reach crc rd c \<Longrightarrow> gc_reach crc rd c'"
  by (induction rule: rtranclp_induct) (auto intro: gc_reach.step)

lemma waiting_can_complete:
  assumes "gc_reach crc rd (s, fl, cs)" and "cs t = CWaiting start bs"
  shows "\<exists>s'. (gc_step crc rd)\<^sup>*\<^sup>* (s, fl, cs) (s', FWait, cs(t := CAcked start bs))"
proof -
  obtain s1 where run1: "(gc_step crc rd)\<^sup>*\<^sup>* (s, fl, cs) (s1, FWait, cs)" using finish_cycle [of crc rd s fl cs] by blast
  have reach1: "gc_reach crc rd (s1, FWait, cs)" by (rule gc_reach_steps [OF run1 assms(1)])
  note wait1 = wait_invD [OF gc_reach_wait_inv [OF reach1]]
  have mode: "gc_mode s1 \<noteq> Strict" and target: "start + length bs \<le> pending_target s1"
    using wait1(3,4) [OF assms(2)] by simp_all
  obtain s2 where run2: "(gc_step crc rd)\<^sup>*\<^sup>* (s1, FWait, cs) (s2, FWait, cs)" and pub: "start + length bs \<le> pub_durable s2"
    and err: "last_error s2 = None"
  proof (cases "pub_durable s1 \<ge> start + length bs")
    case True
    then show ?thesis using that [of s1] wait1(1) by simp
  next
    case False
    with target have "pub_durable s1 < pending_target s1" by simp
    from full_cycle [OF gc_reach_inv [OF reach1] mode this] waiting_reserved [OF gc_reach_inv [OF reach1] assms(2) mode] that
    show ?thesis by metis
  qed
  have "wait_turn (start + length bs) s2 = Some (Inr ())" using pub err by (simp add: wait_turn_def)
  then have "gc_step crc rd (s2, FWait, cs) (s2, FWait, cs(t := CAcked start bs))"
    using gc_step.ack [of cs t start bs s2 crc rd FWait] assms(2) by simp
  with run1 run2 show ?thesis by (meson rtranclp.rtrancl_into_rtrancl rtranclp_trans)
qed

text \<open>
  C18: no committer waits in vain. In every reachable state of a run without device faults, each waiting
  committer can be acknowledged by steps of the flusher alone, whatever the flusher was doing and whatever
  the other committers have queued.
\<close>

theorem waiting_commit_completes:
  assumes "gc_reach crc (wal_read crc decompress) (s, fl, cs)" and "cs t = CWaiting start bs"
  shows "\<exists>s'. (gc_step crc (wal_read crc decompress))\<^sup>*\<^sup>* (s, fl, cs) (s', FWait, cs(t := CAcked start bs))"
  by (rule waiting_can_complete [OF assms])

theorem waiting_commit_completes_witness:
  "\<exists>s'. (gc_step demo_crc (wal_read demo_crc demo_decompress))\<^sup>*\<^sup>* (demo_queued, FWait, demo_committers (CWaiting 8 [1]))
    (s', FWait, (demo_committers (CWaiting 8 [1]))(0 := CAcked 8 [1]))"
  by (rule waiting_commit_completes [OF demo_start]) simp

subsection \<open>Page-ownership records\<close>

definition keeps_log :: "gc_state \<Rightarrow> gc_state \<Rightarrow> bool" where
  "keeps_log s s' \<longleftrightarrow> ownership_wal_state s' = 2 \<and> (\<exists>added. wal_content (gc_wal s') = wal_content (gc_wal s) @ added)"

lemma append_batches_content: "wal_content (append_batches bs w) = wal_content w @ batch_bytes bs"
  by (induction bs arbitrary: w) (simp_all add: append_batches_def batch_bytes_def wal_append_bytes_def)

lemma ownership_step:
  "gc_step crc rd c c' \<Longrightarrow> gc_inv c \<Longrightarrow> ownership_wal_state (fst c) = 2 \<Longrightarrow>
   keeps_log (fst c) (fst c') \<or> release_completed_ownership_wal crc rd (fst c) = (Inr (), fst c') \<and> snd c' = snd c"
proof (induction rule: gc_step.induct)
  case (truncate fl cs s)
  have "in_flight fl = []" using truncate(1) by auto
  with truncate(3) show ?case
  proof (cases rule: truncate_outcome [where rd = rd])
    case (kept own)
    with truncate(4) show ?thesis by (simp add: keeps_log_def drained_def wal_sync_def append_batches_content)
  next
    case (reset own)
    with truncate(4) show ?thesis by simp
  qed
next
  case (release fl cs s)
  then show ?case by (auto simp: release_completed_ownership_wal_def keeps_log_def split: sum.splits)
next
  case (enqueue s cs t bs fl k)
  then show ?case by (simp add: keeps_log_def enqueue_def Let_def mark_append_def split: append_kind.splits)
next
  case (strict_append s cs t bs fl k)
  then show ?case by (simp add: keeps_log_def wal_append_bytes_def mark_append_def split: append_kind.splits)
next
  case (flush w batches s cs)
  then show ?case by (simp add: keeps_log_def wal_sync_def append_batches_content)
qed (simp_all add: keeps_log_def drain_sorted_def Let_def register_wait_def register_barrier_def wal_sync_def publish_sync_def)

lemma ownership_run:
  "(gc_step crc rd)\<^sup>*\<^sup>* c c' \<Longrightarrow> gc_inv c \<Longrightarrow> ownership_wal_state (fst c) = 2 \<Longrightarrow> gc_inv c' \<and>
   (keeps_log (fst c) (fst c') \<or>
    (\<exists>c1 s2. (gc_step crc rd)\<^sup>*\<^sup>* c c1 \<and> keeps_log (fst c) (fst c1) \<and> release_completed_ownership_wal crc rd (fst c1) = (Inr (), s2) \<and>
       (gc_step crc rd)\<^sup>*\<^sup>* (s2, snd c1) c'))"
proof (induction rule: rtranclp_induct)
  case (step c1 c2)
  then have inv: "gc_inv c1" "gc_inv c2" using gc_step_inv [OF step(2)] by simp_all
  consider (kept) "keeps_log (fst c) (fst c1)" | (released) c0 s2 where "(gc_step crc rd)\<^sup>*\<^sup>* c c0" "keeps_log (fst c) (fst c0)"
      "release_completed_ownership_wal crc rd (fst c0) = (Inr (), s2)" "(gc_step crc rd)\<^sup>*\<^sup>* (s2, snd c0) c1" using step by blast
  then show ?case
  proof cases
    case kept
    have "ownership_wal_state (fst c1) = 2" using kept by (simp add: keeps_log_def)
    from ownership_step [OF step(2) inv(1) this] show ?thesis
    proof (elim disjE conjE)
      assume "keeps_log (fst c1) (fst c2)"
      with kept inv(2) show ?thesis by (force simp: keeps_log_def)
    next
      assume "release_completed_ownership_wal crc rd (fst c1) = (Inr (), fst c2)" and "snd c2 = snd c1"
      then show ?thesis using step(1) kept inv(2) by (metis prod.collapse rtranclp.rtrancl_refl)
    qed
  next
    case released
    then show ?thesis using inv(2) step(2) by (meson rtranclp.rtrancl_into_rtrancl)
  qed
qed (simp add: keeps_log_def)

definition ownership_records :: "(nat \<times> main_wal_record_frame) list \<Rightarrow> page_ownership_record list" where
  "ownership_records items = concat (map (\<lambda>item. case snd item of FPageOwnership r \<Rightarrow> [r] | _ \<Rightarrow> []) items)"

lemma journal_items:
  "try_fold (journal_item crc) ([], None) items = Inr (journal, last_record) \<Longrightarrow>
   \<exists>bss. list_all2 (\<lambda>r b. own_encode crc r = Inr b) (ownership_records items) bss \<and> journal = concat bss \<and>
     (\<forall>r. last_record = Some r \<longrightarrow> ownership_records items \<noteq> [] \<and> r = last (ownership_records items))"
proof (induction items arbitrary: journal last_record rule: rev_induct)
  case Nil
  then show ?case by (simp add: ownership_records_def)
next
  case (snoc item items)
  then obtain st where st: "try_fold (journal_item crc) ([], None) items = Inr st" "journal_item crc st item = Inr (journal, last_record)"
    by (auto simp: try_fold_append and_then_Inr)
  obtain bss where bss: "list_all2 (\<lambda>r b. own_encode crc r = Inr b) (ownership_records items) bss" "fst st = concat bss"
      "\<forall>r. snd st = Some r \<longrightarrow> ownership_records items \<noteq> [] \<and> r = last (ownership_records items)"
    using snoc.IH [of "fst st" "snd st"] st(1) by auto
  show ?case
  proof (cases "\<exists>r. snd item = FPageOwnership r")
    case True
    then obtain r b where "snd item = FPageOwnership r" "own_encode crc r = Inr b" "journal = fst st @ b" "last_record = Some r"
      using st(2) by (auto simp: journal_item_def and_then_Inr)
    with bss show ?thesis by (intro exI [of _ "bss @ [b]"]) (simp add: ownership_records_def list_all2_appendI)
  next
    case False
    then have "journal_item crc st item = Inr st" "ownership_records (items @ [item]) = ownership_records items"
      by (auto simp: journal_item_def ownership_records_def split: main_wal_record_frame.split)
    with bss st(2) show ?thesis by (metis Inr_inject prod.sel)
  qed
qed

lemma release_complete:
  assumes "release_completed_ownership_wal crc rd s = (Inr (), s')"
  obtains items epoch where "rd (wal_content (gc_wal s)) = Inr (items, None)"
    and "ownership_records items \<noteq> []" and "last (ownership_records items) = OwnFinish epoch"
    and "\<And>e. OwnBegin e \<in> set (ownership_records items) \<Longrightarrow> OwnFinish e \<in> set (ownership_records items)"
    and "s' = s\<lparr>ownership_wal_state := 1\<rparr>"
proof -
  obtain items journal epoch where read: "rd (wal_content (gc_wal s)) = Inr (items, None)"
    and fold: "try_fold (journal_item crc) ([], None) items = Inr (journal, Some (OwnFinish epoch))" and pending: "pending_epoch crc journal = Inr None"
    and s': "s' = s\<lparr>ownership_wal_state := 1\<rparr>"
    using assms unfolding release_completed_ownership_wal_def completed_journal_def is_finish_def
    by (auto simp: and_then_Inr split: sum.splits prod.splits option.splits if_splits page_ownership_record.splits)
  let ?rs = "ownership_records items"
  obtain bss where bss: "list_all2 (\<lambda>r b. own_encode crc r = Inr b) ?rs bss" "journal = concat bss" "?rs \<noteq> []" "last ?rs = OwnFinish epoch"
    using journal_items [OF fold] by auto
  obtain st where st: "try_fold journal_step (None, 0) ?rs = Inr st" "fst st = None"
    using pending pending_epoch_records [OF bss(1)] by (auto simp: bss(2) and_then_Inr)
  show thesis
    by (rule that [OF read bss(3,4) _ s']) (use journal_inv_fold [OF st(1)] st(2) in \<open>auto simp: journal_inv_def\<close>)
qed

text \<open>The release does take place: a log that holds a whole epoch is released.\<close>

lemma release_whole_epoch:
  assumes "rd (wal_content (gc_wal s)) = Inr ([(l1, FPageOwnership (OwnBegin 1)), (l2, FPageOwnership (OwnFinish 1))], None)"
  shows "release_completed_ownership_wal crc rd s = (Inr (), s\<lparr>ownership_wal_state := 1\<rparr>)"
proof -
  obtain b f where enc: "own_encode crc (OwnBegin 1) = Inr b" "own_encode crc (OwnFinish 1) = Inr f" by (simp add: own_encode_def Let_def)
  then have "pending_epoch crc (b @ f) = Inr None"
    using pending_epoch_records [of crc "[OwnBegin 1, OwnFinish 1]" "[b, f]"] by simp
  with enc assms show ?thesis
    by (simp add: release_completed_ownership_wal_def completed_journal_def journal_item_def is_finish_def)
qed

text \<open>
  C19: the page-ownership journal is kept until it is complete. Once the log is marked to hold page-ownership
  records, the steps of committers, flusher, syncs and checkpoints only extend the log, and a checkpoint that
  tries to truncate it fails, until a release: a moment at which the whole log, which still extends the marked
  one, reads to its end, every ownership epoch begun in it is finished in it, and its last ownership record is
  a finish.
\<close>

theorem ownership_log_kept_until_complete:
  assumes "gc_reach crc (wal_read crc decompress) (s, fl, cs)" and "ownership_wal_state s = 2"
    and "(gc_step crc (wal_read crc decompress))\<^sup>*\<^sup>* (s, fl, cs) (s', fl', cs')"
  shows "(\<exists>added. wal_content (gc_wal s') = wal_content (gc_wal s) @ added) \<or>
    (\<exists>s1 fl1 cs1 added items epoch. (gc_step crc (wal_read crc decompress))\<^sup>*\<^sup>* (s, fl, cs) (s1, fl1, cs1) \<and>
      wal_content (gc_wal s1) = wal_content (gc_wal s) @ added \<and> ownership_wal_state s1 = 2 \<and>
      wal_read crc decompress (wal_content (gc_wal s1)) = Inr (items, None) \<and>
      ownership_records items \<noteq> [] \<and> last (ownership_records items) = OwnFinish epoch \<and>
      (\<forall>e. OwnBegin e \<in> set (ownership_records items) \<longrightarrow> OwnFinish e \<in> set (ownership_records items)) \<and>
      (gc_step crc (wal_read crc decompress))\<^sup>*\<^sup>* (s1\<lparr>ownership_wal_state := 1\<rparr>, fl1, cs1) (s', fl', cs'))"
proof -
  let ?rd = "wal_read crc decompress"
  from ownership_run [OF assms(3) gc_reach_inv [OF assms(1)]] assms(2) consider "keeps_log s s'"
    | c1 s2 where "(gc_step crc ?rd)\<^sup>*\<^sup>* (s, fl, cs) c1" "keeps_log s (fst c1)" "release_completed_ownership_wal crc ?rd (fst c1) = (Inr (), s2)"
        "(gc_step crc ?rd)\<^sup>*\<^sup>* (s2, snd c1) (s', fl', cs')" by auto
  then show ?thesis
  proof cases
    case 2
    obtain s1 fl1 cs1 where c1: "c1 = (s1, fl1, cs1)" by (cases c1)
    from 2(3) obtain items epoch where "?rd (wal_content (gc_wal s1)) = Inr (items, None)" "ownership_records items \<noteq> []"
        "last (ownership_records items) = OwnFinish epoch"
        "\<And>e. OwnBegin e \<in> set (ownership_records items) \<Longrightarrow> OwnFinish e \<in> set (ownership_records items)"
        "s2 = s1\<lparr>ownership_wal_state := 1\<rparr>" by (rule release_complete) (simp add: c1)
    with 2(1,2,4) show ?thesis unfolding c1 keeps_log_def fst_conv snd_conv by blast
  qed (simp add: keeps_log_def)
qed

definition demo_owned :: gc_state where
  "demo_owned = publish_sync 9 (((mark_append Ownership (gc_open Strict []))\<lparr>gc_wal := snd (wal_append_bytes [1] (wal_open []))\<rparr>)
     \<lparr>gc_wal := wal_sync (snd (wal_append_bytes [1] (wal_open [])))\<rparr>)"

lemma demo_owned_reach: "gc_reach crc rd (demo_owned, FWait, demo_committers (CAcked 8 [1]))"
proof -
  let ?s = "(mark_append Ownership (gc_open Strict []))\<lparr>gc_wal := snd (wal_append_bytes [1] (wal_open []))\<rparr>"
  have "gc_reach crc rd (gc_open Strict [], FWait, \<lambda>_. CIdle)" by (rule gc_reach.start) simp
  from gc_reach.step [OF this gc_step.strict_append [where t = 0 and bs = "[1]" and k = Ownership]]
  have "gc_reach crc rd (?s, FWait, demo_committers (CAppended 8 [1]))" by (simp add: demo_defs)
  from gc_reach.step [OF this gc_step.strict_sync [where t = 0, OF _ refl]]
  have "gc_reach crc rd (?s\<lparr>gc_wal := wal_sync (gc_wal ?s)\<rparr>, FWait, demo_committers (CSynced 8 [1] 9))" by (simp add: demo_defs)
  from gc_reach.step [OF this gc_step.strict_publish [where t = 0]] show ?thesis by (simp add: demo_owned_def)
qed

theorem ownership_log_kept_until_complete_witness:
  "(\<exists>added. wal_content (gc_wal (snd (gc_truncate (wal_read demo_crc demo_decompress) demo_owned))) = wal_content (gc_wal demo_owned) @ added) \<or>
    (\<exists>(s1 :: gc_state) added items epoch. wal_content (gc_wal s1) = wal_content (gc_wal demo_owned) @ added \<and>
      wal_read demo_crc demo_decompress (wal_content (gc_wal s1)) = Inr (items, None) \<and> last (ownership_records items) = OwnFinish epoch)"
proof -
  let ?rd = "wal_read demo_crc demo_decompress"
  have own: "ownership_wal_state demo_owned = 2" by (simp add: demo_owned_def publish_sync_def mark_append_def)
  have "gc_step demo_crc ?rd (demo_owned, FWait, demo_committers (CAcked 8 [1]))
      (snd (gc_truncate ?rd demo_owned), FWait, demo_committers (CAcked 8 [1]))"
    by (rule gc_step.truncate) (simp_all add: leased_def)
  then have run: "(gc_step demo_crc ?rd)\<^sup>*\<^sup>* (demo_owned, FWait, demo_committers (CAcked 8 [1]))
      (snd (gc_truncate ?rd demo_owned), FWait, demo_committers (CAcked 8 [1]))" ..
  from ownership_log_kept_until_complete [OF demo_owned_reach own run] show ?thesis
    by (elim disjE exE conjE) blast+
qed

end
