(* ===== verification/Ordered_Map.thy ===== *)
theory Ordered_Map
  imports Prelude_RedDB
begin

section \<open>Ordered maps\<close>

text \<open>
  \<open>BTreeMap\<close> as an association list in strictly ascending key order: \<open>bput\<close> inserts or replaces at the
  place of the key, \<open>map_of\<close> looks up, and iterating over the map is iterating over the list. The keys of
  the components are strings, numbers and pairs of them, under the orders the code derives: strings
  compare by their bytes, pairs lexicographically.
\<close>

type_synonym ('k, 'v) bmap = "('k \<times> 'v) list"

fun bput :: "'k::linorder \<Rightarrow> 'v \<Rightarrow> ('k, 'v) bmap \<Rightarrow> ('k, 'v) bmap" where
  "bput k v [] = [(k, v)]"
| "bput k v ((k', v') # m) =
     (if k < k' then (k, v) # (k', v') # m else if k = k' then (k, v) # m else (k', v') # bput k v m)"

definition bmap_wf :: "('k::linorder, 'v) bmap \<Rightarrow> bool" where
  "bmap_wf m \<longleftrightarrow> sorted_wrt (<) (map fst m)"

lemma bmap_wf_simps [simp]:
  "bmap_wf []" "bmap_wf ((k, v) # m) \<longleftrightarrow> (\<forall>k' \<in> fst ` set m. k < k') \<and> bmap_wf m"
  by (auto simp: bmap_wf_def)

lemma set_keys_bput [simp]: "fst ` set (bput k v m) = insert k (fst ` set m)"
  by (induction k v m rule: bput.induct) auto

lemma bmap_wf_bput [simp]: "bmap_wf m \<Longrightarrow> bmap_wf (bput k v m)"
proof (induction k v m rule: bput.induct)
  case (2 k v k' v' m)
  then show ?case by (cases "k < k'"; cases "k = k'") (auto simp: ball_Un intro: less_trans)
qed simp

lemma bget_bput [map_simps]: "map_of (bput k v m) k' = (if k' = k then Some v else map_of m k')"
  by (induction k v m rule: bput.induct) auto

lemma bmap_distinct: "bmap_wf m \<Longrightarrow> distinct (map fst m)"
  by (simp add: bmap_wf_def strict_sorted_iff)

lemma bget_iff: "bmap_wf m \<Longrightarrow> map_of m k = Some v \<longleftrightarrow> (k, v) \<in> set m"
  by (simp add: bmap_distinct)

lemma bmap_wf_filter: "bmap_wf m \<Longrightarrow> bmap_wf (filter P m)"
  by (induction m) (auto split: prod.splits)

lemma find_SomeD: "find P xs = Some x \<Longrightarrow> x \<in> set xs \<and> P x"
  by (auto simp: find_Some_iff)

lemma find_unique:
  assumes "x \<in> set xs" and "P x" and "\<And>y. y \<in> set xs \<Longrightarrow> P y \<Longrightarrow> y = x"
  shows "find P xs = Some x"
proof (cases "find P xs")
  case None
  with assms(1,2) show ?thesis by (auto simp: find_None_iff)
next
  case (Some y)
  with find_SomeD [OF Some] assms(3) show ?thesis by blast
qed

end
