(* ===== verification/Range_Bounds.thy ===== *)
theory Range_Bounds
  imports Ordered_Map
begin

section \<open>Range bounds\<close>

text \<open>
  The half-open partitions of a collection's keyspace: \<open>RangeBound\<close>, \<open>Position\<close> and \<open>RangeBounds\<close> of
  \<open>src/crates/reddb-server/src/cluster/ownership.rs\<close>. A position is ordered as its derived \<open>Ord\<close> orders it: the open low end, then
  the keys by their bytes, then the open high end.
\<close>

datatype range_bound = BoundMin | BoundKey bytes | BoundMax

datatype position = PosMin | PosKey bytes | PosMax

fun bound_position :: "range_bound \<Rightarrow> position" where
  "bound_position BoundMin = PosMin"
| "bound_position (BoundKey k) = PosKey k"
| "bound_position BoundMax = PosMax"

fun position_le :: "position \<Rightarrow> position \<Rightarrow> bool" where
  "position_le PosMin _ = True"
| "position_le (PosKey a) PosMin = False"
| "position_le (PosKey a) (PosKey b) = (a \<le> b)"
| "position_le (PosKey a) PosMax = True"
| "position_le PosMax PosMax = True"
| "position_le PosMax _ = False"

instantiation position :: linorder
begin

definition less_eq_position :: "position \<Rightarrow> position \<Rightarrow> bool" where
  "less_eq_position a b = position_le a b"

definition less_position :: "position \<Rightarrow> position \<Rightarrow> bool" where
  "less_position a b \<longleftrightarrow> position_le a b \<and> \<not> position_le b a"

instance
proof
  fix x y z :: position
  show "(x < y) = (x \<le> y \<and> \<not> y \<le> x)" by (simp add: less_eq_position_def less_position_def)
  show "x \<le> x" by (cases x) (simp_all add: less_eq_position_def)
  show "x \<le> y \<Longrightarrow> y \<le> z \<Longrightarrow> x \<le> z" by (cases x; cases y; cases z) (auto simp: less_eq_position_def)
  show "x \<le> y \<Longrightarrow> y \<le> x \<Longrightarrow> x = y" by (cases x; cases y) (auto simp: less_eq_position_def)
  show "x \<le> y \<or> y \<le> x" by (cases x; cases y) (auto simp: less_eq_position_def)
qed

end

lemma position_order [simp]:
  "PosMin \<le> p" "p \<le> PosMax" "PosKey a \<le> PosKey b \<longleftrightarrow> a \<le> b" "PosKey a < PosKey b \<longleftrightarrow> a < b"
  "\<not> PosKey a \<le> PosMin" "\<not> PosMax \<le> PosKey a" "\<not> PosMax \<le> PosMin" "PosMin < PosKey a" "PosKey a < PosMax" "PosMin < PosMax"
  "\<not> p < PosMin" "\<not> PosMax < p"
  by (cases p; auto simp: less_eq_position_def less_position_def)+

record range_bounds =
  rb_lower :: range_bound
  rb_upper :: range_bound

datatype range_bounds_error = RangeBoundsError

abbreviation lower_pos :: "range_bounds \<Rightarrow> position" where
  "lower_pos r \<equiv> bound_position (rb_lower r)"

abbreviation upper_pos :: "range_bounds \<Rightarrow> position" where
  "upper_pos r \<equiv> bound_position (rb_upper r)"

definition bounds_new :: "range_bound \<Rightarrow> range_bound \<Rightarrow> range_bounds_error + range_bounds" where
  "bounds_new lower upper =
     (if bound_position lower \<ge> bound_position upper then Inl RangeBoundsError
      else Inr \<lparr>rb_lower = lower, rb_upper = upper\<rparr>)"

definition bounds_full :: range_bounds where
  "bounds_full = \<lparr>rb_lower = BoundMin, rb_upper = BoundMax\<rparr>"

definition bounds_contains :: "range_bounds \<Rightarrow> bytes \<Rightarrow> bool" where
  "bounds_contains r key \<longleftrightarrow> lower_pos r \<le> PosKey key \<and> PosKey key < upper_pos r"

definition bounds_overlaps :: "range_bounds \<Rightarrow> range_bounds \<Rightarrow> bool" where
  "bounds_overlaps a b \<longleftrightarrow> lower_pos a < upper_pos b \<and> lower_pos b < upper_pos a"

definition bounds_intersection :: "range_bounds \<Rightarrow> range_bounds \<Rightarrow> range_bounds option" where
  "bounds_intersection a b =
     (if \<not> bounds_overlaps a b then None
      else Some \<lparr>rb_lower = (if lower_pos a \<ge> lower_pos b then rb_lower a else rb_lower b),
                 rb_upper = (if upper_pos a \<le> upper_pos b then rb_upper a else rb_upper b)\<rparr>)"

definition bounds_split_at :: "range_bounds \<Rightarrow> bytes \<Rightarrow> range_bounds_error + (range_bounds \<times> range_bounds)" where
  "bounds_split_at r at_key =
     (if PosKey at_key \<le> lower_pos r \<or> PosKey at_key \<ge> upper_pos r then Inl RangeBoundsError
      else Inr (\<lparr>rb_lower = rb_lower r, rb_upper = BoundKey at_key\<rparr>,
                \<lparr>rb_lower = BoundKey at_key, rb_upper = rb_upper r\<rparr>))"

definition bounds_ok :: "range_bounds \<Rightarrow> bool" where
  "bounds_ok r \<longleftrightarrow> lower_pos r < upper_pos r"

lemma overlaps_sym: "bounds_overlaps a b \<longleftrightarrow> bounds_overlaps b a"
  by (auto simp: bounds_overlaps_def)

lemma contains_overlaps: "bounds_contains a k \<Longrightarrow> bounds_contains b k \<Longrightarrow> bounds_overlaps a b"
  unfolding bounds_contains_def bounds_overlaps_def by (meson le_less_trans)

lemma bounds_new_ok: "bounds_new l u = Inr r \<longleftrightarrow> bounds_ok r \<and> r = \<lparr>rb_lower = l, rb_upper = u\<rparr>"
  by (auto simp: bounds_new_def bounds_ok_def)

lemma intersection_ok:
  assumes "bounds_ok a" and "bounds_ok b" and "bounds_intersection a b = Some c"
  shows "bounds_ok c" and "bounds_contains c k \<longleftrightarrow> bounds_contains a k \<and> bounds_contains b k"
  using assms by (auto simp: bounds_intersection_def bounds_ok_def bounds_contains_def bounds_overlaps_def split: if_splits)

lemma intersection_None: "bounds_intersection a b = None \<longleftrightarrow> \<not> bounds_overlaps a b"
  by (simp add: bounds_intersection_def)

text \<open>Two well-formed ranges overlap exactly when they share a key, unless the shared part is the range below the empty key.\<close>

lemma overlaps_iff_shared_key:
  assumes "bounds_ok a" and "bounds_ok b" and "rb_upper a \<noteq> BoundKey []" and "rb_upper b \<noteq> BoundKey []"
  shows "bounds_overlaps a b \<longleftrightarrow> (\<exists>k. bounds_contains a k \<and> bounds_contains b k)"
proof
  have nonempty: "\<exists>k. bounds_contains c k" if "bounds_ok c" and "rb_upper c \<noteq> BoundKey []" for c
  proof (cases "rb_lower c")
    case BoundMin
    with that have "bounds_contains c []"
      by (cases "rb_upper c") (auto simp: bounds_contains_def bounds_ok_def neq_Nil_conv)
    then show ?thesis ..
  next
    case (BoundKey k)
    with that have "bounds_contains c k" by (simp add: bounds_contains_def bounds_ok_def)
    then show ?thesis ..
  qed (use that in \<open>simp add: bounds_ok_def\<close>)
  assume "bounds_overlaps a b"
  then obtain c where c: "bounds_intersection a b = Some c" by (auto simp: bounds_intersection_def)
  moreover have "rb_upper c \<noteq> BoundKey []" using assms(3,4) c by (auto simp: bounds_intersection_def split: if_splits)
  ultimately show "\<exists>k. bounds_contains a k \<and> bounds_contains b k"
    using nonempty [of c] intersection_ok [OF assms(1,2) c] by blast
qed (blast intro: contains_overlaps)

lemma split_at_ok:
  assumes "bounds_split_at r p = Inr (lo, hi)"
  shows "bounds_ok lo" "bounds_ok hi" "\<not> bounds_overlaps lo hi"
    "bounds_contains r k \<longleftrightarrow> bounds_contains lo k \<or> bounds_contains hi k"
    "bounds_overlaps lo x \<Longrightarrow> bounds_overlaps r x" "bounds_overlaps hi x \<Longrightarrow> bounds_overlaps r x"
proof -
  have p: "lower_pos r < PosKey p" "PosKey p < upper_pos r" and lo: "lo = \<lparr>rb_lower = rb_lower r, rb_upper = BoundKey p\<rparr>"
    and hi: "hi = \<lparr>rb_lower = BoundKey p, rb_upper = rb_upper r\<rparr>"
    using assms by (simp_all add: bounds_split_at_def not_le split: if_splits)
  from p show "bounds_ok lo" "bounds_ok hi" "\<not> bounds_overlaps lo hi" by (simp_all add: lo hi bounds_ok_def bounds_overlaps_def)
  show "bounds_contains r k \<longleftrightarrow> bounds_contains lo k \<or> bounds_contains hi k"
  proof (cases "k < p")
    case True
    then have "PosKey k < PosKey p" by simp
    from less_trans [OF this p(2)] have "PosKey k < upper_pos r" .
    with True show ?thesis by (auto simp: lo hi bounds_contains_def)
  next
    case False
    then have "PosKey p \<le> PosKey k" by simp
    with less_imp_le [OF p(1)] have "lower_pos r \<le> PosKey k" by (rule order_trans)
    with False show ?thesis by (auto simp: lo hi bounds_contains_def)
  qed
  show "bounds_overlaps lo x \<Longrightarrow> bounds_overlaps r x" "bounds_overlaps hi x \<Longrightarrow> bounds_overlaps r x"
    using p by (auto simp: lo hi bounds_overlaps_def intro: less_trans)
qed

end
