(* ===== verification/Placement_Authority.thy ===== *)
theory Placement_Authority
  imports Range_Bounds
begin

section \<open>Placement authorities\<close>

text \<open>
  \<open>PlacementAuthorityCatalog\<close> of \<open>src/crates/reddb-server/src/cluster/ownership.rs\<close>: each collection group has one placement
  authority, which publishes slices of the collection catalog, and the slices of different groups must not
  overlap. Groups are assigned one by one (\<open>assign\<close>) or replaced together (splits, merges, reassignments
  and administrative replacement all go through \<open>replace_assignments\<close>).
\<close>

record group_authority =
  ga_group :: string
  ga_authority :: string
  ga_slices :: "(string \<times> range_bounds) list"

datatype placement_error =
    EmptyCatalogSlice string
  | DuplicateCollectionGroup string
  | OverlappingCatalogSlice string string string string string range_bounds

type_synonym authority_catalog = "(string, group_authority) bmap"

definition group_authority_new :: "string \<Rightarrow> string \<Rightarrow> string list \<Rightarrow> placement_error + group_authority" where
  "group_authority_new grp authority collections =
     (let cs = map fst (fold (\<lambda>c m. bput c () m) collections []) in
      if cs = [] then Inl (EmptyCatalogSlice grp)
      else Inr \<lparr>ga_group = grp, ga_authority = authority, ga_slices = map (\<lambda>c. (c, bounds_full)) cs\<rparr>)"

definition group_with_slices :: "string \<Rightarrow> string \<Rightarrow> (string \<times> range_bounds) list \<Rightarrow> placement_error + group_authority" where
  "group_with_slices grp authority slices =
     (if slices = [] then Inl (EmptyCatalogSlice grp)
      else Inr \<lparr>ga_group = grp, ga_authority = authority, ga_slices = slices\<rparr>)"

definition slice_overlaps :: "string \<times> range_bounds \<Rightarrow> (string \<times> range_bounds) list \<Rightarrow> (string \<times> range_bounds) list" where
  "slice_overlaps existing attempted =
     List.map_filter (\<lambda>(c, b). if fst existing = c then map_option (Pair c) (bounds_intersection (snd existing) b) else None) attempted"

definition ga_overlaps :: "group_authority \<Rightarrow> group_authority \<Rightarrow> (string \<times> range_bounds) option" where
  "ga_overlaps a b =
     (case concat (map (\<lambda>s. slice_overlaps s (ga_slices b)) (ga_slices a)) of [] \<Rightarrow> None | x # _ \<Rightarrow> Some x)"

definition overlap_error :: "group_authority \<Rightarrow> group_authority \<Rightarrow> string \<times> range_bounds \<Rightarrow> placement_error" where
  "overlap_error existing attempted found =
     OverlappingCatalogSlice (fst found) (ga_group existing) (ga_authority existing) (ga_group attempted) (ga_authority attempted) (snd found)"

fun check_overlaps :: "group_authority list \<Rightarrow> group_authority \<Rightarrow> placement_error + unit" where
  "check_overlaps [] a = Inr ()"
| "check_overlaps (existing # rest) a =
     (case ga_overlaps existing a of Some found \<Rightarrow> Inl (overlap_error existing a found) | None \<Rightarrow> check_overlaps rest a)"

definition validate_assignment :: "authority_catalog \<Rightarrow> group_authority \<Rightarrow> placement_error + unit" where
  "validate_assignment cat a =
     (if map_of cat (ga_group a) \<noteq> None then Inl (DuplicateCollectionGroup (ga_group a))
      else check_overlaps (map snd cat) a)"

definition assign :: "group_authority \<Rightarrow> authority_catalog \<Rightarrow> placement_error + authority_catalog" where
  "assign a cat = and_then (validate_assignment cat a) (\<lambda>_. Inr (bput (ga_group a) a cat))"

definition authority_for_collection :: "authority_catalog \<Rightarrow> string \<Rightarrow> group_authority option" where
  "authority_for_collection cat c = find (\<lambda>a. list_ex (\<lambda>s. fst s = c) (ga_slices a)) (map snd cat)"

definition replace_one :: "authority_catalog \<Rightarrow> group_authority \<Rightarrow> placement_error + authority_catalog" where
  "replace_one cat a =
     (case map_of cat (ga_group a) of
        Some existing \<Rightarrow>
          (case ga_overlaps existing a of
             Some found \<Rightarrow> Inl (overlap_error existing a found)
           | None \<Rightarrow>
               if ga_authority existing \<noteq> ga_authority a then Inl (DuplicateCollectionGroup (ga_group a))
               else Inr (bput (ga_group existing) (existing\<lparr>ga_slices := ga_slices existing @ ga_slices a\<rparr>) cat))
      | None \<Rightarrow> and_then (check_overlaps (map snd cat) a) (\<lambda>_. Inr (bput (ga_group a) a cat)))"

definition replace_assignments :: "string list \<Rightarrow> group_authority list \<Rightarrow> authority_catalog \<Rightarrow> placement_error + authority_catalog" where
  "replace_assignments retired replacements cat =
     try_fold replace_one (filter (\<lambda>(g, _). g \<notin> set retired) cat) replacements"

definition split_collection_group_slice ::
  "string \<Rightarrow> group_authority \<Rightarrow> group_authority \<Rightarrow> authority_catalog \<Rightarrow> placement_error + authority_catalog" where
  "split_collection_group_slice retired retained carved = replace_assignments [retired] [retained, carved]"

definition merge_collection_group_slices ::
  "string list \<Rightarrow> group_authority \<Rightarrow> authority_catalog \<Rightarrow> placement_error + authority_catalog" where
  "merge_collection_group_slices retired merged = replace_assignments retired [merged]"

definition reassign_collection_group_slice ::
  "string \<Rightarrow> group_authority \<Rightarrow> group_authority \<Rightarrow> authority_catalog \<Rightarrow> placement_error + authority_catalog" where
  "reassign_collection_group_slice retired retained reassigned = replace_assignments [retired] [retained, reassigned]"

subsection \<open>Slices of different groups\<close>

definition slices_disjoint :: "group_authority \<Rightarrow> group_authority \<Rightarrow> bool" where
  "slices_disjoint a b \<longleftrightarrow> (\<forall>c x y. (c, x) \<in> set (ga_slices a) \<longrightarrow> (c, y) \<in> set (ga_slices b) \<longrightarrow> \<not> bounds_overlaps x y)"

definition authority_wf :: "authority_catalog \<Rightarrow> bool" where
  "authority_wf cat \<longleftrightarrow> bmap_wf cat \<and> (\<forall>g a. map_of cat g = Some a \<longrightarrow> ga_group a = g) \<and>
     (\<forall>g h a b. map_of cat g = Some a \<longrightarrow> map_of cat h = Some b \<longrightarrow> g \<noteq> h \<longrightarrow> slices_disjoint a b)"

lemma authority_wfD:
  assumes "authority_wf cat"
  shows "bmap_wf cat" "map_of cat g = Some a \<Longrightarrow> ga_group a = g"
    "map_of cat g = Some a \<Longrightarrow> map_of cat h = Some b \<Longrightarrow> g \<noteq> h \<Longrightarrow> slices_disjoint a b"
  using assms unfolding authority_wf_def by blast+

lemma slices_disjoint_sym: "slices_disjoint a b \<Longrightarrow> slices_disjoint b a"
  unfolding slices_disjoint_def using overlaps_sym by blast

lemma slice_overlaps_Nil:
  "slice_overlaps s bs = [] \<longleftrightarrow> (\<forall>y. (fst s, y) \<in> set bs \<longrightarrow> \<not> bounds_overlaps (snd s) y)"
  by (induction bs) (auto simp: slice_overlaps_def intersection_None [symmetric] split: option.splits prod.splits)

lemma first_None: "(case l of [] \<Rightarrow> None | x # _ \<Rightarrow> Some x) = None \<longleftrightarrow> l = []"
  by (cases l) simp_all

lemma ga_overlaps_None: "ga_overlaps a b = None \<longleftrightarrow> slices_disjoint a b"
proof -
  have "ga_overlaps a b = None \<longleftrightarrow> (\<forall>s \<in> set (ga_slices a). slice_overlaps s (ga_slices b) = [])"
    unfolding ga_overlaps_def first_None by simp
  then show ?thesis by (fastforce simp: slice_overlaps_Nil slices_disjoint_def)
qed

lemma check_overlaps_ok: "check_overlaps xs a = Inr () \<longleftrightarrow> (\<forall>x \<in> set xs. slices_disjoint x a)"
  by (induction xs) (auto simp: ga_overlaps_None [symmetric] split: option.splits)

lemma authority_wf_put:
  assumes "authority_wf cat" and "check_overlaps (map snd cat) a = Inr ()"
  shows "authority_wf (bput (ga_group a) a cat)"
proof -
  have "slices_disjoint b a" "slices_disjoint a b" if "map_of cat g = Some b" for g b
    using that assms(2) slices_disjoint_sym unfolding check_overlaps_ok by (force dest: map_of_SomeD)+
  then show ?thesis using authority_wfD [OF assms(1)] unfolding authority_wf_def by (auto simp: bget_bput split: if_splits)
qed

lemma assign_ok: "authority_wf cat \<Longrightarrow> assign a cat = Inr cat' \<Longrightarrow> authority_wf cat'"
  by (auto simp: assign_def and_then_Inr validate_assignment_def authority_wf_put split: if_splits)

lemma authority_wf_retire: "authority_wf cat \<Longrightarrow> authority_wf (filter (\<lambda>(g, _). g \<notin> set retired) cat)"
proof -
  assume wf: "authority_wf cat"
  have "map_of (filter (\<lambda>(g, _). g \<notin> set retired) cat) g = Some a \<Longrightarrow> map_of cat g = Some a" for g a
    using bget_iff [OF authority_wfD(1) [OF wf]] by (auto dest: map_of_SomeD)
  then show ?thesis
    using authority_wfD [OF wf] bmap_wf_filter [OF authority_wfD(1) [OF wf]] unfolding authority_wf_def by blast
qed

text \<open>A replacement whose group does not survive the retirement is checked against every other group.\<close>

lemma replace_one_fresh:
  assumes "authority_wf cat" and "map_of cat (ga_group a) = None" and "replace_one cat a = Inr cat'"
  shows "authority_wf cat'"
  using assms by (auto simp: replace_one_def and_then_Inr authority_wf_put)

lemma replace_one_keys:
  "map_of cat (ga_group a) = None \<Longrightarrow> replace_one cat a = Inr cat' \<Longrightarrow> map_of cat' g = (if g = ga_group a then Some a else map_of cat g)"
  by (auto simp: replace_one_def and_then_Inr bget_bput)

lemma replace_fresh:
  "authority_wf cat \<Longrightarrow> distinct (map ga_group as) \<Longrightarrow> \<forall>a \<in> set as. map_of cat (ga_group a) = None \<Longrightarrow>
   try_fold replace_one cat as = Inr cat' \<Longrightarrow> authority_wf cat'"
proof (induction as arbitrary: cat)
  case (Cons a as)
  then obtain cat1 where 1: "replace_one cat a = Inr cat1" "try_fold replace_one cat1 as = Inr cat'"
    by (auto simp: and_then_Inr)
  have fresh: "map_of cat (ga_group a) = None" using Cons.prems(3) by simp
  have "map_of cat1 (ga_group b) = None" if "b \<in> set as" for b
  proof -
    have "ga_group a \<notin> ga_group ` set as" using Cons.prems(2) by simp
    with imageI [OF that, of ga_group] have "ga_group b \<noteq> ga_group a" by metis
    with Cons.prems(3) that show ?thesis using replace_one_keys [OF fresh 1(1), of "ga_group b"] by simp
  qed
  with Cons.IH [OF replace_one_fresh [OF Cons.prems(1) fresh 1(1)]] Cons.prems(2) 1(2) show ?case by simp
qed simp

lemma replace_assignments_wf:
  assumes "authority_wf cat" and "replace_assignments retired as cat = Inr cat'" and "distinct (map ga_group as)"
    and "\<forall>a \<in> set as. map_of cat (ga_group a) = None \<or> ga_group a \<in> set retired"
  shows "authority_wf cat'"
proof -
  let ?next = "filter (\<lambda>(g, _). g \<notin> set retired) cat"
  have "map_of ?next (ga_group a) = None" if "a \<in> set as" for a
    using assms(4) that by (force simp: map_of_eq_None_iff)
  with replace_fresh [OF authority_wf_retire [OF assms(1)] assms(3)] assms(2) show ?thesis
    unfolding replace_assignments_def by blast
qed

text \<open>Catalogs built by assignments and by replacements that do not extend a surviving group.\<close>

inductive authority_reach :: "authority_catalog \<Rightarrow> bool" where
  empty: "authority_reach []"
| assigned: "authority_reach cat \<Longrightarrow> assign a cat = Inr cat' \<Longrightarrow> authority_reach cat'"
| replaced: "authority_reach cat \<Longrightarrow> replace_assignments retired as cat = Inr cat' \<Longrightarrow> distinct (map ga_group as) \<Longrightarrow>
     \<forall>a \<in> set as. map_of cat (ga_group a) = None \<or> ga_group a \<in> set retired \<Longrightarrow> authority_reach cat'"

lemma authority_reach_wf: "authority_reach cat \<Longrightarrow> authority_wf cat"
  by (induction rule: authority_reach.induct) (simp add: authority_wf_def, blast intro: assign_ok, blast intro: replace_assignments_wf)

text \<open>
  C28: placement authorities do not overlap. In every catalog built by accepted assignments, splits, merges
  and reassignments whose replacement groups are distinct and each new or retired, a key of a collection is covered by the
  slices of at most one group.
\<close>

theorem placement_authorities_disjoint:
  assumes "authority_reach cat" and "map_of cat g = Some a" and "map_of cat h = Some b"
    and "(c, x) \<in> set (ga_slices a)" and "(c, y) \<in> set (ga_slices b)" and "bounds_contains x k" and "bounds_contains y k"
  shows "g = h"
proof (rule ccontr)
  assume "g \<noteq> h"
  from authority_wfD(3) [OF authority_reach_wf [OF assms(1)] assms(2,3) this] assms(4,5) have "\<not> bounds_overlaps x y"
    unfolding slices_disjoint_def by blast
  with contains_overlaps [OF assms(6,7)] show False by simp
qed

definition demo_low :: range_bounds where
  "demo_low = \<lparr>rb_lower = BoundMin, rb_upper = BoundKey [128]\<rparr>"

definition demo_high :: range_bounds where
  "demo_high = \<lparr>rb_lower = BoundKey [128], rb_upper = BoundMax\<rparr>"

definition demo_groups :: authority_catalog where
  "demo_groups =
     [(''eu'', \<lparr>ga_group = ''eu'', ga_authority = ''a'', ga_slices = [(''orders'', demo_low)]\<rparr>),
      (''us'', \<lparr>ga_group = ''us'', ga_authority = ''b'', ga_slices = [(''orders'', demo_high)]\<rparr>)]"

lemmas demo_group_defs = demo_groups_def assign_def validate_assignment_def ga_overlaps_def slice_overlaps_def map_filter_simps
  bounds_intersection_def bounds_overlaps_def demo_low_def demo_high_def

lemma demo_groups_reach: "authority_reach demo_groups"
proof (rule authority_reach.assigned [OF authority_reach.assigned [OF authority_reach.empty]])
  show "assign \<lparr>ga_group = ''eu'', ga_authority = ''a'', ga_slices = [(''orders'', demo_low)]\<rparr> [] = Inr (take 1 demo_groups)"
    by (simp add: demo_group_defs)
  show "assign \<lparr>ga_group = ''us'', ga_authority = ''b'', ga_slices = [(''orders'', demo_high)]\<rparr> (take 1 demo_groups) = Inr demo_groups"
    by (simp add: demo_group_defs)
qed

theorem placement_authorities_disjoint_witness:
  "authority_reach demo_groups \<and> \<not> (bounds_contains demo_low [7] \<and> bounds_contains demo_high [7])"
proof -
  have "\<not> bounds_contains demo_high [7]" if "bounds_contains demo_low [7]"
    using placement_authorities_disjoint [OF demo_groups_reach, of "''eu''" "snd (demo_groups ! 0)" "''us''" "snd (demo_groups ! 1)" "''orders''" demo_low demo_high "[7]"] that
    by (auto simp: demo_groups_def)
  with demo_groups_reach show ?thesis by blast
qed

text \<open>
  C29: a replacement into a surviving group can overlap another group. A replacement that names a surviving
  group of the same authority is only checked against that group before its slices are added, so an
  accepted reassignment can give one key two placement authorities.
\<close>

theorem replacement_can_overlap:
  "\<exists>cat cat' retired retained moved g h a b c x y k. authority_reach cat \<and>
    reassign_collection_group_slice retired retained moved cat = Inr cat' \<and>
    map_of cat' g = Some a \<and> map_of cat' h = Some b \<and> ga_authority a \<noteq> ga_authority b \<and>
    (c, x) \<in> set (ga_slices a) \<and> (c, y) \<in> set (ga_slices b) \<and> bounds_contains x k \<and> bounds_contains y k"
proof -
  let ?kept = "\<lparr>ga_group = ''ap'', ga_authority = ''c'', ga_slices = [(''carts'', bounds_full)]\<rparr>"
  let ?moved = "\<lparr>ga_group = ''eu'', ga_authority = ''a'', ga_slices = [(''orders'', demo_high)]\<rparr>"
  let ?eu = "\<lparr>ga_group = ''eu'', ga_authority = ''a'', ga_slices = [(''orders'', demo_low), (''orders'', demo_high)]\<rparr>"
  let ?us = "\<lparr>ga_group = ''us'', ga_authority = ''b'', ga_slices = [(''orders'', demo_high)]\<rparr>"
  let ?cat' = "[(''ap'', ?kept), (''eu'', ?eu), (''us'', ?us)]"
  have "reassign_collection_group_slice ''ap'' ?kept ?moved demo_groups = Inr ?cat'"
    by (simp add: reassign_collection_group_slice_def replace_assignments_def replace_one_def demo_group_defs)
  moreover have "map_of ?cat' ''eu'' = Some ?eu" "map_of ?cat' ''us'' = Some ?us" "ga_authority ?eu \<noteq> ga_authority ?us"
      "(''orders'', demo_high) \<in> set (ga_slices ?eu)" "(''orders'', demo_high) \<in> set (ga_slices ?us)" "bounds_contains demo_high [200]"
    by (simp_all add: bounds_contains_def demo_high_def)
  ultimately show ?thesis using demo_groups_reach by blast
qed

end
