(* ===== verification/Fencing.thy ===== *)
theory Fencing
  imports Main
begin

section \<open>Fencing tokens\<close>

text \<open>
  The contract the ownership catalog and the replication layer give their clients. A resource is held by
  one holder under a numbered token (an ownership epoch); a step of the provider keeps the token and the
  holder or raises the token. Then two holders that were authorised under the same token of the same
  resource, however far apart in a run, are the same holder, and a token that was replaced never comes
  back.
\<close>

locale fencing =
  fixes step :: "'s \<Rightarrow> 's \<Rightarrow> bool"
    and authority :: "'s \<Rightarrow> 'k \<Rightarrow> (nat \<times> 'n) option"
    and valid :: "'s \<Rightarrow> bool"
  assumes step_valid: "valid s \<Longrightarrow> step s s' \<Longrightarrow> valid s'"
    and step_authority: "valid s \<Longrightarrow> step s s' \<Longrightarrow> authority s k = Some (e, n) \<Longrightarrow>
      \<exists>e' n'. authority s' k = Some (e', n') \<and> (e < e' \<or> e = e' \<and> n = n')"
begin

lemma run_valid: "step\<^sup>*\<^sup>* s s' \<Longrightarrow> valid s \<Longrightarrow> valid s'"
  by (induction rule: rtranclp_induct) (auto intro: step_valid)

lemma run_authority:
  "step\<^sup>*\<^sup>* s s' \<Longrightarrow> valid s \<Longrightarrow> authority s k = Some (e, n) \<Longrightarrow>
   \<exists>e' n'. authority s' k = Some (e', n') \<and> (e < e' \<or> e = e' \<and> n = n')"
proof (induction rule: rtranclp_induct)
  case (step s1 s2)
  then obtain e1 n1 where 1: "authority s1 k = Some (e1, n1)" "e < e1 \<or> e = e1 \<and> n = n1" by blast
  from step_authority [OF run_valid [OF step(1,4)] step(2) 1(1)] 1(2) show ?case by fastforce
qed simp

lemma one_holder_per_token:
  "step\<^sup>*\<^sup>* s s' \<Longrightarrow> valid s \<Longrightarrow> authority s k = Some (e, n) \<Longrightarrow> authority s' k = Some (e, n') \<Longrightarrow> n' = n"
  using run_authority by fastforce

lemma token_monotone:
  "step\<^sup>*\<^sup>* s s' \<Longrightarrow> valid s \<Longrightarrow> authority s k = Some (e, n) \<Longrightarrow> authority s' k = Some (e', n') \<Longrightarrow> e \<le> e'"
  using run_authority by fastforce

end

end
