(* ===== verification/Shard_Catalog.thy ===== *)
theory Shard_Catalog
  imports Range_Bounds Fencing
begin

section \<open>The shard ownership catalog\<close>

text \<open>
  \<open>RangeOwnership\<close> and \<open>ShardOwnershipCatalog\<close> of \<open>src/crates/reddb-server/src/cluster/ownership.rs\<close>, and the hash slots of
  \<open>src/crates/reddb-server/src/cluster/slot.rs\<close>: the entries that name the owner, the replicas, the fencing epoch and the catalog
  version of a range, the transitions off an entry, the single write path \<open>apply_update\<close>, the split of a range
  (\<open>move_range.rs\<close>), routing, and the ownership gate of a public write. Identifiers are the strings and numbers their newtypes wrap; the
  counters of epochs and versions wrap at 64 bits. \<open>blake3\<close> is the digest of the hash crate.
\<close>

datatype shard_key_mode = HashMode | OrderedMode

record placement_metadata =
  replication_factor :: nat
  placement_attributes :: "(string, string) bmap"

definition with_replication_factor :: "nat \<Rightarrow> placement_metadata" where
  "with_replication_factor n = \<lparr>replication_factor = n, placement_attributes = []\<rparr>"

record range_ownership =
  ro_collection :: string
  ro_group :: string
  ro_authority :: string
  ro_range_id :: nat
  ro_mode :: shard_key_mode
  ro_bounds :: range_bounds
  ro_owner :: string
  ro_replicas :: "string list"
  ro_archives :: "string list"
  ro_epoch :: nat
  ro_version :: nat
  ro_placement :: placement_metadata

datatype range_role = RoleOwner | RoleReplica | RoleArchiveReplica | RoleNoCopy

datatype update_outcome = Created | Updated

datatype catalog_error =
    StaleVersion string nat nat nat
  | ShardKeyModeMismatch string shard_key_mode shard_key_mode
  | OverlappingRange string nat nat
  | InvalidReplicaRoles string nat

datatype hot_mirror_refusal = NotReplica string range_role | WatermarkNotCovered nat nat

datatype range_write_reject =
    NoRange string
  | NotOwner string nat range_role string
  | StaleEpoch string nat nat nat

subsection \<open>Entries and their transitions\<close>

definition establish ::
  "string \<Rightarrow> nat \<Rightarrow> shard_key_mode \<Rightarrow> range_bounds \<Rightarrow> string \<Rightarrow> string list \<Rightarrow> placement_metadata \<Rightarrow> range_ownership" where
  "establish collection range_id mode bounds owner replicas placement =
     \<lparr>ro_collection = collection, ro_group = collection, ro_authority = ''global-placement-authority'',
      ro_range_id = range_id, ro_mode = mode, ro_bounds = bounds, ro_owner = owner, ro_replicas = replicas,
      ro_archives = [], ro_epoch = 1, ro_version = 1, ro_placement = placement\<rparr>"

definition next_version :: "range_ownership \<Rightarrow> range_ownership" where
  "next_version r = r\<lparr>ro_version := wrapping_add64 (ro_version r) 1\<rparr>"

definition transfer_to :: "string \<Rightarrow> string list \<Rightarrow> range_ownership \<Rightarrow> range_ownership" where
  "transfer_to new_owner new_replicas r =
     (next_version r)\<lparr>ro_owner := new_owner, ro_replicas := new_replicas, ro_epoch := wrapping_add64 (ro_epoch r) 1\<rparr>"

definition update_replicas :: "string list \<Rightarrow> range_ownership \<Rightarrow> range_ownership" where
  "update_replicas new_replicas r = (next_version r)\<lparr>ro_replicas := new_replicas\<rparr>"

definition with_compressed_archive_replicas :: "string list \<Rightarrow> range_ownership \<Rightarrow> range_ownership" where
  "with_compressed_archive_replicas archives r = (next_version r)\<lparr>ro_archives := archives\<rparr>"

definition update_replica_roles :: "string list \<Rightarrow> string list \<Rightarrow> range_ownership \<Rightarrow> range_ownership" where
  "update_replica_roles hot archives r = (next_version r)\<lparr>ro_replicas := hot, ro_archives := archives\<rparr>"

definition update_placement :: "placement_metadata \<Rightarrow> range_ownership \<Rightarrow> range_ownership" where
  "update_placement p r = (next_version r)\<lparr>ro_placement := p\<rparr>"

definition with_bounds :: "range_bounds \<Rightarrow> range_ownership \<Rightarrow> range_ownership" where
  "with_bounds b r = (next_version r)\<lparr>ro_bounds := b\<rparr>"

definition role_of :: "range_ownership \<Rightarrow> string \<Rightarrow> range_role" where
  "role_of r node =
     (if ro_owner r = node then RoleOwner
      else if node \<in> set (ro_replicas r) then RoleReplica
      else if node \<in> set (ro_archives r) then RoleArchiveReplica
      else RoleNoCopy)"

definition may_write_public :: "range_role \<Rightarrow> bool" where
  "may_write_public role \<longleftrightarrow> role = RoleOwner"

definition promote_hot_mirror ::
  "string \<Rightarrow> nat \<Rightarrow> nat \<Rightarrow> range_ownership \<Rightarrow> hot_mirror_refusal + (range_ownership \<times> range_ownership)" where
  "promote_hot_mirror node durable commit_watermark r =
     (if role_of r node \<noteq> RoleReplica then Inl (NotReplica node (role_of r node))
      else if durable < commit_watermark then Inl (WatermarkNotCovered durable commit_watermark)
      else Inr (r, transfer_to node (ro_owner r # filter (\<lambda>n. n \<noteq> node) (ro_replicas r)) r))"

fun no_duplicate_roles :: "string \<Rightarrow> string list \<Rightarrow> string list \<Rightarrow> string list option" where
  "no_duplicate_roles owner seen [] = Some seen"
| "no_duplicate_roles owner seen (n # ns) =
     (if n = owner \<or> n \<in> set seen then None else no_duplicate_roles owner (n # seen) ns)"

definition validate_replica_roles :: "range_ownership \<Rightarrow> catalog_error + unit" where
  "validate_replica_roles r =
     (let err = InvalidReplicaRoles (ro_collection r) (ro_range_id r) in
      case no_duplicate_roles (ro_owner r) [] (ro_replicas r) of
        None \<Rightarrow> Inl err
      | Some seen \<Rightarrow> (case no_duplicate_roles (ro_owner r) seen (ro_archives r) of None \<Rightarrow> Inl err | Some _ \<Rightarrow> Inr ()))"

subsection \<open>The catalog\<close>

record shard_catalog =
  cat_collections :: "(string, shard_key_mode) bmap"
  cat_ranges :: "(string \<times> nat, range_ownership) bmap"

definition catalog_new :: shard_catalog where
  "catalog_new = \<lparr>cat_collections = [], cat_ranges = []\<rparr>"

definition entries :: "shard_catalog \<Rightarrow> range_ownership list" where
  "entries cat = map snd (cat_ranges cat)"

definition declare_collection :: "string \<Rightarrow> shard_key_mode \<Rightarrow> shard_catalog \<Rightarrow> (catalog_error + unit) \<times> shard_catalog" where
  "declare_collection collection mode cat =
     (case map_of (cat_collections cat) collection of
        Some declared \<Rightarrow>
          if declared \<noteq> mode then (Inl (ShardKeyModeMismatch collection declared mode), cat)
          else (Inr (), cat\<lparr>cat_collections := bput collection mode (cat_collections cat)\<rparr>)
      | None \<Rightarrow> (Inr (), cat\<lparr>cat_collections := bput collection mode (cat_collections cat)\<rparr>))"

definition ranges_for :: "shard_catalog \<Rightarrow> string \<Rightarrow> range_ownership list" where
  "ranges_for cat collection = map snd (filter (\<lambda>(k, _). fst k = collection) (cat_ranges cat))"

definition catalog_range :: "shard_catalog \<Rightarrow> string \<Rightarrow> nat \<Rightarrow> range_ownership option" where
  "catalog_range cat collection range_id = map_of (cat_ranges cat) (collection, range_id)"

definition overlapping_sibling :: "shard_catalog \<Rightarrow> range_ownership \<Rightarrow> nat option" where
  "overlapping_sibling cat entry =
     map_option ro_range_id
       (find (\<lambda>r. ro_range_id r \<noteq> ro_range_id entry \<and> bounds_overlaps (ro_bounds r) (ro_bounds entry))
          (ranges_for cat (ro_collection entry)))"

definition catalog_store :: "range_ownership \<Rightarrow> shard_catalog \<Rightarrow> shard_catalog" where
  "catalog_store entry cat =
     \<lparr>cat_collections = bput (ro_collection entry) (ro_mode entry) (cat_collections cat),
      cat_ranges = bput (ro_collection entry, ro_range_id entry) entry (cat_ranges cat)\<rparr>"

definition check_mode :: "shard_catalog \<Rightarrow> range_ownership \<Rightarrow> catalog_error + unit" where
  "check_mode cat entry =
     (case map_of (cat_collections cat) (ro_collection entry) of
        Some declared \<Rightarrow>
          if declared \<noteq> ro_mode entry then Inl (ShardKeyModeMismatch (ro_collection entry) declared (ro_mode entry)) else Inr ()
      | None \<Rightarrow> Inr ())"

definition check_sibling :: "shard_catalog \<Rightarrow> range_ownership \<Rightarrow> catalog_error + unit" where
  "check_sibling cat entry =
     (case overlapping_sibling cat entry of
        Some existing \<Rightarrow> Inl (OverlappingRange (ro_collection entry) existing (ro_range_id entry))
      | None \<Rightarrow> Inr ())"

definition check_version :: "shard_catalog \<Rightarrow> range_ownership \<Rightarrow> catalog_error + update_outcome" where
  "check_version cat entry =
     (case catalog_range cat (ro_collection entry) (ro_range_id entry) of
        Some current \<Rightarrow>
          if ro_version entry \<le> ro_version current
          then Inl (StaleVersion (ro_collection entry) (ro_range_id entry) (ro_version current) (ro_version entry))
          else Inr Updated
      | None \<Rightarrow> Inr Created)"

definition check_update :: "shard_catalog \<Rightarrow> range_ownership \<Rightarrow> catalog_error + update_outcome" where
  "check_update cat entry =
     and_then (validate_replica_roles entry) (\<lambda>_.
     and_then (check_mode cat entry) (\<lambda>_.
     and_then (check_version cat entry) (\<lambda>outcome.
     and_then (check_sibling cat entry) (\<lambda>_. Inr outcome))))"

definition apply_update :: "range_ownership \<Rightarrow> shard_catalog \<Rightarrow> (catalog_error + update_outcome) \<times> shard_catalog" where
  "apply_update entry cat =
     (case check_update cat entry of
        Inl e \<Rightarrow> (Inl e, cat)
      | Inr outcome \<Rightarrow> (Inr outcome, catalog_store entry cat))"

text \<open>
  A split of a range, from \<open>move_range.rs\<close>: the retained child keeps the identity of the range with narrower bounds, the
  moved child is a new range of the same owner with the move target as a replica. Installing a split applies
  the retained child first.
\<close>

datatype split_side = SplitLower | SplitUpper

datatype split_error = SplitBounds | MovedIdCollision nat

record range_split =
  split_retained :: range_ownership
  split_moved :: range_ownership

definition split_range :: "range_ownership \<Rightarrow> bytes \<Rightarrow> split_side \<Rightarrow> nat \<Rightarrow> string \<Rightarrow> split_error + range_split" where
  "split_range r split_key moved_side moved_id target =
     (if moved_id = ro_range_id r then Inl (MovedIdCollision moved_id)
      else case bounds_split_at (ro_bounds r) split_key of
          Inl _ \<Rightarrow> Inl SplitBounds
        | Inr (lower_bounds, upper_bounds) \<Rightarrow>
            let (retained_bounds, moved_bounds) =
                  (case moved_side of SplitLower \<Rightarrow> (upper_bounds, lower_bounds) | SplitUpper \<Rightarrow> (lower_bounds, upper_bounds));
                replicas = (if target \<in> set (ro_replicas r) then ro_replicas r else ro_replicas r @ [target]) in
            Inr \<lparr>split_retained = with_bounds retained_bounds r,
                 split_moved = establish (ro_collection r) moved_id (ro_mode r) moved_bounds (ro_owner r) replicas (ro_placement r)\<rparr>)"

definition split_apply :: "range_split \<Rightarrow> shard_catalog \<Rightarrow> (catalog_error + unit) \<times> shard_catalog" where
  "split_apply sp cat =
     (case apply_update (split_retained sp) cat of
        (Inl e, cat1) \<Rightarrow> (Inl e, cat1)
      | (Inr _, cat1) \<Rightarrow> (case apply_update (split_moved sp) cat1 of (Inl e, cat2) \<Rightarrow> (Inl e, cat2) | (Inr _, cat2) \<Rightarrow> (Inr (), cat2)))"

subsection \<open>Routing and the public write gate\<close>

definition production_hash_slot_count :: nat where
  "production_hash_slot_count = 16384"

definition u16_be :: "nat \<Rightarrow> bytes" where
  "u16_be n = [word_of_nat (n div 256), word_of_nat (n mod 256)]"

definition be_val :: "bytes \<Rightarrow> nat" where
  "be_val bs = foldl (\<lambda>n b. 256 * n + unat b) 0 bs"

definition hash_shard_key_to_slot :: "(bytes \<Rightarrow> bytes) \<Rightarrow> bytes \<Rightarrow> nat" where
  "hash_shard_key_to_slot blake3 shard_key = be_val (take 8 (blake3 shard_key)) mod production_hash_slot_count"

definition hash_shard_key_to_range_key :: "(bytes \<Rightarrow> bytes) \<Rightarrow> bytes \<Rightarrow> bytes" where
  "hash_shard_key_to_range_key blake3 shard_key = u16_be (hash_shard_key_to_slot blake3 shard_key)"

definition route :: "shard_catalog \<Rightarrow> string \<Rightarrow> bytes \<Rightarrow> range_ownership option" where
  "route cat collection key = find (\<lambda>r. bounds_contains (ro_bounds r) key) (ranges_for cat collection)"

definition route_shard_key :: "(bytes \<Rightarrow> bytes) \<Rightarrow> shard_catalog \<Rightarrow> string \<Rightarrow> bytes \<Rightarrow> range_ownership option" where
  "route_shard_key blake3 cat collection shard_key =
     (case map_of (cat_collections cat) collection of
        None \<Rightarrow> None
      | Some OrderedMode \<Rightarrow> route cat collection shard_key
      | Some HashMode \<Rightarrow> route cat collection (hash_shard_key_to_range_key blake3 shard_key))"

definition role_at :: "shard_catalog \<Rightarrow> string \<Rightarrow> string \<Rightarrow> nat \<Rightarrow> range_role option" where
  "role_at cat node collection range_id = map_option (\<lambda>r. role_of r node) (catalog_range cat collection range_id)"

definition admit_public_write ::
  "(bytes \<Rightarrow> bytes) \<Rightarrow> shard_catalog \<Rightarrow> string \<Rightarrow> string \<Rightarrow> bytes \<Rightarrow> nat \<Rightarrow> range_write_reject + range_ownership" where
  "admit_public_write blake3 cat node collection key expected_epoch =
     (case route_shard_key blake3 cat collection key of
        None \<Rightarrow> Inl (NoRange collection)
      | Some r \<Rightarrow>
          if \<not> may_write_public (role_of r node) then Inl (NotOwner collection (ro_range_id r) (role_of r node) (ro_owner r))
          else if expected_epoch \<noteq> ro_epoch r then Inl (StaleEpoch collection (ro_range_id r) expected_epoch (ro_epoch r))
          else Inr r)"

subsection \<open>The catalog invariant\<close>

text \<open>
  Entries stand under their own key with valid roles and the mode declared for their collection, and the
  ranges of a collection do not overlap.
\<close>

definition catalog_wf :: "shard_catalog \<Rightarrow> bool" where
  "catalog_wf cat \<longleftrightarrow> bmap_wf (cat_collections cat) \<and> bmap_wf (cat_ranges cat) \<and>
     (\<forall>c i r. catalog_range cat c i = Some r \<longrightarrow>
        ro_collection r = c \<and> ro_range_id r = i \<and> validate_replica_roles r = Inr () \<and>
        map_of (cat_collections cat) c = Some (ro_mode r)) \<and>
     (\<forall>c i j r r'. catalog_range cat c i = Some r \<longrightarrow> catalog_range cat c j = Some r' \<longrightarrow> i \<noteq> j \<longrightarrow>
        \<not> bounds_overlaps (ro_bounds r) (ro_bounds r'))"

lemma catalog_wfD:
  assumes "catalog_wf cat"
  shows "bmap_wf (cat_collections cat)" "bmap_wf (cat_ranges cat)"
    "catalog_range cat c i = Some r \<Longrightarrow> ro_collection r = c" "catalog_range cat c i = Some r \<Longrightarrow> ro_range_id r = i"
    "catalog_range cat c i = Some r \<Longrightarrow> validate_replica_roles r = Inr ()"
    "catalog_range cat c i = Some r \<Longrightarrow> map_of (cat_collections cat) c = Some (ro_mode r)"
    "catalog_range cat c i = Some r \<Longrightarrow> catalog_range cat c j = Some r' \<Longrightarrow> i \<noteq> j \<Longrightarrow> \<not> bounds_overlaps (ro_bounds r) (ro_bounds r')"
  using assms unfolding catalog_wf_def by blast+

lemma catalog_wf_new: "catalog_wf catalog_new"
  by (simp add: catalog_wf_def catalog_new_def catalog_range_def)

lemma in_ranges_for:
  assumes "catalog_wf cat"
  shows "r \<in> set (ranges_for cat c) \<longleftrightarrow> (\<exists>i. catalog_range cat c i = Some r)"
  using bget_iff [OF catalog_wfD(2) [OF assms]] by (force simp: ranges_for_def catalog_range_def)

lemma route_iff:
  assumes "catalog_wf cat"
  shows "route cat c k = Some r \<longleftrightarrow> (\<exists>i. catalog_range cat c i = Some r) \<and> bounds_contains (ro_bounds r) k"
proof
  assume "route cat c k = Some r"
  from find_SomeD [OF this [unfolded route_def]] show "(\<exists>i. catalog_range cat c i = Some r) \<and> bounds_contains (ro_bounds r) k"
    by (simp add: in_ranges_for [OF assms])
next
  assume r: "(\<exists>i. catalog_range cat c i = Some r) \<and> bounds_contains (ro_bounds r) k"
  have "r' = r" if "r' \<in> set (ranges_for cat c)" and "bounds_contains (ro_bounds r') k" for r'
  proof -
    from r that(1) obtain i j where ij: "catalog_range cat c i = Some r" "catalog_range cat c j = Some r'"
      by (auto simp: in_ranges_for [OF assms])
    have "bounds_overlaps (ro_bounds r) (ro_bounds r')" using contains_overlaps r that(2) by blast
    with catalog_wfD(7) [OF assms ij] have "i = j" by blast
    with ij show ?thesis by simp
  qed
  with r show "route cat c k = Some r"
    unfolding route_def by (intro find_unique) (auto simp: in_ranges_for [OF assms])
qed

lemma no_sibling_iff:
  assumes "catalog_wf cat"
  shows "check_sibling cat e = Inr () \<longleftrightarrow>
    (\<forall>i r. catalog_range cat (ro_collection e) i = Some r \<longrightarrow> i \<noteq> ro_range_id e \<longrightarrow> \<not> bounds_overlaps (ro_bounds r) (ro_bounds e))"
proof -
  have "check_sibling cat e = Inr () \<longleftrightarrow> (\<forall>r \<in> set (ranges_for cat (ro_collection e)).
      ro_range_id r \<noteq> ro_range_id e \<longrightarrow> \<not> bounds_overlaps (ro_bounds r) (ro_bounds e))"
    by (auto simp: check_sibling_def overlapping_sibling_def find_None_iff split: option.splits dest: find_SomeD)
  also have "\<dots> \<longleftrightarrow> (\<forall>r i. catalog_range cat (ro_collection e) i = Some r \<longrightarrow> ro_range_id r \<noteq> ro_range_id e \<longrightarrow> \<not> bounds_overlaps (ro_bounds r) (ro_bounds e))"
    by (simp add: in_ranges_for [OF assms] Ball_def)
  finally show ?thesis using catalog_wfD(4) [OF assms] by blast
qed

lemma check_update_Inr:
  "check_update cat e = Inr outcome \<longleftrightarrow>
     validate_replica_roles e = Inr () \<and> check_mode cat e = Inr () \<and> check_version cat e = Inr outcome \<and> check_sibling cat e = Inr ()"
  by (auto simp: check_update_def and_then_Inr)

lemma range_store:
  "catalog_range (catalog_store e cat) c i =
     (if c = ro_collection e \<and> i = ro_range_id e then Some e else catalog_range cat c i)"
  by (simp add: catalog_range_def catalog_store_def map_simps)

lemma mode_store:
  "check_mode cat e = Inr () \<Longrightarrow> map_of (cat_collections cat) c = Some m \<Longrightarrow> map_of (cat_collections (catalog_store e cat)) c = Some m"
  by (auto simp: check_mode_def catalog_store_def map_simps split: if_splits)

lemma catalog_wf_store:
  assumes "catalog_wf cat" and "check_update cat e = Inr outcome"
  shows "catalog_wf (catalog_store e cat)"
proof -
  note ok = assms(2) [unfolded check_update_Inr]
  have sib: "catalog_range cat (ro_collection e) i = Some r \<Longrightarrow> i \<noteq> ro_range_id e \<Longrightarrow> \<not> bounds_overlaps (ro_bounds r) (ro_bounds e)" for i r
    using ok no_sibling_iff [OF assms(1)] by blast
  have "map_of (cat_collections (catalog_store e cat)) (ro_collection e) = Some (ro_mode e)"
    by (simp add: catalog_store_def map_simps)
  then show ?thesis
    unfolding catalog_wf_def range_store
    using catalog_wfD [OF assms(1)] ok sib mode_store [of cat e] overlaps_sym
    by (auto simp: catalog_store_def split: if_splits)
qed

lemma apply_update_cases:
  obtains (kept) e where "check_update cat entry = Inl e" "apply_update entry cat = (Inl e, cat)"
  | (stored) outcome where "check_update cat entry = Inr outcome" "apply_update entry cat = (Inr outcome, catalog_store entry cat)"
  by (cases "check_update cat entry") (simp_all add: apply_update_def)

lemma catalog_wf_apply: "catalog_wf cat \<Longrightarrow> catalog_wf (snd (apply_update e cat))"
  by (rule apply_update_cases [of cat e]) (simp_all add: catalog_wf_store)

lemma range_declare [simp]: "catalog_range (snd (declare_collection c m cat)) c' i = catalog_range cat c' i"
  by (simp add: declare_collection_def catalog_range_def split: option.splits)

lemma catalog_wf_declare:
  assumes "catalog_wf cat"
  shows "catalog_wf (snd (declare_collection c m cat))"
proof -
  have "bmap_wf (cat_collections (snd (declare_collection c m cat)))" "bmap_wf (cat_ranges (snd (declare_collection c m cat)))"
    using catalog_wfD(1,2) [OF assms] by (simp_all add: declare_collection_def split: option.splits)
  moreover have "map_of (cat_collections cat) c' = Some m' \<Longrightarrow> map_of (cat_collections (snd (declare_collection c m cat))) c' = Some m'" for c' m'
    by (cases "map_of (cat_collections cat) c") (auto simp: declare_collection_def bget_bput)
  ultimately show ?thesis using catalog_wfD [OF assms] unfolding catalog_wf_def range_declare by blast
qed

text \<open>What a data member's replica sees: declarations and updates in the order they are delivered.\<close>

datatype catalog_event = Declare string shard_key_mode | Update range_ownership

fun catalog_deliver :: "shard_catalog \<Rightarrow> catalog_event \<Rightarrow> shard_catalog" where
  "catalog_deliver cat (Declare c m) = snd (declare_collection c m cat)"
| "catalog_deliver cat (Update e) = snd (apply_update e cat)"

definition catalog_run :: "catalog_event list \<Rightarrow> shard_catalog" where
  "catalog_run evs = foldl catalog_deliver catalog_new evs"

lemma catalog_run_simps: "catalog_run [] = catalog_new" "catalog_run (evs @ [ev]) = catalog_deliver (catalog_run evs) ev"
  by (simp_all add: catalog_run_def)

lemma catalog_wf_run: "catalog_wf (catalog_run evs)"
proof (induction evs rule: rev_induct)
  case (snoc ev evs)
  then show ?case by (cases ev) (simp_all add: catalog_run_simps catalog_wf_declare catalog_wf_apply)
qed (simp add: catalog_run_simps catalog_wf_new)

text \<open>
  C26: routing is complete and unambiguous. Whatever declarations and updates a catalog has seen, accepted
  or rejected, a key routes to a range exactly when the catalog holds a range of the collection whose
  bounds contain the key; in particular no two ranges compete for a key.
\<close>

theorem routing_unambiguous:
  "route (catalog_run evs) c k = Some r \<longleftrightarrow>
     (\<exists>i. catalog_range (catalog_run evs) c i = Some r) \<and> bounds_contains (ro_bounds r) k"
  by (rule route_iff [OF catalog_wf_run])

subsection \<open>Convergence of replicas\<close>

text \<open>
  Updates that can be delivered in any order: their roles are valid, the updates of one collection agree on
  its mode, ranges of different identity do not overlap, and a version of a range names one entry.
\<close>

definition compatible :: "range_ownership set \<Rightarrow> bool" where
  "compatible us \<longleftrightarrow>
     (\<forall>e \<in> us. validate_replica_roles e = Inr ()) \<and>
     (\<forall>e \<in> us. \<forall>e' \<in> us. ro_collection e = ro_collection e' \<longrightarrow>
        ro_mode e = ro_mode e' \<and>
        (if ro_range_id e = ro_range_id e' then ro_version e = ro_version e' \<longrightarrow> e = e'
         else \<not> bounds_overlaps (ro_bounds e) (ro_bounds e')))"

lemma compatibleD:
  assumes "compatible us" and "e \<in> us"
  shows "validate_replica_roles e = Inr ()"
    and "e' \<in> us \<Longrightarrow> ro_collection e = ro_collection e' \<Longrightarrow> ro_mode e = ro_mode e'"
    and "e' \<in> us \<Longrightarrow> ro_collection e = ro_collection e' \<Longrightarrow> ro_range_id e = ro_range_id e' \<Longrightarrow> ro_version e = ro_version e' \<Longrightarrow> e = e'"
    and "e' \<in> us \<Longrightarrow> ro_collection e = ro_collection e' \<Longrightarrow> ro_range_id e \<noteq> ro_range_id e' \<Longrightarrow> \<not> bounds_overlaps (ro_bounds e) (ro_bounds e')"
  using assms unfolding compatible_def by metis+

lemma compatible_mono: "compatible us \<Longrightarrow> us' \<subseteq> us \<Longrightarrow> compatible us'"
  unfolding compatible_def by (meson subsetD)

definition holds_newest :: "range_ownership set \<Rightarrow> shard_catalog \<Rightarrow> bool" where
  "holds_newest us cat \<longleftrightarrow>
     (\<forall>c i r. catalog_range cat c i = Some r \<longrightarrow> r \<in> us) \<and>
     (\<forall>c m. map_of (cat_collections cat) c = Some m \<longrightarrow> (\<exists>e \<in> us. ro_collection e = c \<and> ro_mode e = m)) \<and>
     (\<forall>e \<in> us. \<exists>r. catalog_range cat (ro_collection e) (ro_range_id e) = Some r \<and> ro_version e \<le> ro_version r)"

lemma holds_newestD:
  assumes "holds_newest us cat"
  shows "catalog_range cat c i = Some r \<Longrightarrow> r \<in> us"
    and "map_of (cat_collections cat) c = Some m \<Longrightarrow> \<exists>e \<in> us. ro_collection e = c \<and> ro_mode e = m"
    and "e \<in> us \<Longrightarrow> \<exists>r. catalog_range cat (ro_collection e) (ro_range_id e) = Some r \<and> ro_version e \<le> ro_version r"
  using assms unfolding holds_newest_def by blast+

lemma newest_admits:
  assumes "catalog_wf cat" and "holds_newest us cat" and "compatible (insert e us)"
  shows "check_update cat e = check_version cat e"
proof -
  note newest = holds_newestD [OF assms(2)] and comp = compatibleD [OF assms(3)]
  have "m = ro_mode e" if "map_of (cat_collections cat) (ro_collection e) = Some m" for m
  proof -
    from newest(2) [OF that] obtain e' where "e' \<in> us" "ro_collection e' = ro_collection e" "ro_mode e' = m" by blast
    with comp(2) [of e' e] show ?thesis by simp
  qed
  then have mode: "check_mode cat e = Inr ()" by (auto simp: check_mode_def split: option.split)
  have "\<not> bounds_overlaps (ro_bounds r) (ro_bounds e)" if "catalog_range cat (ro_collection e) i = Some r" and "i \<noteq> ro_range_id e" for i r
    using comp(4) [of r e] newest(1) [OF that(1)] catalog_wfD(3,4) [OF assms(1) that(1)] that(2) by simp
  then have "check_sibling cat e = Inr ()" unfolding no_sibling_iff [OF assms(1)] by blast
  with mode comp(1) [of e] show ?thesis by (cases "check_version cat e") (simp_all add: check_update_def)
qed

lemma deliver_newest:
  assumes "catalog_wf cat" and "holds_newest us cat" and "compatible (insert e us)"
  shows "holds_newest (insert e us) (snd (apply_update e cat))"
proof -
  note newest = holds_newestD [OF assms(2)] and upd = newest_admits [OF assms]
  show ?thesis
  proof (cases "\<exists>r. catalog_range cat (ro_collection e) (ro_range_id e) = Some r \<and> ro_version e \<le> ro_version r")
    case True
    then have "snd (apply_update e cat) = cat" by (auto simp: apply_update_def upd check_version_def)
    with True assms(2) show ?thesis by (simp add: holds_newest_def)
  next
    case False
    then obtain outcome where "check_update cat e = Inr outcome"
      by (cases "catalog_range cat (ro_collection e) (ro_range_id e)") (simp_all add: upd check_version_def)
    then have st: "snd (apply_update e cat) = catalog_store e cat" by (simp add: apply_update_def)
    have below: "ro_version e' \<le> ro_version e" if "e' \<in> us" "ro_collection e' = ro_collection e" "ro_range_id e' = ro_range_id e" for e'
      using newest(3) [OF that(1)] False that(2,3) by fastforce
    have modes: "map_of (cat_collections (catalog_store e cat)) c = (if c = ro_collection e then Some (ro_mode e) else map_of (cat_collections cat) c)" for c
      by (simp add: catalog_store_def bget_bput)
    show ?thesis
      unfolding holds_newest_def st range_store modes
      using newest(1,2) newest(3) below by (intro conjI allI impI ballI) (fastforce split: if_splits)+
  qed
qed

lemma run_newest: "compatible (set us) \<Longrightarrow> holds_newest (set us) (catalog_run (map Update us))"
proof (induction us rule: rev_induct)
  case Nil
  show ?case by (simp add: holds_newest_def catalog_run_simps catalog_new_def catalog_range_def)
next
  case (snoc e us)
  from snoc.prems have comp: "compatible (insert e (set us))" by simp
  from compatible_mono [OF this] snoc.IH have "holds_newest (set us) (catalog_run (map Update us))" by blast
  from deliver_newest [OF catalog_wf_run this comp] show ?case by (simp add: catalog_run_simps)
qed

text \<open>
  C25: replicas converge. For updates with valid roles that agree on the mode of their collection, do not
  overlap across range identities and give each version of a range one entry, any two delivery orders, with
  any duplication, leave the same entry for every range: one of the delivered entries, at the highest version
  delivered for it.
\<close>

theorem replicas_converge:
  assumes "compatible (set us)" and "set us' = set us" and "e \<in> set us"
  shows "\<exists>r \<in> set us. catalog_range (catalog_run (map Update us)) (ro_collection e) (ro_range_id e) = Some r \<and>
    catalog_range (catalog_run (map Update us')) (ro_collection e) (ro_range_id e) = Some r \<and> ro_version e \<le> ro_version r"
proof -
  let ?at = "\<lambda>us. catalog_range (catalog_run (map Update us)) (ro_collection e) (ro_range_id e)"
  note new = holds_newestD [OF run_newest [OF assms(1)]] and new' = holds_newestD [OF run_newest [of us', unfolded assms(2), OF assms(1)]]
  obtain r r' where r: "?at us = Some r" "?at us' = Some r'" "ro_version e \<le> ro_version r"
    using new(3) [OF assms(3)] new'(3) [OF assms(3)] by blast
  have rs: "r \<in> set us" "r' \<in> set us" using new(1) [OF r(1)] new'(1) [OF r(2)] .
  have id: "ro_collection r = ro_collection e" "ro_range_id r = ro_range_id e" "ro_collection r' = ro_collection e" "ro_range_id r' = ro_range_id e"
    using catalog_wfD(3,4) [OF catalog_wf_run] r(1,2) by blast+
  have "ro_version r = ro_version r'"
    using new(3) [OF rs(2)] new'(3) [OF rs(1)] r(1,2) id by auto
  then have "r = r'" using compatibleD(3) [OF assms(1) rs] id by simp
  with r rs show ?thesis by blast
qed

definition demo_entry :: range_ownership where
  "demo_entry = establish ''orders'' 1 OrderedMode bounds_full ''a'' [''b''] (with_replication_factor 2)"

definition demo_moved :: range_ownership where
  "demo_moved = transfer_to ''b'' [''a''] demo_entry"

lemmas demo_entry_defs = demo_entry_def demo_moved_def establish_def transfer_to_def next_version_def wrapping_add64_def

theorem replicas_converge_witness:
  "\<exists>r \<in> {demo_entry, demo_moved}. catalog_range (catalog_run [Update demo_entry, Update demo_moved]) ''orders'' 1 = Some r \<and>
    catalog_range (catalog_run [Update demo_moved, Update demo_entry, Update demo_moved]) ''orders'' 1 = Some r \<and> 2 \<le> ro_version r"
proof -
  have "compatible (set [demo_entry, demo_moved])"
    by (simp add: compatible_def demo_entry_defs validate_replica_roles_def)
  from replicas_converge [OF this, of "[demo_moved, demo_entry, demo_moved]" demo_moved] show ?thesis
    by (simp add: demo_entry_defs insert_commute)
qed

lemma no_duplicate_roles_iff:
  "no_duplicate_roles owner seen ns \<noteq> None \<longleftrightarrow> distinct ns \<and> owner \<notin> set ns \<and> set ns \<inter> set seen = {}"
  by (induction owner seen ns rule: no_duplicate_roles.induct) auto

lemma valid_roles_replicas:
  "validate_replica_roles r = Inr () \<Longrightarrow> distinct (ro_replicas r) \<and> ro_owner r \<notin> set (ro_replicas r)"
  using no_duplicate_roles_iff [of "ro_owner r" "[]" "ro_replicas r"] by (auto simp: validate_replica_roles_def split: option.splits)

lemma valid_roles_establish:
  assumes "distinct replicas" and "owner \<notin> set replicas"
  shows "validate_replica_roles (establish c i m b owner replicas p) = Inr ()"
  using no_duplicate_roles_iff [of owner "[]" replicas] assms by (auto simp: validate_replica_roles_def establish_def)

lemma split_rangeE:
  assumes "split_range r split_key side moved_id target = Inr sp"
  obtains kept_bounds moved_bounds replicas where "split_retained sp = with_bounds kept_bounds r"
    "split_moved sp = establish (ro_collection r) moved_id (ro_mode r) moved_bounds (ro_owner r) replicas (ro_placement r)"
    "replicas = (if target \<in> set (ro_replicas r) then ro_replicas r else ro_replicas r @ [target])" "moved_id \<noteq> ro_range_id r"
    "\<not> bounds_overlaps kept_bounds moved_bounds" "bounds_overlaps (ro_bounds r) moved_bounds"
    "\<And>x. bounds_overlaps kept_bounds x \<Longrightarrow> bounds_overlaps (ro_bounds r) x" "\<And>x. bounds_overlaps moved_bounds x \<Longrightarrow> bounds_overlaps (ro_bounds r) x"
proof -
  obtain lo hi where split: "bounds_split_at (ro_bounds r) split_key = Inr (lo, hi)" and id: "moved_id \<noteq> ro_range_id r"
    using assms by (auto simp: split_range_def split: if_splits sum.splits)
  note ok = split_at_ok [OF split]
  have "bounds_overlaps lo lo" "bounds_overlaps hi hi" using ok(1,2) by (simp_all add: bounds_ok_def bounds_overlaps_def)
  with ok(5,6) have self: "bounds_overlaps (ro_bounds r) lo" "bounds_overlaps (ro_bounds r) hi" by blast+
  have sp: "sp = \<lparr>split_retained = with_bounds (case side of SplitLower \<Rightarrow> hi | SplitUpper \<Rightarrow> lo) r,
      split_moved = establish (ro_collection r) moved_id (ro_mode r) (case side of SplitLower \<Rightarrow> lo | SplitUpper \<Rightarrow> hi) (ro_owner r)
        (if target \<in> set (ro_replicas r) then ro_replicas r else ro_replicas r @ [target]) (ro_placement r)\<rparr>"
    using assms id by (cases side) (simp_all add: split_range_def split)
  show thesis
    by (rule that [of "case side of SplitLower \<Rightarrow> hi | SplitUpper \<Rightarrow> lo" "case side of SplitLower \<Rightarrow> lo | SplitUpper \<Rightarrow> hi"])
      (use sp id ok self overlaps_sym in \<open>cases side; force\<close>)+
qed

lemma validate_with_bounds [simp]: "validate_replica_roles (with_bounds b r) = validate_replica_roles r"
  by (simp add: validate_replica_roles_def with_bounds_def next_version_def cong: option.case_cong)

text \<open>The children of a split of an entry of the catalog.\<close>

definition split_children :: "shard_catalog \<Rightarrow> range_ownership \<Rightarrow> nat \<Rightarrow> range_split \<Rightarrow> bool" where
  "split_children cat r moved_id sp \<longleftrightarrow>
     (let kept = split_retained sp; moved = split_moved sp in
      catalog_range cat (ro_collection r) (ro_range_id r) = Some r \<and> catalog_range cat (ro_collection r) moved_id = None \<and>
      moved_id \<noteq> ro_range_id r \<and> validate_replica_roles kept = Inr () \<and> validate_replica_roles moved = Inr () \<and>
      ro_collection kept = ro_collection r \<and> ro_range_id kept = ro_range_id r \<and> ro_mode kept = ro_mode r \<and> ro_version kept = Suc (ro_version r) \<and>
      ro_collection moved = ro_collection r \<and> ro_range_id moved = moved_id \<and> ro_mode moved = ro_mode r \<and>
      \<not> bounds_overlaps (ro_bounds kept) (ro_bounds moved) \<and> bounds_overlaps (ro_bounds r) (ro_bounds moved) \<and>
      (\<forall>x. bounds_overlaps (ro_bounds kept) x \<or> bounds_overlaps (ro_bounds moved) x \<longrightarrow> bounds_overlaps (ro_bounds r) x))"

lemma split_range_children:
  assumes "catalog_wf cat" and "catalog_range cat c i = Some r" and "split_range r split_key side moved_id target = Inr sp"
    and "catalog_range cat c moved_id = None" and "target \<noteq> ro_owner r" and "ro_version r < u64_max"
  shows "split_children cat r moved_id sp \<and> ro_collection r = c \<and> ro_range_id r = i"
proof -
  have r: "ro_collection r = c" "ro_range_id r = i" "validate_replica_roles r = Inr ()" using catalog_wfD(3-5) [OF assms(1,2)] by simp_all
  from assms(3) obtain kb mb replicas where sp: "split_retained sp = with_bounds kb r"
      "split_moved sp = establish (ro_collection r) moved_id (ro_mode r) mb (ro_owner r) replicas (ro_placement r)"
    and reps: "replicas = (if target \<in> set (ro_replicas r) then ro_replicas r else ro_replicas r @ [target])" and id: "moved_id \<noteq> ro_range_id r"
    and split: "\<not> bounds_overlaps kb mb" "bounds_overlaps (ro_bounds r) mb" "\<And>x. bounds_overlaps kb x \<Longrightarrow> bounds_overlaps (ro_bounds r) x"
      "\<And>x. bounds_overlaps mb x \<Longrightarrow> bounds_overlaps (ro_bounds r) x" by (rule split_rangeE) (rule that)
  have "validate_replica_roles (split_moved sp) = Inr ()" unfolding sp reps
    using valid_roles_replicas [OF r(3)] assms(5) by (intro valid_roles_establish) auto
  moreover have "ro_version (with_bounds kb r) = Suc (ro_version r)" "ro_collection (with_bounds kb r) = ro_collection r" "ro_bounds (with_bounds kb r) = kb"
      "ro_range_id (with_bounds kb r) = ro_range_id r" "ro_mode (with_bounds kb r) = ro_mode r"
    using assms(6) by (simp_all add: with_bounds_def next_version_def wrapping_add64_no_wrap)
  moreover have "ro_collection (split_moved sp) = ro_collection r" "ro_range_id (split_moved sp) = moved_id" "ro_mode (split_moved sp) = ro_mode r"
      "ro_bounds (split_moved sp) = mb" by (simp_all add: sp establish_def)
  ultimately show ?thesis using r id split assms(2,4) unfolding split_children_def Let_def sp(1) by auto
qed

lemma retained_accepted:
  assumes "catalog_wf cat" and "split_children cat r moved_id sp"
  shows "check_update cat (split_retained sp) = Inr Updated"
proof -
  note sp = assms(2) [unfolded split_children_def Let_def]
  have "check_sibling cat (split_retained sp) = Inr ()"
    unfolding no_sibling_iff [OF assms(1)] using sp catalog_wfD(7) [OF assms(1)] overlaps_sym by metis
  moreover have "map_of (cat_collections cat) (ro_collection r) = Some (ro_mode r)" using catalog_wfD(6) [OF assms(1)] sp by blast
  ultimately show ?thesis using sp by (simp add: check_update_Inr check_mode_def check_version_def)
qed

lemma moved_accepted:
  assumes "catalog_wf cat" and "split_children cat r moved_id sp"
  shows "check_update (catalog_store (split_retained sp) cat) (split_moved sp) = Inr Created"
proof -
  let ?cat1 = "catalog_store (split_retained sp) cat"
  note sp = assms(2) [unfolded split_children_def Let_def]
  note wf1 = catalog_wf_store [OF assms(1) retained_accepted [OF assms]]
  have at1: "catalog_range ?cat1 (ro_collection r) j = (if j = ro_range_id r then Some (split_retained sp) else catalog_range cat (ro_collection r) j)" for j
    using sp by (simp add: range_store)
  have "check_sibling ?cat1 (split_moved sp) = Inr ()"
    unfolding no_sibling_iff [OF wf1] using sp at1 catalog_wfD(7) [OF assms(1)] overlaps_sym by (metis option.inject)
  moreover have "map_of (cat_collections ?cat1) (ro_collection r) = Some (ro_mode r)"
    using catalog_wfD(6) [OF wf1, of "ro_collection r" "ro_range_id r" "split_retained sp"] at1 sp by simp
  ultimately show ?thesis using sp at1 [of moved_id] by (simp add: check_update_Inr check_mode_def check_version_def)
qed

lemma moved_rejected:
  assumes "catalog_wf cat" and "split_children cat r moved_id sp"
  shows "check_update cat (split_moved sp) = Inl (OverlappingRange (ro_collection r) (ro_range_id r) moved_id)"
proof -
  note sp = assms(2) [unfolded split_children_def Let_def]
  have r: "r \<in> set (ranges_for cat (ro_collection r))" using in_ranges_for [OF assms(1)] sp by blast
  have only: "q = r" if "q \<in> set (ranges_for cat (ro_collection r))" "bounds_overlaps (ro_bounds q) (ro_bounds (split_moved sp))" for q
    using that in_ranges_for [OF assms(1), of q] sp catalog_wfD(7) [OF assms(1)] overlaps_sym by (metis option.inject)
  have "find (\<lambda>q. ro_range_id q \<noteq> moved_id \<and> bounds_overlaps (ro_bounds q) (ro_bounds (split_moved sp))) (ranges_for cat (ro_collection r)) = Some r"
    (is "find ?P ?xs = _")
  proof (cases "find ?P ?xs")
    case None
    then have "\<not> ?P r" using r by (auto simp: find_None_iff)
    then show ?thesis using sp by simp
  next
    case (Some q)
    then show ?thesis using find_SomeD [OF Some] only by simp
  qed
  then have "overlapping_sibling cat (split_moved sp) = Some (ro_range_id r)" using sp by (simp add: overlapping_sibling_def)
  moreover have "map_of (cat_collections cat) (ro_collection r) = Some (ro_mode r)" using catalog_wfD(6) [OF assms(1)] sp by blast
  ultimately show ?thesis using sp by (simp add: check_update_def check_mode_def check_version_def check_sibling_def)
qed

lemma moved_unrouted:
  assumes "catalog_wf cat" and "split_children cat r moved_id sp" and "bounds_contains (ro_bounds (split_moved sp)) key"
  shows "route (catalog_store (split_retained sp) cat) (ro_collection r) key = None"
proof (rule ccontr)
  let ?cat1 = "catalog_store (split_retained sp) cat"
  note sp = assms(2) [unfolded split_children_def Let_def]
  note wf1 = catalog_wf_store [OF assms(1) retained_accepted [OF assms(1,2)]]
  assume "route ?cat1 (ro_collection r) key \<noteq> None"
  then obtain q j where q: "catalog_range ?cat1 (ro_collection r) j = Some q" "bounds_contains (ro_bounds q) key" using route_iff [OF wf1] by blast
  from contains_overlaps [OF q(2) assms(3)] have "bounds_overlaps (ro_bounds q) (ro_bounds (split_moved sp))" .
  then show False using q(1) sp catalog_wfD(7) [OF assms(1)] overlaps_sym by (simp add: range_store split: if_splits) metis+
qed

text \<open>
  C27: delivery order matters for a split. Let a catalog, after any declarations and updates, hold a range, and
  split it, with a moved id that is not in use, a target that is not the owner and a version below the
  maximum. Delivered as the code installs them, the retained child and then the moved child, both are accepted.
  Delivered in the other order the moved child is rejected as overlapping, the retained child is still
  accepted, and afterwards the moved child is absent and none of its keys can be routed.
\<close>

theorem split_delivery_order_matters:
  assumes "catalog_range (catalog_run evs) c i = Some r" and "split_range r split_key side moved_id target = Inr sp"
    and "catalog_range (catalog_run evs) c moved_id = None" and "target \<noteq> ro_owner r" and "ro_version r < u64_max"
  shows "fst (split_apply sp (catalog_run evs)) = Inr () \<and>
    catalog_range (catalog_run (evs @ [Update (split_retained sp), Update (split_moved sp)])) c moved_id = Some (split_moved sp) \<and>
    fst (apply_update (split_moved sp) (catalog_run evs)) = Inl (OverlappingRange c i moved_id) \<and>
    catalog_range (catalog_run (evs @ [Update (split_moved sp), Update (split_retained sp)])) c i = Some (split_retained sp) \<and>
    (\<forall>k. bounds_contains (ro_bounds (split_moved sp)) k \<longrightarrow>
      route (catalog_run (evs @ [Update (split_moved sp), Update (split_retained sp)])) c k = None)"
proof -
  note wf = catalog_wf_run [of evs]
  have ch: "split_children (catalog_run evs) r moved_id sp" and r: "ro_collection r = c" "ro_range_id r = i"
    using split_range_children [OF wf assms] by simp_all
  note checks = retained_accepted [OF wf ch] moved_accepted [OF wf ch] moved_rejected [OF wf ch, unfolded r]
  have "catalog_run (evs @ [Update (split_retained sp), Update (split_moved sp)]) =
      catalog_store (split_moved sp) (catalog_store (split_retained sp) (catalog_run evs))"
    "catalog_run (evs @ [Update (split_moved sp), Update (split_retained sp)]) = catalog_store (split_retained sp) (catalog_run evs)"
    using checks by (simp_all add: catalog_run_def apply_update_def)
  then show ?thesis using checks moved_unrouted [OF wf ch, unfolded r] ch r
    by (simp add: split_apply_def apply_update_def range_store split_children_def Let_def)
qed

definition demo_split :: range_split where
  "demo_split = projr (split_range demo_entry [128] SplitUpper 2 ''c'')"

lemmas demo_run_defs = demo_entry_defs with_bounds_def bounds_full_def catalog_run_def
  catalog_new_def apply_update_def check_update_def check_mode_def check_version_def check_sibling_def overlapping_sibling_def
  validate_replica_roles_def catalog_range_def ranges_for_def catalog_store_def bounds_overlaps_def

theorem split_delivery_order_matters_witness:
  "catalog_range (catalog_run [Update demo_entry, Update (split_retained demo_split), Update (split_moved demo_split)]) ''orders'' 2 =
      Some (split_moved demo_split) \<and>
    route (catalog_run [Update demo_entry, Update (split_moved demo_split), Update (split_retained demo_split)]) ''orders'' [200] = None"
proof -
  have entry: "catalog_range (catalog_run [Update demo_entry]) ''orders'' 1 = Some demo_entry" "catalog_range (catalog_run [Update demo_entry]) ''orders'' 2 = None"
    by (simp_all add: demo_run_defs)
  have split: "split_range demo_entry [128] SplitUpper 2 ''c'' = Inr demo_split" "''c'' \<noteq> ro_owner demo_entry" "ro_version demo_entry < u64_max"
    "bounds_contains (ro_bounds (split_moved demo_split)) [200]"
    by (simp_all add: demo_split_def split_range_def demo_entry_defs bounds_split_at_def bounds_full_def with_bounds_def bounds_contains_def u64_max_def)
  from split_delivery_order_matters [OF entry(1) split(1) entry(2) split(2,3)] split(4) show ?thesis by simp
qed

subsection \<open>Fencing by epochs\<close>

text \<open>The transitions the code takes off a catalog entry, and the writes of a supervisor that uses only them.\<close>

inductive range_transition :: "range_ownership \<Rightarrow> range_ownership \<Rightarrow> bool" where
  "range_transition r (transfer_to owner replicas r)"
| "promote_hot_mirror node durable watermark r = Inr (old, r') \<Longrightarrow> range_transition r r'"
| "range_transition r (update_replicas replicas r)"
| "range_transition r (with_compressed_archive_replicas archives r)"
| "range_transition r (update_replica_roles hot archives r)"
| "range_transition r (update_placement p r)"
| "range_transition r (with_bounds b r)"

inductive catalog_step :: "shard_catalog \<Rightarrow> shard_catalog \<Rightarrow> bool" where
  declared: "catalog_step cat (snd (declare_collection c m cat))"
| create: "catalog_step cat (snd (apply_update ((establish c i m b owner replicas p)\<lparr>ro_group := g, ro_authority := a\<rparr>) cat))"
| change: "catalog_range cat c i = Some r \<Longrightarrow> range_transition r r' \<Longrightarrow> catalog_step cat (snd (apply_update r' cat))"

definition epochs_ok :: "shard_catalog \<Rightarrow> bool" where
  "epochs_ok cat \<longleftrightarrow> (\<forall>c i r. catalog_range cat c i = Some r \<longrightarrow> 1 \<le> ro_epoch r \<and> ro_epoch r \<le> ro_version r \<and> ro_version r \<le> u64_max)"

definition range_authority :: "shard_catalog \<Rightarrow> string \<times> nat \<Rightarrow> (nat \<times> string) option" where
  "range_authority cat k = map_option (\<lambda>r. (ro_epoch r, ro_owner r)) (catalog_range cat (fst k) (snd k))"

lemma transition_shape:
  "range_transition r r' \<Longrightarrow> ro_collection r' = ro_collection r \<and> ro_range_id r' = ro_range_id r \<and>
     ro_version r' = wrapping_add64 (ro_version r) 1 \<and>
     (ro_epoch r' = ro_epoch r \<and> ro_owner r' = ro_owner r \<or> ro_epoch r' = wrapping_add64 (ro_epoch r) 1)"
  by (induction rule: range_transition.induct)
    (auto simp: transfer_to_def promote_hot_mirror_def next_version_def update_replicas_def update_replica_roles_def
      with_compressed_archive_replicas_def update_placement_def with_bounds_def split: if_splits)

text \<open>A transition the catalog accepts advances the version by one, so neither counter has wrapped.\<close>

lemma accepted_transition:
  assumes "catalog_wf cat" and "epochs_ok cat" and "catalog_range cat c i = Some r" and "range_transition r r'"
    and "check_update cat r' = Inr outcome"
  shows "ro_collection r' = c" "ro_range_id r' = i" "1 \<le> ro_epoch r'" "ro_epoch r' \<le> ro_version r'" "ro_version r' \<le> u64_max"
    "ro_epoch r < ro_epoch r' \<or> ro_epoch r = ro_epoch r' \<and> ro_owner r = ro_owner r'"
proof -
  note shape = transition_shape [OF assms(4)]
  show id: "ro_collection r' = c" "ro_range_id r' = i" using shape catalog_wfD(3,4) [OF assms(1,3)] by simp_all
  have bound: "1 \<le> ro_epoch r" "ro_epoch r \<le> ro_version r" "ro_version r \<le> u64_max" using assms(2,3) by (auto simp: epochs_ok_def)
  have "ro_version r < ro_version r'"
    using assms(3,5) id by (auto simp: check_update_Inr check_version_def split: if_splits)
  with shape bound(3) have max: "ro_version r < u64_max" by (cases "ro_version r = u64_max") (simp_all add: wrapping_add64_def u64_max_def)
  then have v: "ro_version r' = ro_version r + 1" using shape wrapping_add64_no_wrap [of "ro_version r" 1] by simp
  moreover have e: "wrapping_add64 (ro_epoch r) 1 = ro_epoch r + 1" using wrapping_add64_no_wrap [of "ro_epoch r" 1] bound max by simp
  ultimately show "1 \<le> ro_epoch r'" "ro_epoch r' \<le> ro_version r'" "ro_version r' \<le> u64_max"
    "ro_epoch r < ro_epoch r' \<or> ro_epoch r = ro_epoch r' \<and> ro_owner r = ro_owner r'"
    using shape bound max by auto
qed

lemma epochs_okD:
  "epochs_ok cat \<Longrightarrow> catalog_range cat c i = Some r \<Longrightarrow> 1 \<le> ro_epoch r \<and> ro_epoch r \<le> ro_version r \<and> ro_version r \<le> u64_max"
  by (simp add: epochs_ok_def)

lemma catalog_step_shape:
  assumes "catalog_step cat cat'" and wf: "catalog_wf cat" and ok: "epochs_ok cat"
  obtains (kept) "\<And>c i. catalog_range cat' c i = catalog_range cat c i" "catalog_wf cat'"
  | (stored) e outcome where "cat' = catalog_store e cat" "check_update cat e = Inr outcome"
      "1 \<le> ro_epoch e" "ro_epoch e \<le> ro_version e" "ro_version e \<le> u64_max"
      "\<And>r. catalog_range cat (ro_collection e) (ro_range_id e) = Some r \<Longrightarrow>
        ro_epoch r < ro_epoch e \<or> ro_epoch r = ro_epoch e \<and> ro_owner r = ro_owner e"
  using assms(1)
proof cases
  case (declared c m)
  with wf show ?thesis by (intro kept) (simp_all add: catalog_wf_declare)
next
  case (create a g c i m b owner replicas p)
  let ?e = "(establish c i m b owner replicas p)\<lparr>ro_group := g, ro_authority := a\<rparr>"
  have e: "ro_collection ?e = c" "ro_range_id ?e = i" "ro_version ?e = 1" "ro_epoch ?e = 1" by (simp_all add: establish_def)
  show ?thesis
  proof (rule apply_update_cases [of cat ?e])
    fix outcome
    assume u: "check_update cat ?e = Inr outcome" and st: "apply_update ?e cat = (Inr outcome, catalog_store ?e cat)"
    have "catalog_range cat c i = None"
    proof (cases "catalog_range cat c i")
      case (Some r)
      with u epochs_okD [OF ok Some] show ?thesis by (simp add: check_update_Inr check_version_def e split: if_splits)
    qed
    with create st u show ?thesis by (intro stored [of ?e]) (simp_all add: e u64_max_def)
  qed (use create wf in \<open>intro kept, simp_all\<close>)
next
  case (change c i r r')
  show ?thesis
  proof (rule apply_update_cases [of cat r'])
    fix outcome
    assume u: "check_update cat r' = Inr outcome" and st: "apply_update r' cat = (Inr outcome, catalog_store r' cat)"
    note acc = accepted_transition [OF wf ok change(2,3) u]
    from change(1) st u acc show ?thesis using change(2) by (intro stored [of r']) simp_all
  qed (use change wf in \<open>intro kept, simp_all\<close>)
qed

lemma catalog_step_valid:
  assumes "catalog_wf cat \<and> epochs_ok cat" and "catalog_step cat cat'"
  shows "catalog_wf cat' \<and> epochs_ok cat'"
proof -
  have wf: "catalog_wf cat" and ok: "epochs_ok cat" using assms(1) by simp_all
  from assms(2) wf ok show ?thesis
  proof (cases rule: catalog_step_shape)
    case kept
    with ok show ?thesis by (simp add: epochs_ok_def)
  next
    case (stored e outcome)
    with catalog_wf_store [OF wf stored(2)] epochs_okD [OF ok] show ?thesis by (simp add: epochs_ok_def range_store)
  qed
qed

lemma catalog_step_authority:
  assumes "catalog_wf cat \<and> epochs_ok cat" and "catalog_step cat cat'" and "range_authority cat k = Some (e, n)"
  shows "\<exists>e' n'. range_authority cat' k = Some (e', n') \<and> (e < e' \<or> e = e' \<and> n = n')"
proof -
  have wf: "catalog_wf cat" and ok: "epochs_ok cat" using assms(1) by simp_all
  obtain r where r: "catalog_range cat (fst k) (snd k) = Some r" "ro_epoch r = e" "ro_owner r = n"
    using assms(3) by (auto simp: range_authority_def)
  from assms(2) wf ok show ?thesis
  proof (cases rule: catalog_step_shape)
    case kept
    with r show ?thesis by (simp add: range_authority_def)
  next
    case (stored e' outcome)
    with r show ?thesis by (cases "k = (ro_collection e', ro_range_id e')") (auto simp: range_authority_def range_store)
  qed
qed

interpretation cat_fence: fencing catalog_step range_authority "\<lambda>cat. catalog_wf cat \<and> epochs_ok cat"
  by unfold_locales (rule catalog_step_valid, assumption+, rule catalog_step_authority, assumption+)

lemma catalog_new_valid: "catalog_wf catalog_new \<and> epochs_ok catalog_new"
  using catalog_wf_new by (auto simp: epochs_ok_def catalog_new_def catalog_range_def)

lemma admitted_authority:
  assumes "catalog_wf cat" and "admit_public_write blake3 cat node c k e = Inr r"
  shows "range_authority cat (c, ro_range_id r) = Some (e, node)"
proof -
  obtain key where "route cat c key = Some r" and "ro_owner r = node" "ro_epoch r = e"
    using assms(2) by (auto simp: admit_public_write_def route_shard_key_def may_write_public_def role_of_def
        split: option.splits shard_key_mode.splits if_splits)
  then show ?thesis using route_iff [OF assms(1)] catalog_wfD(4) [OF assms(1)] by (auto simp: range_authority_def)
qed

text \<open>
  C24: one writer per epoch. Take any catalog a supervisor builds by creating ranges and by transitions off
  the current entries (transfers, hot-mirror promotions, replica, placement and bounds changes), and any
  later one. If the public write gate admits a node for a range under some epoch against the earlier
  catalog, as a lagging member still holds it, and a node for the same range under the same epoch against
  the later one, they are the same node.
\<close>

theorem one_writer_per_epoch:
  assumes "catalog_step\<^sup>*\<^sup>* catalog_new cat" and "catalog_step\<^sup>*\<^sup>* cat cat'"
    and "admit_public_write blake3 cat node c k e = Inr r" and "admit_public_write blake3 cat' node' c k' e = Inr r'"
    and "ro_range_id r = ro_range_id r'"
  shows "node = node'"
proof -
  note valid = cat_fence.run_valid [OF assms(1) catalog_new_valid]
  note valid' = cat_fence.run_valid [OF assms(2) valid]
  from cat_fence.one_holder_per_token [OF assms(2) valid admitted_authority [OF conjunct1 [OF valid] assms(3)]]
    admitted_authority [OF conjunct1 [OF valid'] assms(4)] assms(5)
  show ?thesis by simp
qed

definition demo_cat :: shard_catalog where
  "demo_cat = snd (apply_update demo_entry catalog_new)"

definition demo_cat_replicas :: shard_catalog where
  "demo_cat_replicas = snd (apply_update (update_replicas [''c''] demo_entry) demo_cat)"

lemmas demo_cat_defs = demo_cat_def demo_cat_replicas_def update_replicas_def demo_run_defs

lemma demo_cat_steps: "catalog_step\<^sup>*\<^sup>* catalog_new demo_cat" "catalog_step\<^sup>*\<^sup>* demo_cat demo_cat_replicas"
proof -
  have "demo_entry\<lparr>ro_group := ro_group demo_entry, ro_authority := ro_authority demo_entry\<rparr> = demo_entry" by simp
  then have "catalog_step catalog_new demo_cat"
    using catalog_step.create [of catalog_new "ro_authority demo_entry" "ro_group demo_entry" "''orders''" 1 OrderedMode bounds_full "''a''" "[''b'']"
        "with_replication_factor 2", folded demo_entry_def]
    by (simp add: demo_cat_def)
  then show "catalog_step\<^sup>*\<^sup>* catalog_new demo_cat" ..
  have "catalog_range demo_cat ''orders'' 1 = Some demo_entry" by (simp add: demo_cat_defs)
  then have "catalog_step demo_cat demo_cat_replicas"
    unfolding demo_cat_replicas_def by (rule catalog_step.change) (rule range_transition.intros)
  then show "catalog_step\<^sup>*\<^sup>* demo_cat demo_cat_replicas" ..
qed

theorem one_writer_per_epoch_witness:
  "\<exists>r r'. admit_public_write (\<lambda>bs. bs) demo_cat ''a'' ''orders'' [7] 1 = Inr r \<and>
    admit_public_write (\<lambda>bs. bs) demo_cat_replicas (ro_owner r') ''orders'' [200] 1 = Inr r' \<and> ro_owner r' = ''a''"
proof -
  let ?r = "demo_entry" and ?r' = "update_replicas [''c''] demo_entry"
  have 1: "admit_public_write (\<lambda>bs. bs) demo_cat ''a'' ''orders'' [7] 1 = Inr ?r"
    and 2: "admit_public_write (\<lambda>bs. bs) demo_cat_replicas (ro_owner ?r') ''orders'' [200] 1 = Inr ?r'"
    by (simp_all add: admit_public_write_def route_shard_key_def route_def bounds_contains_def role_of_def may_write_public_def demo_cat_defs)
  have "ro_range_id ?r = ro_range_id ?r'" by (simp add: update_replicas_def next_version_def)
  from one_writer_per_epoch [OF demo_cat_steps 1 2 this] 1 2 show ?thesis by metis
qed

end
