(* ===== verification/Ownership_Lease.thy ===== *)
theory Ownership_Lease
  imports Shard_Catalog
begin

section \<open>Ownership leases\<close>

text \<open>
  \<open>src/crates/reddb-server/src/cluster/ownership_lease.rs\<close>: time-bounded write authority for the owner of a range, issued under a
  supervisor term and an ownership epoch, the owner's evaluation of its lease, and the gate of a durable
  write, which asks for catalog ownership and for a valid lease. Terms are the numbers their newtype wraps;
  time is the holder's monotonic clock in milliseconds.
\<close>

record lease_clock_sample =
  monotonic_ms :: nat
  wall_ms :: nat

definition sample_monotonic :: "nat \<Rightarrow> lease_clock_sample" where
  "sample_monotonic ms = \<lparr>monotonic_ms = ms, wall_ms = 0\<rparr>"

definition next_term :: "nat \<Rightarrow> nat" where
  "next_term supervisor_term = wrapping_add64 supervisor_term 1"

record lease_clock_config =
  lease_ttl_ms :: nat
  safety_margin_ms :: nat
  max_clock_drift_ms :: nat

datatype lease_clock_config_error = SafetyMarginBelowMaxDrift nat nat

definition clock_config_new :: "nat \<Rightarrow> nat \<Rightarrow> nat \<Rightarrow> lease_clock_config_error + lease_clock_config" where
  "clock_config_new ttl margin drift =
     (if margin < drift then Inl (SafetyMarginBelowMaxDrift margin drift)
      else Inr \<lparr>lease_ttl_ms = ttl, safety_margin_ms = margin, max_clock_drift_ms = drift\<rparr>)"

record ownership_lease =
  lease_term :: nat
  lease_collection :: string
  lease_range_id :: nat
  lease_owner :: string
  lease_epoch :: nat
  lease_granted_at :: nat
  lease_expires_at :: nat

definition grant_at_clock :: "nat \<Rightarrow> string \<Rightarrow> nat \<Rightarrow> string \<Rightarrow> nat \<Rightarrow> lease_clock_sample \<Rightarrow> nat \<Rightarrow> ownership_lease" where
  "grant_at_clock supervisor_term collection range_id owner epoch granted_at ttl_ms =
     \<lparr>lease_term = supervisor_term, lease_collection = collection, lease_range_id = range_id, lease_owner = owner,
      lease_epoch = epoch, lease_granted_at = monotonic_ms granted_at,
      lease_expires_at = saturating_add64 (monotonic_ms granted_at) ttl_ms\<rparr>"

definition lease_grant :: "nat \<Rightarrow> string \<Rightarrow> nat \<Rightarrow> string \<Rightarrow> nat \<Rightarrow> nat \<Rightarrow> nat \<Rightarrow> ownership_lease" where
  "lease_grant supervisor_term collection range_id owner epoch granted_at_ms ttl_ms =
     grant_at_clock supervisor_term collection range_id owner epoch (sample_monotonic granted_at_ms) ttl_ms"

definition lease_expired :: "ownership_lease \<Rightarrow> nat \<Rightarrow> bool" where
  "lease_expired l now_ms \<longleftrightarrow> now_ms \<ge> lease_expires_at l"

definition lease_remaining_ms :: "ownership_lease \<Rightarrow> nat \<Rightarrow> nat" where
  "lease_remaining_ms l now_ms = lease_expires_at l - now_ms"

datatype fence_reason =
    Unleased
  | Revoked
  | TermSuperseded nat nat
  | EpochSuperseded nat nat
  | Expired nat nat

datatype owner_write_mode = Durable | Fenced fence_reason

datatype range_request = DurableWrite | StaleRead | ReplicationCatchUp

subsection \<open>The lease holder\<close>

record leased_owner =
  held_lease :: "ownership_lease option"
  lease_revoked :: bool

definition unleased_owner :: leased_owner where
  "unleased_owner = \<lparr>held_lease = None, lease_revoked = False\<rparr>"

definition with_lease :: "ownership_lease \<Rightarrow> leased_owner" where
  "with_lease l = \<lparr>held_lease = Some l, lease_revoked = False\<rparr>"

definition owner_grant :: "ownership_lease \<Rightarrow> leased_owner \<Rightarrow> leased_owner" where
  "owner_grant l h = h\<lparr>held_lease := Some l, lease_revoked := False\<rparr>"

definition owner_revoke :: "leased_owner \<Rightarrow> leased_owner" where
  "owner_revoke h = h\<lparr>lease_revoked := True\<rparr>"

definition evaluate :: "leased_owner \<Rightarrow> nat \<Rightarrow> nat \<Rightarrow> nat \<Rightarrow> owner_write_mode" where
  "evaluate h current_term current_epoch now_ms =
     (if lease_revoked h then Fenced Revoked
      else case held_lease h of
          None \<Rightarrow> Fenced Unleased
        | Some l \<Rightarrow>
            if lease_term l \<noteq> current_term then Fenced (TermSuperseded (lease_term l) current_term)
            else if lease_epoch l \<noteq> current_epoch then Fenced (EpochSuperseded (lease_epoch l) current_epoch)
            else if lease_expired l now_ms then Fenced (Expired now_ms (lease_expires_at l))
            else Durable)"

definition admit_request :: "leased_owner \<Rightarrow> range_request \<Rightarrow> nat \<Rightarrow> nat \<Rightarrow> nat \<Rightarrow> fence_reason + unit" where
  "admit_request h request current_term current_epoch now_ms =
     (case evaluate h current_term current_epoch now_ms of
        Durable \<Rightarrow> Inr ()
      | Fenced reason \<Rightarrow> (case request of DurableWrite \<Rightarrow> Inl reason | _ \<Rightarrow> Inr ()))"

subsection \<open>The durable write gate\<close>

datatype durable_write_reject =
    DurableNoRange string
  | StaleOwnership string nat string string nat nat
  | DurableNotOwner string nat range_role string nat nat
  | DurableFenced string nat fence_reason

definition covering_lease :: "leased_owner \<Rightarrow> string \<Rightarrow> nat \<Rightarrow> string \<Rightarrow> ownership_lease option" where
  "covering_lease h collection range_id node =
     (case held_lease h of
        Some l \<Rightarrow> if lease_collection l = collection \<and> lease_range_id l = range_id \<and> lease_owner l = node then Some l else None
      | None \<Rightarrow> None)"

definition admit_durable_write ::
  "(bytes \<Rightarrow> bytes) \<Rightarrow> shard_catalog \<Rightarrow> leased_owner \<Rightarrow> string \<Rightarrow> string \<Rightarrow> bytes \<Rightarrow> nat \<Rightarrow> nat \<Rightarrow>
   durable_write_reject + range_ownership" where
  "admit_durable_write blake3 cat h node collection key current_term now_ms =
     (case route_shard_key blake3 cat collection key of
        None \<Rightarrow> Inl (DurableNoRange collection)
      | Some r \<Rightarrow>
          (let role = role_of r node; held = covering_lease h collection (ro_range_id r) node in
           if \<not> may_write_public role then
             (case held of
                Some l \<Rightarrow>
                  if lease_epoch l < ro_epoch r
                  then Inl (StaleOwnership collection (ro_range_id r) node (ro_owner r) (lease_epoch l) (ro_epoch r))
                  else Inl (DurableNotOwner collection (ro_range_id r) role (ro_owner r) (ro_epoch r) (ro_version r))
              | None \<Rightarrow> Inl (DurableNotOwner collection (ro_range_id r) role (ro_owner r) (ro_epoch r) (ro_version r)))
           else
             (case (if held \<noteq> None then evaluate h current_term (ro_epoch r) now_ms else Fenced Unleased) of
                Durable \<Rightarrow> Inr r
              | Fenced reason \<Rightarrow> Inl (DurableFenced collection (ro_range_id r) reason))))"

lemma evaluate_Durable:
  "evaluate h current_term current_epoch now_ms = Durable \<longleftrightarrow>
     \<not> lease_revoked h \<and> (\<exists>l. held_lease h = Some l \<and> lease_term l = current_term \<and> lease_epoch l = current_epoch \<and> now_ms < lease_expires_at l)"
  by (auto simp: evaluate_def lease_expired_def split: option.splits if_splits)

lemma admitted_durable:
  assumes "admit_durable_write blake3 cat h node c k current_term now_ms = Inr r"
  obtains l where "route_shard_key blake3 cat c k = Some r" "ro_owner r = node" "held_lease h = Some l" "\<not> lease_revoked h"
    "lease_collection l = c" "lease_range_id l = ro_range_id r" "lease_owner l = node" "lease_term l = current_term"
    "lease_epoch l = ro_epoch r" "now_ms < lease_expires_at l"
  using assms
  by (auto simp: admit_durable_write_def Let_def covering_lease_def evaluate_Durable may_write_public_def role_of_def
      split: option.splits if_splits owner_write_mode.splits)

text \<open>A durable write needs everything the public gate asks for, under the epoch of the lease.\<close>

lemma durable_implies_public:
  assumes "admit_durable_write blake3 cat h node c k current_term now_ms = Inr r"
  shows "\<exists>l. held_lease h = Some l \<and> admit_public_write blake3 cat node c k (lease_epoch l) = Inr r"
  using assms by (elim admitted_durable) (simp add: admit_public_write_def may_write_public_def role_of_def)

lemma route_shard_key_route:
  "route_shard_key blake3 cat c k = Some r \<Longrightarrow> \<exists>key. route cat c key = Some r"
  by (auto simp: route_shard_key_def split: option.splits shard_key_mode.splits)

lemma admitted_same_range:
  assumes "catalog_wf cat" and "admit_durable_write blake3 cat h n c k t now_ms = Inr r"
    and "admit_durable_write blake3 cat h' n' c k' t' now_ms' = Inr r'" and "ro_range_id r = ro_range_id r'"
  shows "r = r'"
proof -
  obtain key key' where "route cat c key = Some r" "route cat c key' = Some r'"
    using assms(2,3) by (auto elim!: admitted_durable dest!: route_shard_key_route)
  then obtain i i' where "catalog_range cat c i = Some r" "catalog_range cat c i' = Some r'"
    by (auto simp: route_iff [OF assms(1)])
  with catalog_wfD(4) [OF assms(1)] assms(4) show ?thesis by fastforce
qed

text \<open>
  C30: a deposed owner cannot write. Take any catalog a supervisor builds and any later one. If a node was
  admitted for a durable write on a range against the earlier catalog and a different node is admitted for
  the same range against the later one, then the ownership epoch has advanced, and the lease the first node
  still holds admits nobody to a durable write on that range against the later catalog, at any time and
  under any supervisor term.
\<close>

theorem deposed_owner_fenced:
  assumes "catalog_step\<^sup>*\<^sup>* catalog_new cat" and "catalog_step\<^sup>*\<^sup>* cat cat'"
    and "admit_durable_write blake3 cat h node c k current_term now_ms = Inr r"
    and "admit_durable_write blake3 cat' h' node' c k' current_term' now_ms' = Inr r'"
    and "ro_range_id r = ro_range_id r'" and "node \<noteq> node'"
  shows "ro_epoch r < ro_epoch r' \<and>
    (\<forall>n k2 t2 now2 x. admit_durable_write blake3 cat' h n c k2 t2 now2 = Inr x \<longrightarrow> ro_range_id x \<noteq> ro_range_id r)"
proof -
  note valid = cat_fence.run_valid [OF assms(1) catalog_new_valid]
  note wf = conjunct1 [OF valid] and wf' = conjunct1 [OF cat_fence.run_valid [OF assms(2) valid]]
  obtain l where l: "held_lease h = Some l" "lease_epoch l = ro_epoch r" by (rule admitted_durable [OF assms(3)])
  have pub: "admit_public_write blake3 cat node c k (ro_epoch r) = Inr r"
    using durable_implies_public [OF assms(3)] l by simp
  obtain l' where l': "held_lease h' = Some l'" "lease_epoch l' = ro_epoch r'" by (rule admitted_durable [OF assms(4)])
  have pub': "admit_public_write blake3 cat' node' c k' (ro_epoch r') = Inr r'"
    using durable_implies_public [OF assms(4)] l' by simp
  note auth = admitted_authority [OF wf pub] and auth' = admitted_authority [OF wf' pub', folded assms(5)]
  have "ro_epoch r \<le> ro_epoch r'" by (rule cat_fence.token_monotone [OF assms(2) valid auth auth'])
  moreover have "ro_epoch r \<noteq> ro_epoch r'"
    using cat_fence.one_holder_per_token [OF assms(2) valid auth, of node'] auth' assms(6) by auto
  ultimately have less: "ro_epoch r < ro_epoch r'" by simp
  have "ro_range_id x \<noteq> ro_range_id r" if x: "admit_durable_write blake3 cat' h n c k2 t2 now2 = Inr x" for n k2 t2 now2 x
  proof
    assume "ro_range_id x = ro_range_id r"
    with admitted_same_range [OF wf' x assms(4)] assms(5) have "x = r'" by simp
    moreover obtain l2 where "held_lease h = Some l2" "lease_epoch l2 = ro_epoch x" by (rule admitted_durable [OF x])
    ultimately show False using l less by simp
  qed
  with less show ?thesis by blast
qed

definition demo_cat_moved :: shard_catalog where
  "demo_cat_moved = snd (apply_update demo_moved demo_cat)"

lemma demo_cat_moved_step: "catalog_step\<^sup>*\<^sup>* demo_cat demo_cat_moved"
proof -
  have "catalog_range demo_cat ''orders'' 1 = Some demo_entry" by (simp add: demo_cat_defs)
  then have "catalog_step demo_cat demo_cat_moved"
    unfolding demo_cat_moved_def demo_moved_def by (rule catalog_step.change) (rule range_transition.intros)
  then show ?thesis ..
qed

definition demo_lease :: "string \<Rightarrow> nat \<Rightarrow> leased_owner" where
  "demo_lease node epoch = with_lease (lease_grant 1 ''orders'' 1 node epoch 0 5000)"

theorem deposed_owner_fenced_witness:
  "\<not> (\<exists>n k2 t2 now2. admit_durable_write (\<lambda>bs. bs) demo_cat_moved (demo_lease ''a'' 1) n ''orders'' k2 t2 now2 = Inr demo_moved)"
proof -
  note defs = admit_durable_write_def Let_def covering_lease_def evaluate_def lease_expired_def may_write_public_def role_of_def
    route_shard_key_def route_def bounds_contains_def demo_lease_def with_lease_def lease_grant_def grant_at_clock_def
    sample_monotonic_def saturating_add64_def u64_max_def demo_cat_moved_def demo_cat_defs
  have old: "admit_durable_write (\<lambda>bs. bs) demo_cat (demo_lease ''a'' 1) ''a'' ''orders'' [7] 1 100 = Inr demo_entry"
    by (simp add: defs)
  have new: "admit_durable_write (\<lambda>bs. bs) demo_cat_moved (demo_lease ''b'' 2) ''b'' ''orders'' [7] 1 200 = Inr demo_moved"
    by (simp add: defs)
  have same: "ro_range_id demo_entry = ro_range_id demo_moved" by (simp add: demo_entry_defs)
  from deposed_owner_fenced [OF demo_cat_steps(1) demo_cat_moved_step old new same] same show ?thesis by fastforce
qed

end
