(* ===== verification/Election.thy ===== *)
theory Election
  imports Prelude_RedDB
begin

section \<open>Elections\<close>

text \<open>
  \<open>src/crates/reddb-server/src/replication/election.rs\<close>: the membership rules, the voter with its durable last vote, and the
  candidate's coordinator (electability guard, dry-run probe, real election). The coordinator drives the
  cluster through the trait \<open>ElectionTransport\<close>, which is a record of functions over a state here; the
  locale \<open>election_transport\<close> states what a transport must guarantee, and a cluster of voters with a
  lossy network and other activity between any two calls is an instance. Durations are nanoseconds.
\<close>

datatype member_kind = KindData | KindWitness

datatype voting_state = StateVoting | StateCatchingUp

record member =
  mem_id :: string
  mem_kind :: member_kind
  mem_state :: voting_state

definition data_voting :: "string \<Rightarrow> member" where
  "data_voting i = \<lparr>mem_id = i, mem_kind = KindData, mem_state = StateVoting\<rparr>"

definition data_catching_up :: "string \<Rightarrow> member" where
  "data_catching_up i = \<lparr>mem_id = i, mem_kind = KindData, mem_state = StateCatchingUp\<rparr>"

definition witness_member :: "string \<Rightarrow> member" where
  "witness_member i = \<lparr>mem_id = i, mem_kind = KindWitness, mem_state = StateVoting\<rparr>"

definition is_voter :: "member \<Rightarrow> bool" where
  "is_voter m \<longleftrightarrow> mem_state m = StateVoting"

definition is_electable :: "member \<Rightarrow> bool" where
  "is_electable m \<longleftrightarrow> mem_kind m = KindData \<and> is_voter m"

definition quorum_threshold :: "member list \<Rightarrow> nat" where
  "quorum_threshold members = length (filter is_voter members) div 2 + 1"

subsection \<open>The voter\<close>

record last_vote =
  lv_term :: nat
  lv_voted_for :: "string option"

datatype last_vote_error = LastVoteIo string | LastVoteInvalidFormat string

text \<open>A durable store, with the outcome of its next load and persist; a failed persist may have written or not.\<close>

record vote_store =
  store_vote :: last_vote
  store_load_error :: "last_vote_error option"
  store_persist_error :: "(last_vote_error \<times> bool) option"

definition store_load :: "vote_store \<Rightarrow> last_vote_error + last_vote" where
  "store_load s = (case store_load_error s of Some e \<Rightarrow> Inl e | None \<Rightarrow> Inr (store_vote s))"

definition store_persist :: "last_vote \<Rightarrow> vote_store \<Rightarrow> (last_vote_error + unit) \<times> vote_store" where
  "store_persist v s =
     (case store_persist_error s of
        Some (e, written) \<Rightarrow> (Inl e, if written then s\<lparr>store_vote := v\<rparr> else s)
      | None \<Rightarrow> (Inr (), s\<lparr>store_vote := v\<rparr>))"

record vote_request =
  req_candidate :: string
  req_term :: nat
  req_last_log_lsn :: nat
  req_dry_run :: bool

definition vote_probe :: "string \<Rightarrow> nat \<Rightarrow> nat \<Rightarrow> vote_request" where
  "vote_probe c t lsn = \<lparr>req_candidate = c, req_term = t, req_last_log_lsn = lsn, req_dry_run = True\<rparr>"

definition vote_real :: "string \<Rightarrow> nat \<Rightarrow> nat \<Rightarrow> vote_request" where
  "vote_real c t lsn = \<lparr>req_candidate = c, req_term = t, req_last_log_lsn = lsn, req_dry_run = False\<rparr>"

datatype refusal_reason = WatermarkNotCovered nat nat | AlreadyVoted nat string | StaleTerm nat nat

datatype vote_decision = Granted | Refused refusal_reason

definition voter_consider :: "vote_request \<Rightarrow> nat \<Rightarrow> vote_store \<Rightarrow> (last_vote_error + vote_decision) \<times> vote_store" where
  "voter_consider r watermark s =
     (if req_last_log_lsn r < watermark then (Inr (Refused (WatermarkNotCovered (req_last_log_lsn r) watermark)), s)
      else case store_load s of
          Inl e \<Rightarrow> (Inl e, s)
        | Inr prev \<Rightarrow>
            if req_term r < lv_term prev then (Inr (Refused (StaleTerm (req_term r) (lv_term prev))), s)
            else
              (case (if req_term r = lv_term prev then lv_voted_for prev else None) of
                 Some other \<Rightarrow>
                   if other \<noteq> req_candidate r then (Inr (Refused (AlreadyVoted (lv_term prev) other)), s) else (Inr Granted, s)
               | None \<Rightarrow>
                   if req_dry_run r then (Inr Granted, s)
                   else
                     (case store_persist \<lparr>lv_term = req_term r, lv_voted_for = Some (req_candidate r)\<rparr> s of
                        (Inl e, s') \<Rightarrow> (Inl e, s')
                      | (Inr _, s') \<Rightarrow> (Inr Granted, s'))))"

subsection \<open>The candidate\<close>

text \<open>The timeout; \<open>None\<close> is the panic of a remainder by zero, when the truncated jitter is 0.\<close>

definition randomized_election_timeout :: "nat \<Rightarrow> nat \<Rightarrow> nat \<Rightarrow> nat option" where
  "randomized_election_timeout base jitter seed =
     (if jitter = 0 then Some base
      else let jitter_ms = max (jitter div 1000000) 1 mod 2 ^ 64 in
        if jitter_ms = 0 then None else Some (base + seed mod jitter_ms * 1000000))"

record election_request =
  el_candidate :: member
  el_current_term :: nat
  el_last_log_lsn :: nat
  el_commit_watermark :: nat

definition new_term :: "election_request \<Rightarrow> nat" where
  "new_term r = wrapping_add64 (el_current_term r) 1"

datatype election_outcome =
    Elected nat nat nat
  | ProbeFailed nat nat
  | Lost nat nat nat
  | NotElectable
  | TimedOut nat nat

record 't transport =
  tp_members :: "'t \<Rightarrow> member list"
  tp_request_vote :: "string \<Rightarrow> vote_request \<Rightarrow> 't \<Rightarrow> vote_decision \<times> 't"
  tp_elapsed :: "'t \<Rightarrow> nat \<times> 't"
  tp_bump_term :: "nat \<Rightarrow> 't \<Rightarrow> 't"
  tp_promote :: "nat \<Rightarrow> 't \<Rightarrow> 't"

datatype collect_result = Reached nat | Exhausted nat | CollectTimedOut nat

fun collect_from :: "'t transport \<Rightarrow> vote_request \<Rightarrow> nat \<Rightarrow> nat \<Rightarrow> nat \<Rightarrow> string list \<Rightarrow> 't \<Rightarrow> collect_result \<times> 't" where
  "collect_from tp r needed timeout votes [] t = (Exhausted votes, t)"
| "collect_from tp r needed timeout votes (peer # peers) t =
     (let (elapsed, t1) = tp_elapsed tp t in
      if elapsed \<ge> timeout then (CollectTimedOut votes, t1)
      else
        (let (decision, t2) = tp_request_vote tp peer r t1 in
         if decision = Granted then
           (if votes + 1 \<ge> needed then (Reached (votes + 1), t2) else collect_from tp r needed timeout (votes + 1) peers t2)
         else collect_from tp r needed timeout votes peers t2))"

definition collect :: "'t transport \<Rightarrow> string list \<Rightarrow> vote_request \<Rightarrow> nat \<Rightarrow> nat \<Rightarrow> 't \<Rightarrow> collect_result \<times> 't" where
  "collect tp peers r needed timeout t =
     (if (1::nat) \<ge> needed then (Reached 1, t) else collect_from tp r needed timeout 1 peers t)"

definition election_peers :: "member list \<Rightarrow> string \<Rightarrow> string list" where
  "election_peers members candidate = map mem_id (filter (\<lambda>m. is_voter m \<and> mem_id m \<noteq> candidate) members)"

definition election_run :: "election_request \<Rightarrow> 't transport \<Rightarrow> nat \<Rightarrow> 't \<Rightarrow> election_outcome \<times> 't" where
  "election_run r tp timeout t =
     (if \<not> is_electable (el_candidate r) \<or> el_last_log_lsn r < el_commit_watermark r then (NotElectable, t)
      else
        (let members = tp_members tp t; needed = quorum_threshold members; n = new_term r; c = mem_id (el_candidate r);
             peers = election_peers members c in
         case collect tp peers (vote_probe c n (el_last_log_lsn r)) needed timeout t of
           (Exhausted v, t1) \<Rightarrow> (ProbeFailed v needed, t1)
         | (CollectTimedOut v, t1) \<Rightarrow> (TimedOut v needed, t1)
         | (Reached v, t1) \<Rightarrow>
             (case collect tp peers (vote_real c n (el_last_log_lsn r)) needed timeout (tp_bump_term tp n t1) of
                (Reached votes, t2) \<Rightarrow> (Elected n votes needed, tp_promote tp n t2)
              | (Exhausted votes, t2) \<Rightarrow> (Lost n votes needed, t2)
              | (CollectTimedOut votes, t2) \<Rightarrow> (TimedOut votes needed, t2))))"

subsection \<open>Majorities\<close>

definition voter_ids :: "member list \<Rightarrow> string set" where
  "voter_ids members = mem_id ` set (filter is_voter members)"

lemma card_voters: "distinct (map mem_id (filter is_voter members)) \<Longrightarrow> card (voter_ids members) = length (filter is_voter members)"
  unfolding voter_ids_def by (metis distinct_card length_map list.set_map)

lemma majorities_intersect:
  assumes "distinct (map mem_id (filter is_voter members))" and "P \<subseteq> voter_ids members" and "Q \<subseteq> voter_ids members"
    and "quorum_threshold members \<le> card P" and "quorum_threshold members \<le> card Q"
  shows "P \<inter> Q \<noteq> {}"
proof
  assume "P \<inter> Q = {}"
  moreover have fin: "finite (voter_ids members)" by (simp add: voter_ids_def)
  ultimately have "card P + card Q = card (P \<union> Q)" using assms(2,3) by (metis card_Un_disjoint finite_subset)
  also have "\<dots> \<le> card (voter_ids members)" using assms(2,3) fin by (intro card_mono) auto
  finally show False using assms(4,5) by (simp add: card_voters [OF assms(1)] quorum_threshold_def)
qed

lemma set_election_peers: "set (election_peers members c) = voter_ids members - {c}"
  by (auto simp: election_peers_def voter_ids_def)

lemma distinct_election_peers: "distinct (map mem_id (filter is_voter members)) \<Longrightarrow> distinct (election_peers members c)"
proof -
  have "election_peers members c = filter (\<lambda>i. i \<noteq> c) (map mem_id (filter is_voter members))"
    by (induction members) (auto simp: election_peers_def)
  then show "distinct (map mem_id (filter is_voter members)) \<Longrightarrow> ?thesis" by simp
qed

subsection \<open>What a transport guarantees\<close>

text \<open>
  \<open>grants\<close> is the history of real votes: the triples of voter, term and candidate. Every call keeps the
  history and its validity; a real vote that is reported granted is in the history and the voter's commit
  watermark is covered; advancing the term records the candidate's vote for itself, provided its own voter
  was kept out of that term (\<open>ready\<close>); a valid history has one vote per voter and term.
\<close>

locale election_transport =
  fixes tp :: "'t transport" and cand :: string and members :: "member list"
    and grants :: "'t \<Rightarrow> (string \<times> nat \<times> string) set" and valid :: "'t \<Rightarrow> bool" and ready :: "nat \<Rightarrow> 't \<Rightarrow> bool"
    and mark :: "string \<Rightarrow> nat"
  assumes members_fixed: "tp_members tp t = members"
    and elapsed_valid: "valid t \<Longrightarrow> tp_elapsed tp t = (d, t') \<Longrightarrow> valid t'"
    and elapsed_grants: "tp_elapsed tp t = (d, t') \<Longrightarrow> grants t' = grants t"
    and elapsed_ready: "ready n t \<Longrightarrow> tp_elapsed tp t = (d, t') \<Longrightarrow> ready n t'"
    and vote_valid: "valid t \<Longrightarrow> p \<noteq> cand \<Longrightarrow> req_candidate r = cand \<Longrightarrow> tp_request_vote tp p r t = (v, t') \<Longrightarrow> valid t'"
    and vote_grants: "tp_request_vote tp p r t = (v, t') \<Longrightarrow> grants t \<subseteq> grants t'"
    and vote_ready: "ready n t \<Longrightarrow> p \<noteq> cand \<Longrightarrow> tp_request_vote tp p r t = (v, t') \<Longrightarrow> ready n t'"
    and vote_recorded: "valid t \<Longrightarrow> req_candidate r = cand \<Longrightarrow> \<not> req_dry_run r \<Longrightarrow> tp_request_vote tp p r t = (Granted, t') \<Longrightarrow>
      (p, req_term r, cand) \<in> grants t' \<and> mark p \<le> req_last_log_lsn r"
    and bump_valid: "valid t \<Longrightarrow> ready n t \<Longrightarrow> valid (tp_bump_term tp n t)"
    and bump_recorded: "valid t \<Longrightarrow> ready n t \<Longrightarrow> insert (cand, n, cand) (grants t) \<subseteq> grants (tp_bump_term tp n t)"
    and promote_grants: "grants (tp_promote tp n t) = grants t"
    and promote_valid: "valid t \<Longrightarrow> valid (tp_promote tp n t)"
    and one_vote: "valid t \<Longrightarrow> (w, n, c) \<in> grants t \<Longrightarrow> (w, n, c') \<in> grants t \<Longrightarrow> c = c'"
begin

definition backers :: "nat \<Rightarrow> 't \<Rightarrow> string set" where
  "backers n t = {v. (v, n, cand) \<in> grants t}"

lemma collect_from_keeps:
  "collect_from tp r needed timeout votes peers t = (res, t') \<Longrightarrow> valid t \<Longrightarrow> cand \<notin> set peers \<Longrightarrow> req_candidate r = cand \<Longrightarrow>
   valid t' \<and> grants t \<subseteq> grants t' \<and> (ready n t \<longrightarrow> ready n t')"
proof (induction peers arbitrary: votes t)
  case (Cons peer peers)
  obtain d t1 where e: "tp_elapsed tp t = (d, t1)" by (cases "tp_elapsed tp t")
  obtain v t2 where q: "tp_request_vote tp peer r t1 = (v, t2)" by (cases "tp_request_vote tp peer r t1")
  have 1: "valid t1" "grants t1 = grants t" "ready n t \<longrightarrow> ready n t1"
    using elapsed_valid [OF Cons.prems(2) e] elapsed_grants [OF e] elapsed_ready [OF _ e] by simp_all
  have "peer \<noteq> cand" using Cons.prems(3) by auto
  then have 2: "valid t2" "grants t \<subseteq> grants t2" "ready n t \<longrightarrow> ready n t2"
    using vote_valid [OF 1(1) _ Cons.prems(4) q] vote_grants [OF q] vote_ready [OF _ _ q] 1 by auto
  show ?case
  proof (cases "d \<ge> timeout \<or> v = Granted \<and> votes + 1 \<ge> needed")
    case True
    with Cons.prems(1) 1 2 show ?thesis by (auto simp: e q split: if_splits)
  next
    case False
    with Cons.prems(1) obtain votes' where "collect_from tp r needed timeout votes' peers t2 = (res, t')"
      by (auto simp: e q split: if_splits)
    from Cons.IH [OF this 2(1)] Cons.prems(3,4) 2 show ?thesis by auto
  qed
qed auto

lemma collect_from_reached:
  "collect_from tp r needed timeout votes peers t = (Reached k, t') \<Longrightarrow> valid t \<Longrightarrow> cand \<notin> set peers \<Longrightarrow> req_candidate r = cand \<Longrightarrow>
   \<not> req_dry_run r \<Longrightarrow> distinct peers \<Longrightarrow> votes < needed \<Longrightarrow>
   \<exists>Q \<subseteq> set peers. card Q + votes = needed \<and> (\<forall>v \<in> Q. (v, req_term r, cand) \<in> grants t' \<and> mark v \<le> req_last_log_lsn r)"
proof (induction peers arbitrary: votes t)
  case (Cons peer peers)
  obtain d t1 where e: "tp_elapsed tp t = (d, t1)" by (cases "tp_elapsed tp t")
  obtain v t2 where q: "tp_request_vote tp peer r t1 = (v, t2)" by (cases "tp_request_vote tp peer r t1")
  have v1: "valid t1" by (rule elapsed_valid [OF Cons.prems(2) e])
  have v2: "valid t2" using vote_valid [OF v1 _ Cons.prems(4) q] Cons.prems(3) by auto
  have run: "\<not> d \<ge> timeout" using Cons.prems(1) by (auto simp: e)
  show ?case
  proof (cases "v = Granted")
    case True
    note rec = vote_recorded [OF v1 Cons.prems(4,5) q [unfolded True]]
    show ?thesis
    proof (cases "votes + 1 \<ge> needed")
      case enough: True
      then have "t' = t2" using Cons.prems(1) run True by (simp add: e q)
      with enough rec Cons.prems(7) show ?thesis by (intro exI [of _ "{peer}"]) auto
    next
      case False
      then have rest: "collect_from tp r needed timeout (votes + 1) peers t2 = (Reached k, t')"
        using Cons.prems(1) run True by (simp add: e q)
      obtain Q where Q: "Q \<subseteq> set peers" "card Q + (votes + 1) = needed"
          "\<forall>v \<in> Q. (v, req_term r, cand) \<in> grants t' \<and> mark v \<le> req_last_log_lsn r"
        using Cons.IH [OF rest v2] Cons.prems False by auto
      have "grants t2 \<subseteq> grants t'" using collect_from_keeps [OF rest v2] Cons.prems(3,4) by auto
      moreover have "card (insert peer Q) = Suc (card Q)"
        using Q(1) Cons.prems(6) finite_subset [OF Q(1)] by (subst card_insert_disjoint) auto
      ultimately show ?thesis using Q rec by (intro exI [of _ "insert peer Q"]) auto
    qed
  next
    case False
    then have rest: "collect_from tp r needed timeout votes peers t2 = (Reached k, t')"
      using Cons.prems(1) run by (simp add: e q)
    from Cons.IH [OF rest v2] Cons.prems show ?thesis by auto
  qed
qed simp

lemma collect_keeps:
  assumes "collect tp peers r needed timeout t = (res, t')" and "valid t" and "cand \<notin> set peers" and "req_candidate r = cand"
  shows "valid t'" and "grants t \<subseteq> grants t'" and "ready n t \<Longrightarrow> ready n t'"
  using assms collect_from_keeps [of r needed timeout 1 peers t res t' n] by (auto simp: collect_def split: if_splits)

text \<open>A candidate that is elected has, in the history, the votes of a majority, its own included.\<close>

lemma elected_majority:
  assumes run: "election_run r tp timeout t = (Elected n votes needed, t')" and "valid t" and rdy: "ready (new_term r) t"
    and cand: "mem_id (el_candidate r) = cand" and dist: "distinct (map mem_id (filter is_voter members))"
    and voter: "cand \<in> voter_ids members"
  shows "valid t' \<and> n = new_term r \<and> (\<exists>Q \<subseteq> voter_ids members. quorum_threshold members \<le> card Q \<and> Q \<subseteq> backers n t' \<and>
    (\<forall>v \<in> Q - {cand}. mark v \<le> el_last_log_lsn r)) \<and> el_commit_watermark r \<le> el_last_log_lsn r"
proof -
  let ?peers = "election_peers members cand" and ?n = "new_term r" and ?needed = "quorum_threshold members"
  let ?real = "vote_real cand ?n (el_last_log_lsn r)"
  have peers: "cand \<notin> set ?peers" by (simp add: set_election_peers)
  obtain k t1 k2 t2 where probe: "collect tp ?peers (vote_probe cand ?n (el_last_log_lsn r)) ?needed timeout t = (Reached k, t1)"
    and ballot: "collect tp ?peers ?real ?needed timeout (tp_bump_term tp ?n t1) = (Reached k2, t2)"
    and n: "n = ?n" and t': "t' = tp_promote tp ?n t2" and guard: "el_commit_watermark r \<le> el_last_log_lsn r"
    using run unfolding election_run_def members_fixed cand
    by (auto simp: Let_def split: if_splits prod.splits collect_result.splits)
  note kept = collect_keeps [OF probe assms(2) peers]
  have 1: "valid t1" "ready ?n t1" using kept rdy by (simp_all add: vote_probe_def)
  note bump = bump_valid [OF 1] bump_recorded [OF 1]
  have real: "req_candidate ?real = cand" "\<not> req_dry_run ?real" "req_term ?real = ?n" "req_last_log_lsn ?real = el_last_log_lsn r"
    by (simp_all add: vote_real_def)
  note kept2 = collect_keeps [OF ballot bump(1) peers real(1)]
  have self: "(cand, ?n, cand) \<in> grants t2" using bump(2) kept2(2) by auto
  obtain Q where Q: "Q \<subseteq> set ?peers" "?needed \<le> Suc (card Q)" "\<forall>v \<in> Q. (v, ?n, cand) \<in> grants t2 \<and> mark v \<le> el_last_log_lsn r"
  proof (cases "1 \<ge> ?needed")
    case True
    then show ?thesis using that [of "{}"] by simp
  next
    case False
    then have "collect_from tp ?real ?needed timeout 1 ?peers (tp_bump_term tp ?n t1) = (Reached k2, t2)"
      using ballot by (simp add: collect_def)
    from collect_from_reached [OF this bump(1) peers real(1,2) distinct_election_peers [OF dist]] False real that show ?thesis by auto
  qed
  have "card (insert cand Q) = Suc (card Q)"
    using Q(1) peers finite_subset [OF Q(1)] by (subst card_insert_disjoint) auto
  moreover have "insert cand Q \<subseteq> voter_ids members" using Q(1) voter by (auto simp: set_election_peers)
  moreover have "insert cand Q \<subseteq> backers n t'" using Q(3) self by (auto simp: backers_def t' n promote_grants)
  moreover have "valid t'" unfolding t' by (rule promote_valid [OF kept2(1)])
  ultimately show ?thesis using Q n guard by (intro conjI exI [of _ "insert cand Q"]) auto
qed

end

end
