(* ===== verification/Election_Safety.thy ===== *)
theory Election_Safety
  imports Election
begin

section \<open>Safety of elections\<close>

text \<open>
  A cluster of voters as a transport of the election coordinator. Between any two calls of a candidate the
  rest of the cluster may act: other candidates ask for votes or stand, and stores start or stop failing.
  Requests and replies can be lost. \<open>wm\<close> is the commit watermark each voter knows. The history of real
  votes is recorded beside the durable stores.
\<close>

datatype cluster_event =
    EnvVote string vote_request
  | EnvStand string nat
  | EnvFault string "last_vote_error option" "(last_vote_error \<times> bool) option"

datatype delivery = Delivered | RequestLost | ReplyLost

record cluster =
  cl_store :: "string \<Rightarrow> vote_store"
  cl_grants :: "(string \<times> nat \<times> string) set"
  cl_env :: "cluster_event list list"
  cl_net :: "delivery list"
  cl_clock :: "nat list"

definition cast_vote :: "(string \<Rightarrow> nat) \<Rightarrow> string \<Rightarrow> vote_request \<Rightarrow> cluster \<Rightarrow> (last_vote_error + vote_decision) \<times> cluster" where
  "cast_vote wm v r cl =
     (let (res, s) = voter_consider r (wm v) (cl_store cl v) in
      (res, cl\<lparr>cl_store := (cl_store cl)(v := s),
               cl_grants := (if res = Inr Granted \<and> \<not> req_dry_run r then insert (v, req_term r, req_candidate r) (cl_grants cl) else cl_grants cl)\<rparr>))"

definition stand :: "string \<Rightarrow> nat \<Rightarrow> cluster \<Rightarrow> cluster" where
  "stand c n cl =
     cl\<lparr>cl_store := (cl_store cl)(c := (cl_store cl c)\<lparr>store_vote := \<lparr>lv_term = n, lv_voted_for = Some c\<rparr>\<rparr>),
        cl_grants := insert (c, n, c) (cl_grants cl)\<rparr>"

fun env_event :: "(string \<Rightarrow> nat) \<Rightarrow> cluster_event \<Rightarrow> cluster \<Rightarrow> cluster" where
  "env_event wm (EnvVote v r) cl = snd (cast_vote wm v r cl)"
| "env_event wm (EnvStand c n) cl = (if lv_term (store_vote (cl_store cl c)) < n then stand c n cl else cl)"
| "env_event wm (EnvFault v l p) cl =
     cl\<lparr>cl_store := (cl_store cl)(v := (cl_store cl v)\<lparr>store_load_error := l, store_persist_error := p\<rparr>)\<rparr>"

definition env_run :: "(string \<Rightarrow> nat) \<Rightarrow> cluster_event list \<Rightarrow> cluster \<Rightarrow> cluster" where
  "env_run wm evs cl = fold (env_event wm) evs cl"

definition interfere :: "(string \<Rightarrow> nat) \<Rightarrow> cluster \<Rightarrow> cluster" where
  "interfere wm cl = (case cl_env cl of [] \<Rightarrow> cl | evs # rest \<Rightarrow> env_run wm evs (cl\<lparr>cl_env := rest\<rparr>))"

definition no_answer :: "vote_request \<Rightarrow> vote_decision" where
  "no_answer r = Refused (StaleTerm (req_term r) u64_max)"

definition next_delivery :: "cluster \<Rightarrow> delivery \<times> cluster" where
  "next_delivery cl = (case cl_net cl of [] \<Rightarrow> (Delivered, cl) | d # ds \<Rightarrow> (d, cl\<lparr>cl_net := ds\<rparr>))"

definition cluster_request_vote :: "(string \<Rightarrow> nat) \<Rightarrow> string \<Rightarrow> vote_request \<Rightarrow> cluster \<Rightarrow> vote_decision \<times> cluster" where
  "cluster_request_vote wm p r cl =
     (let (d, cl1) = next_delivery (interfere wm cl) in
      if d = RequestLost then (no_answer r, cl1)
      else
        (let (res, cl2) = cast_vote wm p r cl1 in
         (case res of Inr decision \<Rightarrow> if d = Delivered then decision else no_answer r | Inl _ \<Rightarrow> no_answer r, cl2)))"

definition cluster_elapsed :: "cluster \<Rightarrow> nat \<times> cluster" where
  "cluster_elapsed cl = (case cl_clock cl of [] \<Rightarrow> (0, cl) | c # cs \<Rightarrow> (c, cl\<lparr>cl_clock := cs\<rparr>))"

text \<open>
  Two ways to advance the term: recording the candidate's vote for itself in its own voter, and what the
  trait asks for, advancing the node's durable term.
\<close>

definition bump_recording :: "(string \<Rightarrow> nat) \<Rightarrow> string \<Rightarrow> nat \<Rightarrow> cluster \<Rightarrow> cluster" where
  "bump_recording wm c n cl = stand c n (interfere wm cl)"

definition bump_advancing :: "(string \<Rightarrow> nat) \<Rightarrow> string \<Rightarrow> nat \<Rightarrow> cluster \<Rightarrow> cluster" where
  "bump_advancing wm c n cl =
     (let cl1 = interfere wm cl; s = cl_store cl1 c in
      if lv_term (store_vote s) < n
      then cl1\<lparr>cl_store := (cl_store cl1)(c := s\<lparr>store_vote := \<lparr>lv_term = n, lv_voted_for = None\<rparr>\<rparr>)\<rparr> else cl1)"

definition cluster_transport ::
  "((string \<Rightarrow> nat) \<Rightarrow> string \<Rightarrow> nat \<Rightarrow> cluster \<Rightarrow> cluster) \<Rightarrow> (string \<Rightarrow> nat) \<Rightarrow> string \<Rightarrow> member list \<Rightarrow> cluster transport" where
  "cluster_transport bump wm c members =
     \<lparr>tp_members = (\<lambda>_. members), tp_request_vote = cluster_request_vote wm, tp_elapsed = cluster_elapsed,
      tp_bump_term = bump wm c, tp_promote = (\<lambda>_ cl. cl)\<rparr>"

subsection \<open>The voter votes once per term\<close>

lemma consider_store:
  assumes "voter_consider r w s = (res, s')"
  shows "store_vote s' = store_vote s \<or> store_vote s' = \<lparr>lv_term = req_term r, lv_voted_for = Some (req_candidate r)\<rparr> \<and>
    (lv_term (store_vote s) < req_term r \<or> lv_term (store_vote s) = req_term r \<and> lv_voted_for (store_vote s) = None)"
  using assms by (auto simp: voter_consider_def store_load_def store_persist_def split: if_splits option.splits sum.splits prod.splits)

lemma consider_granted:
  assumes "voter_consider r w s = (Inr Granted, s')"
  shows "w \<le> req_last_log_lsn r"
    and "\<not> req_dry_run r \<Longrightarrow> lv_term (store_vote s') = req_term r \<and> lv_voted_for (store_vote s') = Some (req_candidate r)"
  using assms by (auto simp: voter_consider_def store_load_def store_persist_def split: if_splits option.splits sum.splits prod.splits)

definition votes_ok :: "last_vote \<Rightarrow> (nat \<times> string) set \<Rightarrow> bool" where
  "votes_ok v gs \<longleftrightarrow> (\<forall>(n, c) \<in> gs. n \<le> lv_term v \<and> (n = lv_term v \<longrightarrow> lv_voted_for v = Some c)) \<and>
     (\<forall>n c c'. (n, c) \<in> gs \<longrightarrow> (n, c') \<in> gs \<longrightarrow> c = c')"

definition votes_of :: "cluster \<Rightarrow> string \<Rightarrow> (nat \<times> string) set" where
  "votes_of cl v = {(n, c). (v, n, c) \<in> cl_grants cl}"

definition cluster_valid :: "cluster \<Rightarrow> bool" where
  "cluster_valid cl \<longleftrightarrow> (\<forall>v. votes_ok (store_vote (cl_store cl v)) (votes_of cl v))"

lemma votes_ok_advance:
  "votes_ok v gs \<Longrightarrow> lv_term v < n \<or> lv_term v = n \<and> lv_voted_for v = None \<Longrightarrow> votes_ok \<lparr>lv_term = n, lv_voted_for = c\<rparr> gs"
  by (fastforce simp: votes_ok_def)

lemma votes_ok_insert:
  "votes_ok v gs \<Longrightarrow> lv_voted_for v = Some c \<Longrightarrow> votes_ok v (insert (lv_term v, c) gs)"
  by (auto simp: votes_ok_def)

lemma cast_vote_valid:
  assumes "cluster_valid cl"
  shows "cluster_valid (snd (cast_vote wm v r cl))"
proof -
  obtain res s where c: "voter_consider r (wm v) (cl_store cl v) = (res, s)" by (cases "voter_consider r (wm v) (cl_store cl v)")
  have "votes_ok (store_vote (cl_store cl v)) (votes_of cl v)" using assms by (simp add: cluster_valid_def)
  then have ok: "votes_ok (store_vote s) (votes_of cl v)"
    using consider_store [OF c] votes_ok_advance by metis
  have ins: "votes_ok (store_vote s) (insert (req_term r, req_candidate r) (votes_of cl v))" if "res = Inr Granted" "\<not> req_dry_run r"
    using consider_granted(2) [OF c [unfolded that(1)] that(2)] votes_ok_insert [OF ok, of "req_candidate r"] by simp
  have "votes_of (snd (cast_vote wm v r cl)) u =
      (if u = v \<and> res = Inr Granted \<and> \<not> req_dry_run r then insert (req_term r, req_candidate r) (votes_of cl v) else votes_of cl u)" for u
    by (auto simp: votes_of_def cast_vote_def c)
  then show ?thesis
    using assms ok ins by (auto simp: cluster_valid_def cast_vote_def c)
qed

lemma stand_valid:
  assumes "cluster_valid cl" and "lv_term (store_vote (cl_store cl c)) < n"
  shows "cluster_valid (stand c n cl)"
proof -
  have "votes_ok (store_vote (cl_store cl c)) (votes_of cl c)" using assms(1) by (simp add: cluster_valid_def)
  from votes_ok_insert [OF votes_ok_advance [OF this], of n "Some c" c] assms(2)
  have "votes_ok \<lparr>lv_term = n, lv_voted_for = Some c\<rparr> (insert (n, c) (votes_of cl c))" by simp
  moreover have "votes_of (stand c n cl) u = (if u = c then insert (n, c) (votes_of cl c) else votes_of cl u)" for u
    by (auto simp: votes_of_def stand_def)
  ultimately show ?thesis using assms(1) by (auto simp: cluster_valid_def stand_def)
qed

lemma env_event_valid: "cluster_valid cl \<Longrightarrow> cluster_valid (env_event wm ev cl)"
  by (cases ev) (simp_all add: cast_vote_valid stand_valid, simp add: cluster_valid_def votes_of_def)

lemma cast_vote_grants: "cl_grants cl \<subseteq> cl_grants (snd (cast_vote wm v r cl))"
  by (auto simp: cast_vote_def case_prod_unfold Let_def)

lemma env_event_grants: "cl_grants cl \<subseteq> cl_grants (env_event wm ev cl)"
  using cast_vote_grants by (cases ev) (auto simp: stand_def)

lemma env_run_valid: "cluster_valid cl \<Longrightarrow> cluster_valid (env_run wm evs cl)"
  unfolding env_run_def by (induction evs arbitrary: cl) (simp_all add: env_event_valid)

lemma env_run_grants: "cl_grants cl \<subseteq> cl_grants (env_run wm evs cl)"
  unfolding env_run_def using env_event_grants by (induction evs arbitrary: cl) (auto, blast)

subsection \<open>The cluster as a transport\<close>

text \<open>The candidate's own voter is kept out of the election it stands in: it has not reached the term and nothing else uses it.\<close>

fun event_target :: "cluster_event \<Rightarrow> string" where
  "event_target (EnvVote v r) = v"
| "event_target (EnvStand c n) = c"
| "event_target (EnvFault v l p) = v"

definition cluster_ready :: "string \<Rightarrow> nat \<Rightarrow> cluster \<Rightarrow> bool" where
  "cluster_ready c n cl \<longleftrightarrow> lv_term (store_vote (cl_store cl c)) < n \<and> (\<forall>evs \<in> set (cl_env cl). c \<notin> event_target ` set evs)"

lemma env_event_other:
  "c \<noteq> event_target ev \<Longrightarrow> cl_store (env_event wm ev cl) c = cl_store cl c" "cl_env (env_event wm ev cl) = cl_env cl"
  by (cases ev; simp add: cast_vote_def stand_def case_prod_unfold Let_def)+

lemma env_run_other:
  "c \<notin> event_target ` set evs \<Longrightarrow> cl_store (env_run wm evs cl) c = cl_store cl c \<and> cl_env (env_run wm evs cl) = cl_env cl"
  unfolding env_run_def by (induction evs arbitrary: cl) (simp_all add: env_event_other)

lemma interfere_keeps:
  "cluster_valid cl \<Longrightarrow> cluster_valid (interfere wm cl)" "cl_grants cl \<subseteq> cl_grants (interfere wm cl)"
  "cluster_ready c n cl \<Longrightarrow> cluster_ready c n (interfere wm cl)"
proof -
  have skip: "cluster_valid (cl\<lparr>cl_env := rest\<rparr>) = cluster_valid cl" for rest by (simp add: cluster_valid_def votes_of_def)
  show "cluster_valid cl \<Longrightarrow> cluster_valid (interfere wm cl)"
    by (simp add: interfere_def env_run_valid skip split: list.split)
  show "cl_grants cl \<subseteq> cl_grants (interfere wm cl)"
  proof (cases "cl_env cl")
    case (Cons evs rest)
    then show ?thesis using env_run_grants [of "cl\<lparr>cl_env := rest\<rparr>" wm evs] by (simp add: interfere_def)
  qed (simp add: interfere_def)
  show "cluster_ready c n cl \<Longrightarrow> cluster_ready c n (interfere wm cl)"
    using env_run_other [of c "hd (cl_env cl)" wm "cl\<lparr>cl_env := tl (cl_env cl)\<rparr>"]
    by (cases "cl_env cl") (simp_all add: interfere_def cluster_ready_def)
qed

lemma next_delivery_keeps:
  assumes "next_delivery cl = (d, cl')"
  shows "cluster_valid cl' = cluster_valid cl" "cl_grants cl' = cl_grants cl" "cluster_ready c n cl' = cluster_ready c n cl"
  using assms by (auto simp: next_delivery_def cluster_valid_def votes_of_def cluster_ready_def split: list.splits)

lemma cluster_elapsed_keeps:
  assumes "cluster_elapsed cl = (d, cl')"
  shows "cluster_valid cl' = cluster_valid cl" "cl_grants cl' = cl_grants cl" "cluster_ready c n cl' = cluster_ready c n cl"
  using assms by (auto simp: cluster_elapsed_def cluster_valid_def votes_of_def cluster_ready_def split: list.splits)

lemma request_vote_cases:
  assumes "cluster_request_vote wm p r cl = (v, cl')"
  obtains (lost) cl1 d where "next_delivery (interfere wm cl) = (d, cl1)" "cl' = cl1" "v \<noteq> Granted"
  | (cast) cl1 d where "next_delivery (interfere wm cl) = (d, cl1)" "cl' = snd (cast_vote wm p r cl1)"
      "v = Granted \<Longrightarrow> fst (cast_vote wm p r cl1) = Inr Granted"
  using assms by (auto simp: cluster_request_vote_def no_answer_def Let_def split: prod.splits sum.splits if_splits)

lemma request_vote_keeps:
  assumes "cluster_request_vote wm p r cl = (v, cl')"
  shows "cluster_valid cl \<Longrightarrow> cluster_valid cl'" "cl_grants cl \<subseteq> cl_grants cl'"
    "cluster_ready c n cl \<Longrightarrow> p \<noteq> c \<Longrightarrow> cluster_ready c n cl'"
proof -
  have "(cluster_valid cl \<longrightarrow> cluster_valid cl') \<and> cl_grants cl \<subseteq> cl_grants cl' \<and> (cluster_ready c n cl \<longrightarrow> p \<noteq> c \<longrightarrow> cluster_ready c n cl')"
    using assms
  proof (cases rule: request_vote_cases)
    case (lost cl1 d)
    then show ?thesis using interfere_keeps [where cl = cl and wm = wm] next_delivery_keeps [OF lost(1)] by simp
  next
    case (cast cl1 d)
    have "cluster_ready c n cl1 \<Longrightarrow> p \<noteq> c \<Longrightarrow> cluster_ready c n (snd (cast_vote wm p r cl1))"
      by (simp add: cluster_ready_def cast_vote_def case_prod_unfold Let_def)
    then show ?thesis
      using interfere_keeps [where cl = cl and wm = wm] next_delivery_keeps [OF cast(1)] cast_vote_valid cast_vote_grants
      by (metis cast(2) order_trans)
  qed
  then show "cluster_valid cl \<Longrightarrow> cluster_valid cl'" "cl_grants cl \<subseteq> cl_grants cl'"
    "cluster_ready c n cl \<Longrightarrow> p \<noteq> c \<Longrightarrow> cluster_ready c n cl'" by blast+
qed

lemma request_vote_recorded:
  assumes "cluster_request_vote wm p r cl = (Granted, cl')" and "\<not> req_dry_run r"
  shows "(p, req_term r, req_candidate r) \<in> cl_grants cl'" "wm p \<le> req_last_log_lsn r"
  using assms(1)
proof (atomize (full), cases rule: request_vote_cases)
  case (cast cl1 d)
  obtain res s where c: "voter_consider r (wm p) (cl_store cl1 p) = (res, s)" by (cases "voter_consider r (wm p) (cl_store cl1 p)")
  with cast(3) have "res = Inr Granted" by (simp add: cast_vote_def)
  with c consider_granted(1) show "(p, req_term r, req_candidate r) \<in> cl_grants cl' \<and> wm p \<le> req_last_log_lsn r"
    by (auto simp: cast(2) cast_vote_def assms(2))
qed simp

interpretation rec: election_transport "cluster_transport bump_recording wm c members" c members cl_grants cluster_valid "cluster_ready c" wm
  for wm c members
proof unfold_locales
  fix t n
  assume v: "cluster_valid t" and "cluster_ready c n t"
  then have "lv_term (store_vote (cl_store (interfere wm t) c)) < n"
    using interfere_keeps(3) [of c n t wm] by (simp add: cluster_ready_def)
  with stand_valid [OF interfere_keeps(1) [OF v]]
  show "cluster_valid (tp_bump_term (cluster_transport bump_recording wm c members) n t)"
    by (simp add: cluster_transport_def bump_recording_def)
  show "insert (c, n, c) (cl_grants t) \<subseteq> cl_grants (tp_bump_term (cluster_transport bump_recording wm c members) n t)"
    using interfere_keeps(2) [of t wm] by (auto simp: cluster_transport_def bump_recording_def stand_def)
next
  fix t w n x x'
  assume "cluster_valid t" "(w, n, x) \<in> cl_grants t" "(w, n, x') \<in> cl_grants t"
  then show "x = x'" by (auto simp: cluster_valid_def votes_ok_def votes_of_def)
next
  fix t p r t'
  assume "req_candidate r = c" "\<not> req_dry_run r" "tp_request_vote (cluster_transport bump_recording wm c members) p r t = (Granted, t')"
  then show "(p, req_term r, c) \<in> cl_grants t' \<and> wm p \<le> req_last_log_lsn r"
    using request_vote_recorded [of wm p r t t'] by (simp add: cluster_transport_def)
qed (auto simp: cluster_transport_def cluster_elapsed_keeps request_vote_keeps intro: request_vote_keeps)

lemma elected_quorum:
  assumes "election_run r (cluster_transport bump_recording wm c members) timeout cl = (Elected n votes needed, cl')"
    and "cluster_valid cl" and "cluster_ready c (new_term r) cl" and "mem_id (el_candidate r) = c"
    and "distinct (map mem_id (filter is_voter members))" and "c \<in> voter_ids members"
  obtains Q where "cluster_valid cl'" "n = new_term r" "Q \<subseteq> voter_ids members" "quorum_threshold members \<le> card Q"
    "\<forall>v \<in> Q. (v, n, c) \<in> cl_grants cl'" "\<forall>v \<in> Q - {c}. wm v \<le> el_last_log_lsn r" "el_commit_watermark r \<le> el_last_log_lsn r"
  using rec.elected_majority [OF assms] unfolding rec.backers_def by blast

text \<open>
  C31: one primary per term. Two candidates run elections over the same voting members, with any activity of
  the cluster between any two of their calls, lost messages and failing stores. Each candidate's own voter
  is behind the term it stands for and is used by nobody else while its election runs, and advancing the
  term records the candidate's vote for itself. If both are elected for the same term and some later state
  of the cluster follows both elections, they are the same candidate.
\<close>

theorem one_primary_per_term:
  assumes "election_run r (cluster_transport bump_recording wm c members) timeout cl = (Elected n votes needed, cl')"
    and "election_run r' (cluster_transport bump_recording wm c' members) timeout' cl2 = (Elected n votes' needed', cl2')"
    and "cluster_valid cl" and "cluster_ready c (new_term r) cl" and "mem_id (el_candidate r) = c" and "c \<in> voter_ids members"
    and "cluster_valid cl2" and "cluster_ready c' (new_term r') cl2" and "mem_id (el_candidate r') = c'" and "c' \<in> voter_ids members"
    and "distinct (map mem_id (filter is_voter members))"
    and "cl_grants (env_run wm later cl') = cl_grants (env_run wm later' cl2')"
  shows "c = c'"
proof -
  obtain Q where Q: "cluster_valid cl'" "Q \<subseteq> voter_ids members" "quorum_threshold members \<le> card Q" "\<forall>v \<in> Q. (v, n, c) \<in> cl_grants cl'"
    by (rule elected_quorum [OF assms(1,3-5,11,6)])
  obtain Q' where Q': "Q' \<subseteq> voter_ids members" "quorum_threshold members \<le> card Q'" "\<forall>v \<in> Q'. (v, n, c') \<in> cl_grants cl2'"
    by (rule elected_quorum [OF assms(2,7-9,11,10)])
  obtain v where "v \<in> Q" "v \<in> Q'" using majorities_intersect [OF assms(11) Q(2) Q'(1) Q(3) Q'(2)] by auto
  then have "(v, n, c) \<in> cl_grants (env_run wm later cl')" "(v, n, c') \<in> cl_grants (env_run wm later cl')"
    using Q(4) Q'(3) env_run_grants [of cl' wm later] env_run_grants [of cl2' wm later'] assms(12) by auto
  then show ?thesis by (rule rec.one_vote [OF env_run_valid [OF Q(1)]])
qed

text \<open>
  C32: a new primary has every acknowledged write. If a majority of the voting members know a commit
  watermark, and the candidate counts the one it knows itself, then whoever is elected has a log that
  reaches it.
\<close>

theorem elected_covers_watermark:
  assumes "election_run r (cluster_transport bump_recording wm c members) timeout cl = (Elected n votes needed, cl')"
    and "cluster_valid cl" and "cluster_ready c (new_term r) cl" and "mem_id (el_candidate r) = c"
    and "distinct (map mem_id (filter is_voter members))" and "c \<in> voter_ids members"
    and "K \<subseteq> voter_ids members" and "quorum_threshold members \<le> card K" and "\<forall>v \<in> K. watermark \<le> wm v" and "wm c \<le> el_commit_watermark r"
  shows "watermark \<le> el_last_log_lsn r"
proof -
  obtain Q where Q: "Q \<subseteq> voter_ids members" "quorum_threshold members \<le> card Q" "\<forall>v \<in> Q - {c}. wm v \<le> el_last_log_lsn r"
      "el_commit_watermark r \<le> el_last_log_lsn r"
    by (rule elected_quorum [OF assms(1-6)])
  obtain v where "v \<in> Q" "v \<in> K" using majorities_intersect [OF assms(5) Q(1) assms(7) Q(2) assms(8)] by auto
  then show ?thesis using Q(3,4) assms(9,10) by (cases "v = c") (auto intro: order_trans)
qed

subsection \<open>Concrete elections\<close>

definition demo_members :: "member list" where
  "demo_members = [data_voting ''a'', data_voting ''b'', witness_member ''w'']"

definition demo_store :: vote_store where
  "demo_store = \<lparr>store_vote = \<lparr>lv_term = 0, lv_voted_for = None\<rparr>, store_load_error = None, store_persist_error = None\<rparr>"

definition demo_cluster :: "delivery list \<Rightarrow> cluster" where
  "demo_cluster net = \<lparr>cl_store = (\<lambda>_. demo_store), cl_grants = {}, cl_env = [], cl_net = net, cl_clock = []\<rparr>"

definition demo_request :: "string \<Rightarrow> election_request" where
  "demo_request i = \<lparr>el_candidate = data_voting i, el_current_term = 0, el_last_log_lsn = 5, el_commit_watermark = 3\<rparr>"

lemmas demo_election_defs = demo_members_def demo_cluster_def demo_request_def election_run_def is_electable_def is_voter_def
  data_voting_def witness_member_def quorum_threshold_def new_term_def wrapping_add64_def election_peers_def collect_def
  cluster_transport_def cluster_elapsed_def cluster_request_vote_def interfere_def next_delivery_def cast_vote_def
  voter_consider_def store_load_def store_persist_def demo_store_def vote_probe_def vote_real_def bump_recording_def bump_advancing_def
  stand_def no_answer_def

abbreviation demo_election :: "((string \<Rightarrow> nat) \<Rightarrow> string \<Rightarrow> nat \<Rightarrow> cluster \<Rightarrow> cluster) \<Rightarrow> string \<Rightarrow> cluster \<Rightarrow> election_outcome \<times> cluster" where
  "demo_election bump i cl \<equiv> election_run (demo_request i) (cluster_transport bump (\<lambda>_. 3) i demo_members) 10 cl"

definition demo_votes :: "string list \<Rightarrow> cluster \<Rightarrow> cluster" where
  "demo_votes vs cl = cl\<lparr>cl_store := (\<lambda>v. if v \<in> set vs then demo_store\<lparr>store_vote := \<lparr>lv_term = 1, lv_voted_for = Some ''a''\<rparr>\<rparr> else demo_store),
     cl_grants := (\<lambda>v. (v, 1, ''a'')) ` set vs, cl_net := []\<rparr>"

abbreviation lost_to_b :: "delivery list" where
  "lost_to_b \<equiv> [RequestLost, Delivered, RequestLost, Delivered]"

lemma demo_elected:
  "demo_election bump_recording ''a'' (demo_cluster []) = (Elected 1 2 2, demo_votes [''a'', ''b''] (demo_cluster []))"
  "demo_election bump_recording ''a'' (demo_cluster lost_to_b) = (Elected 1 2 2, demo_votes [''a'', ''w''] (demo_cluster []))"
  by (simp_all add: demo_election_defs demo_votes_def Let_def fun_eq_iff insert_commute)

lemma demo_hyps:
  "cluster_valid (demo_cluster net)" "cluster_ready ''a'' (new_term (demo_request ''a'')) (demo_cluster net)"
  "mem_id (el_candidate (demo_request ''a'')) = ''a''" "''a'' \<in> voter_ids demo_members"
  "distinct (map mem_id (filter is_voter demo_members))"
  by (simp_all add: cluster_valid_def votes_ok_def votes_of_def cluster_ready_def voter_ids_def demo_election_defs)

theorem one_primary_per_term_witness:
  "fst (demo_election bump_recording ''a'' (demo_cluster [])) = Elected 1 2 2 \<and>
   fst (demo_election bump_recording ''a'' (demo_cluster lost_to_b)) = Elected 1 2 2 \<and> mem_id (el_candidate (demo_request ''a'')) = ''a''"
proof -
  let ?r = "vote_real ''a'' 1 5"
  let ?a = "mem_id (el_candidate (demo_request ''a''))"
  have same: "cl_grants (env_run (\<lambda>_. 3) [EnvVote ''w'' ?r] (demo_votes [''a'', ''b''] (demo_cluster []))) =
      cl_grants (env_run (\<lambda>_. 3) [EnvVote ''b'' ?r] (demo_votes [''a'', ''w''] (demo_cluster [])))"
    by (auto simp: env_run_def demo_votes_def demo_election_defs)
  have "election_run (demo_request ''a'') (cluster_transport bump_recording (\<lambda>_. 3) ?a demo_members) 10 (demo_cluster []) =
      (Elected 1 2 2, demo_votes [''a'', ''b''] (demo_cluster []))"
    unfolding demo_hyps(3) by (rule demo_elected(1))
  moreover have "cluster_ready ?a (new_term (demo_request ''a'')) (demo_cluster [])" "?a \<in> voter_ids demo_members"
    unfolding demo_hyps(3) by (rule demo_hyps)+
  ultimately have "?a = ''a''"
    using one_primary_per_term [OF _ demo_elected(2) demo_hyps(1) _ refl _ demo_hyps(1-5) same] by blast
  with demo_elected show ?thesis by simp
qed

theorem elected_covers_watermark_witness:
  "3 \<le> el_last_log_lsn (demo_request ''a'')"
proof (rule elected_covers_watermark [OF demo_elected(1) demo_hyps(1,2,3,5,4), of "{''a'', ''b''}" 3])
  show "{''a'', ''b''} \<subseteq> voter_ids demo_members" "quorum_threshold demo_members \<le> card {''a'', ''b''}"
    by (simp_all add: voter_ids_def demo_election_defs)
  show "3 \<le> el_commit_watermark (demo_request ''a'')" by (simp add: demo_request_def)
qed simp

subsection \<open>The candidate's own voter\<close>

text \<open>Nothing the candidate does while it collects votes reaches its own voter.\<close>

definition own_voter :: "string \<Rightarrow> vote_store \<Rightarrow> cluster \<Rightarrow> bool" where
  "own_voter c s cl \<longleftrightarrow> cl_store cl c = s \<and> (\<forall>evs \<in> set (cl_env cl). c \<notin> event_target ` set evs)"

lemma own_voter_interfere: "own_voter c s cl \<Longrightarrow> own_voter c s (interfere wm cl)"
  using env_run_other [of c "hd (cl_env cl)" wm "cl\<lparr>cl_env := tl (cl_env cl)\<rparr>"]
  by (cases "cl_env cl") (simp_all add: interfere_def own_voter_def)

lemma own_voter_elapsed: "own_voter c s cl \<Longrightarrow> cluster_elapsed cl = (d, cl') \<Longrightarrow> own_voter c s cl'"
  by (auto simp: cluster_elapsed_def own_voter_def split: list.splits)

lemma own_voter_request:
  assumes "own_voter c s cl" and "p \<noteq> c" and "cluster_request_vote wm p r cl = (v, cl')"
  shows "own_voter c s cl'"
proof -
  have keep: "own_voter c s cl1" if "next_delivery (interfere wm cl) = (d, cl1)" for d cl1
    using own_voter_interfere [OF assms(1), of wm] that by (auto simp: next_delivery_def own_voter_def split: list.splits)
  have cast: "own_voter c s (snd (cast_vote wm p r cl1))" if "own_voter c s cl1" for cl1
    using that assms(2) by (simp add: own_voter_def cast_vote_def case_prod_unfold Let_def)
  show ?thesis using assms(3) by (cases rule: request_vote_cases) (auto dest: keep intro: cast)
qed

lemma own_voter_collect_from:
  "collect_from (cluster_transport bump wm c members) r needed timeout votes peers cl = (res, cl') \<Longrightarrow> c \<notin> set peers \<Longrightarrow>
   own_voter c s cl \<Longrightarrow> own_voter c s cl'"
proof (induction peers arbitrary: votes cl)
  case (Cons peer peers)
  obtain d cl1 where e: "cluster_elapsed cl = (d, cl1)" by (cases "cluster_elapsed cl")
  obtain v cl2 where q: "cluster_request_vote wm peer r cl1 = (v, cl2)" by (cases "cluster_request_vote wm peer r cl1")
  note own1 = own_voter_elapsed [OF Cons.prems(3) e]
  have own2: "own_voter c s cl2" by (rule own_voter_request [OF own1 _ q]) (use Cons.prems(2) in auto)
  show ?case using Cons.prems(1,2) Cons.IH [OF _ _ own2] own1 own2
    by (auto simp: cluster_transport_def e q split: if_splits)
qed simp

lemma own_voter_collect:
  "collect (cluster_transport bump wm c members) (election_peers members c) r needed timeout cl = (res, cl') \<Longrightarrow>
   own_voter c s cl \<Longrightarrow> own_voter c s cl'"
  using own_voter_collect_from [where peers = "election_peers members c"] by (auto simp: collect_def set_election_peers split: if_splits)

lemma own_voter_bump:
  assumes "own_voter c s cl" and "lv_term (store_vote s) < n"
  shows "own_voter c (s\<lparr>store_vote := \<lparr>lv_term = n, lv_voted_for = None\<rparr>\<rparr>) (bump_advancing wm c n cl)"
  using own_voter_interfere [OF assms(1), of wm] assms(2) by (simp add: own_voter_def bump_advancing_def Let_def)

lemma own_voter_elected:
  assumes "election_run r (cluster_transport bump_advancing wm c members) timeout cl = (Elected n votes needed, cl')"
    and "cluster_ready c (new_term r) cl" and "mem_id (el_candidate r) = c"
  shows "n = new_term r" and "cl_store cl' c = (cl_store cl c)\<lparr>store_vote := \<lparr>lv_term = n, lv_voted_for = None\<rparr>\<rparr>"
proof -
  let ?tp = "cluster_transport bump_advancing wm c members" and ?n = "new_term r"
  have tp: "tp_members ?tp t = members" "tp_bump_term ?tp m t = bump_advancing wm c m t" "tp_promote ?tp m t = t" for m t
    by (simp_all add: cluster_transport_def)
  obtain k cl1 k2 cl2 where probe: "collect ?tp (election_peers members c) (vote_probe c ?n (el_last_log_lsn r)) (quorum_threshold members) timeout cl = (Reached k, cl1)"
    and ballot: "collect ?tp (election_peers members c) (vote_real c ?n (el_last_log_lsn r)) (quorum_threshold members) timeout (bump_advancing wm c ?n cl1) = (Reached k2, cl2)"
    and n: "n = ?n" and cl': "cl' = cl2"
    using assms(1) unfolding election_run_def assms(3) tp by (auto simp: Let_def split: if_splits prod.splits collect_result.splits)
  have "own_voter c (cl_store cl c) cl" and behind: "lv_term (store_vote (cl_store cl c)) < ?n" using assms(2) by (simp_all add: own_voter_def cluster_ready_def)
  from own_voter_collect [OF ballot own_voter_bump [OF own_voter_collect [OF probe this(1)] behind]]
  show "n = new_term r" "cl_store cl' c = (cl_store cl c)\<lparr>store_vote := \<lparr>lv_term = n, lv_voted_for = None\<rparr>\<rparr>"
    by (simp_all add: own_voter_def n cl')
qed

text \<open>
  C33: a candidate's vote for itself is not recorded. The coordinator counts the candidate's own vote and asks
  the transport only to advance the node's durable term. Take any election won over a transport that does
  exactly that, with any activity of the cluster and lost messages, where the candidate's own voter is behind the
  term, is used by nobody else while the election runs and its store works. After the election that voter grants
  its vote in the same term to every other candidate whose log covers its commit watermark.
\<close>

theorem self_vote_not_recorded:
  assumes "election_run r (cluster_transport bump_advancing wm c members) timeout cl = (Elected n votes needed, cl')"
    and "cluster_ready c (new_term r) cl" and "mem_id (el_candidate r) = c"
    and "store_load_error (cl_store cl c) = None" and "store_persist_error (cl_store cl c) = None"
    and "c' \<noteq> c" and "wm c \<le> lsn"
  shows "fst (voter_consider (vote_real c' n lsn) (wm c) (cl_store cl' c)) = Inr Granted"
  using own_voter_elected [OF assms(1-3)] assms(4,5,7)
  by (simp add: voter_consider_def vote_real_def store_load_def store_persist_def)

text \<open>
  So two candidates can be elected in one term, although all the other conditions of the safety theorem above
  hold: a cluster of two data nodes and a witness elects one after the other.
\<close>

lemma two_elected_in_one_term:
  obtains cl' cl'' where "demo_election bump_advancing ''a'' (demo_cluster lost_to_b) = (Elected 1 2 2, cl')"
    and "cl_store cl' ''a'' = demo_store\<lparr>store_vote := \<lparr>lv_term = 1, lv_voted_for = None\<rparr>\<rparr>" and "cluster_ready ''b'' (new_term (demo_request ''b'')) cl'"
    and "demo_election bump_advancing ''b'' cl' = (Elected 1 2 2, cl'')"
proof -
  obtain cl' where 1: "demo_election bump_advancing ''a'' (demo_cluster lost_to_b) = (Elected 1 2 2, cl')"
      and cl': "cl_store cl' ''a'' = demo_store\<lparr>store_vote := \<lparr>lv_term = 1, lv_voted_for = None\<rparr>\<rparr>" "cl_net cl' = []" "cl_env cl' = []" "cl_clock cl' = []"
        "cl_store cl' ''b'' = demo_store"
    by (auto simp: demo_election_defs Let_def)
  moreover obtain cl'' where "demo_election bump_advancing ''b'' cl' = (Elected 1 2 2, cl'')"
    using cl' by (auto simp: demo_election_defs Let_def)
  moreover have "cluster_ready ''b'' (new_term (demo_request ''b'')) cl'" using cl'(3,5) by (simp add: cluster_ready_def demo_election_defs)
  ultimately show thesis using that by blast
qed

theorem self_vote_not_recorded_witness:
  "\<exists>cl'. demo_election bump_advancing ''a'' (demo_cluster lost_to_b) = (Elected 1 2 2, cl') \<and>
    fst (voter_consider (vote_real ''b'' 1 5) 3 (cl_store cl' ''a'')) = Inr Granted"
proof -
  obtain cl' where run: "demo_election bump_advancing ''a'' (demo_cluster lost_to_b) = (Elected 1 2 2, cl')" by (rule two_elected_in_one_term)
  have "fst (voter_consider (vote_real ''b'' 1 5) 3 (cl_store cl' ''a'')) = Inr Granted"
    by (rule self_vote_not_recorded [OF run demo_hyps(2,3)]) (simp_all add: demo_cluster_def demo_store_def)
  with run show ?thesis by blast
qed

end
