(* ===== verification/Logical_Wal.thy ===== *)
theory Logical_Wal
  imports Byte_Codec
begin

section \<open>The logical log file\<close>

text \<open>
  \<open>src/crates/reddb-file/src/logical_wal.rs\<close>: the frames of the replication spool in its three versions, the readers with and
  without repair, the sparse seek index and the rewrite of a pruned log. A file is its bytes and a reader's
  cursor the bytes still ahead; reads that fail for another reason than the end of the file are left out.
  The checksum is an argument: the hasher's successive updates are the checksum of the concatenation.
\<close>

definition logical_wal_magic :: bytes where
  "logical_wal_magic = [0x52, 0x44, 0x4C, 0x57]"

definition logical_wal_v1 :: byte where
  "logical_wal_v1 = 1"

definition logical_wal_v2 :: byte where
  "logical_wal_v2 = 2"

definition logical_wal_v3 :: byte where
  "logical_wal_v3 = 3"

definition seek_index_interval :: nat where
  "seek_index_interval = 64"

definition max_plausible_payload :: nat where
  "max_plausible_payload = 256 * 1024 * 1024"

record logical_wal_entry =
  lw_term :: u64
  lw_ownership_epoch :: "u64 option"
  lw_lsn :: u64
  lw_timestamp_ms :: u64
  lw_data :: bytes
  lw_version :: byte

text \<open>The two refusals of an encoder, and why a frame is not read; the messages' offsets are left out.\<close>

datatype logical_encode_error = PayloadExceedsFraming nat

datatype frame_error = Torn string | ImplausiblePayloadLen nat | CrcMismatch u32 u32

type_synonym 'a frame_reader = "(bytes, frame_error, 'a) reader"

subsection \<open>Encoding\<close>

definition compute_logical_v2_crc :: "(bytes \<Rightarrow> u32) \<Rightarrow> byte \<Rightarrow> u64 \<Rightarrow> u64 \<Rightarrow> bytes \<Rightarrow> u32" where
  "compute_logical_v2_crc crc version lsn timestamp_ms payload =
     crc ([version] @ u64_le lsn @ u64_le timestamp_ms @ u32_le (word_of_nat (length payload)) @ payload)"

definition compute_logical_v3_crc :: "(bytes \<Rightarrow> u32) \<Rightarrow> byte \<Rightarrow> u64 \<Rightarrow> u64 option \<Rightarrow> u64 \<Rightarrow> u64 \<Rightarrow> bytes \<Rightarrow> u32" where
  "compute_logical_v3_crc crc version trm epoch lsn timestamp_ms payload =
     crc ([version] @ u64_le trm @ u64_le (case epoch of Some e \<Rightarrow> e | None \<Rightarrow> 0) @ u64_le lsn @ u64_le timestamp_ms @
          u32_le (word_of_nat (length payload)) @ payload)"

definition encode_logical_wal_v3 ::
  "(bytes \<Rightarrow> u32) \<Rightarrow> u64 \<Rightarrow> u64 option \<Rightarrow> u64 \<Rightarrow> u64 \<Rightarrow> bytes \<Rightarrow> logical_encode_error + bytes" where
  "encode_logical_wal_v3 crc trm epoch lsn timestamp_ms data =
     (if length data > u32_max then Inl (PayloadExceedsFraming (length data))
      else Inr (logical_wal_magic @ [logical_wal_v3] @ u64_le trm @ u64_le (case epoch of Some e \<Rightarrow> e | None \<Rightarrow> 0) @
        u64_le lsn @ u64_le timestamp_ms @ u32_le (word_of_nat (length data)) @ data @
        u32_le (compute_logical_v3_crc crc logical_wal_v3 trm epoch lsn timestamp_ms data)))"

definition encode_logical_wal_v2_for_compat ::
  "(bytes \<Rightarrow> u32) \<Rightarrow> u64 \<Rightarrow> u64 \<Rightarrow> bytes \<Rightarrow> logical_encode_error + bytes" where
  "encode_logical_wal_v2_for_compat crc lsn timestamp_ms data =
     (if length data > u32_max then Inl (PayloadExceedsFraming (length data))
      else Inr (logical_wal_magic @ [logical_wal_v2] @ u64_le lsn @ u64_le timestamp_ms @ u32_le (word_of_nat (length data)) @
        data @ u32_le (compute_logical_v2_crc crc logical_wal_v2 lsn timestamp_ms data)))"

subsection \<open>Reading one frame\<close>

definition rd_exact :: "nat \<Rightarrow> string \<Rightarrow> bytes frame_reader" where
  "rd_exact n field s = (if length s < n then Inl (Torn field) else Inr (take n s, drop n s))"

definition rd_u64 :: "string \<Rightarrow> u64 frame_reader" where
  "rd_u64 field = rd_bind (rd_exact 8 field) (\<lambda>bs. rd_return (u64_of_le bs))"

definition rd_u32 :: "string \<Rightarrow> u32 frame_reader" where
  "rd_u32 field = rd_bind (rd_exact 4 field) (\<lambda>bs. rd_return (u32_of_le bs))"

definition rd_payload :: "nat \<Rightarrow> bytes frame_reader" where
  "rd_payload payload_len =
     (if payload_len > max_plausible_payload then rd_fail (ImplausiblePayloadLen payload_len) else rd_exact payload_len ''payload'')"

definition read_one_v3 :: "(bytes \<Rightarrow> u32) \<Rightarrow> logical_wal_entry frame_reader" where
  "read_one_v3 crc =
     rd_bind (rd_u64 ''term'') (\<lambda>trm.
     rd_bind (rd_u64 ''ownership epoch'') (\<lambda>epoch.
     rd_bind (rd_u64 ''lsn'') (\<lambda>lsn.
     rd_bind (rd_u64 ''timestamp'') (\<lambda>timestamp_ms.
     rd_bind (rd_u32 ''payload length'') (\<lambda>payload_len.
     rd_bind (rd_payload (unat payload_len)) (\<lambda>payload.
     rd_bind (rd_u32 ''crc'') (\<lambda>stored_crc.
       let ownership_epoch = (if epoch = 0 then None else Some epoch);
           expected_crc = compute_logical_v3_crc crc logical_wal_v3 trm ownership_epoch lsn timestamp_ms payload in
       if stored_crc \<noteq> expected_crc then rd_fail (CrcMismatch stored_crc expected_crc)
       else rd_return \<lparr>lw_term = trm, lw_ownership_epoch = ownership_epoch, lw_lsn = lsn, lw_timestamp_ms = timestamp_ms,
                       lw_data = payload, lw_version = logical_wal_v3\<rparr>)))))))"

definition read_one_v2 :: "(bytes \<Rightarrow> u32) \<Rightarrow> logical_wal_entry frame_reader" where
  "read_one_v2 crc =
     rd_bind (rd_u64 ''lsn'') (\<lambda>lsn.
     rd_bind (rd_u64 ''timestamp'') (\<lambda>timestamp_ms.
     rd_bind (rd_u32 ''payload length'') (\<lambda>payload_len.
     rd_bind (rd_payload (unat payload_len)) (\<lambda>payload.
     rd_bind (rd_u32 ''crc'') (\<lambda>stored_crc.
       let expected_crc = compute_logical_v2_crc crc logical_wal_v2 lsn timestamp_ms payload in
       if stored_crc \<noteq> expected_crc then rd_fail (CrcMismatch stored_crc expected_crc)
       else rd_return \<lparr>lw_term = 0, lw_ownership_epoch = None, lw_lsn = lsn, lw_timestamp_ms = timestamp_ms,
                       lw_data = payload, lw_version = logical_wal_v2\<rparr>)))))"

definition read_one_v1 :: "logical_wal_entry frame_reader" where
  "read_one_v1 =
     rd_bind (rd_u64 ''v1 lsn'') (\<lambda>lsn.
     rd_bind (rd_u64 ''v1 payload length'') (\<lambda>payload_len.
     rd_bind (rd_payload (unat payload_len)) (\<lambda>payload.
       rd_return \<lparr>lw_term = 0, lw_ownership_epoch = None, lw_lsn = lsn, lw_timestamp_ms = 0,
                  lw_data = payload, lw_version = logical_wal_v1\<rparr>)))"

text \<open>The readers by version; \<open>None\<close> is a version no reader knows.\<close>

definition read_one :: "(bytes \<Rightarrow> u32) \<Rightarrow> byte \<Rightarrow> logical_wal_entry frame_reader option" where
  "read_one crc version =
     (if version = logical_wal_v3 then Some (read_one_v3 crc)
      else if version = logical_wal_v2 then Some (read_one_v2 crc)
      else if version = logical_wal_v1 then Some read_one_v1
      else None)"

definition read_logical_wal_frame :: "(bytes \<Rightarrow> u32) \<Rightarrow> bytes \<Rightarrow> (logical_wal_entry \<times> bytes) option" where
  "read_logical_wal_frame crc s =
     (if length s < 4 then None
      else if take 4 s \<noteq> logical_wal_magic then None
      else case drop 4 s of
          [] \<Rightarrow> None
        | version # s' \<Rightarrow>
            (case read_one crc version of
               None \<Rightarrow> None
             | Some p \<Rightarrow> (case p s' of Inl _ \<Rightarrow> None | Inr (entry, rest) \<Rightarrow> Some (entry, rest))))"

subsection \<open>What a reader consumes\<close>

text \<open>A reader is \<open>local\<close> when a successful read depends only on the bytes it consumes.\<close>

definition rd_local :: "'a frame_reader \<Rightarrow> bool" where
  "rd_local p \<longleftrightarrow> (\<forall>s v s'. p s = Inr (v, s') \<longrightarrow> (\<exists>bs. s = bs @ s' \<and> (\<forall>r. p (bs @ r) = Inr (v, r))))"

lemma rd_localE:
  assumes "rd_local p" and "p s = Inr (v, s')"
  obtains bs where "s = bs @ s'" and "\<And>r. p (bs @ r) = Inr (v, r)"
  using assms unfolding rd_local_def by blast

lemma rd_local_bind [intro!]:
  assumes "rd_local p" and "\<And>x. rd_local (f x)"
  shows "rd_local (rd_bind p f)"
  unfolding rd_local_def
proof (intro allI impI)
  fix s v s'
  assume "rd_bind p f s = Inr (v, s')"
  then obtain x t where p: "p s = Inr (x, t)" and f: "f x t = Inr (v, s')"
    by (auto simp: rd_bind_def split: sum.splits prod.splits)
  from rd_localE [OF assms(1) p] obtain bs where bs: "s = bs @ t" "\<And>r. p (bs @ r) = Inr (x, r)" by blast
  from rd_localE [OF assms(2) f] obtain cs where cs: "t = cs @ s'" "\<And>r. f x (cs @ r) = Inr (v, r)" by blast
  show "\<exists>bs. s = bs @ s' \<and> (\<forall>r. rd_bind p f (bs @ r) = Inr (v, r))"
    using bs cs by (intro exI [of _ "bs @ cs"]) (simp add: rd_bind_def)
qed

lemma rd_local_exact [intro!]: "rd_local (rd_exact n field)"
  unfolding rd_local_def
proof (intro allI impI)
  fix s v s'
  assume "rd_exact n field s = Inr (v, s')"
  then have "n \<le> length s" and v: "v = take n s" and s': "s' = drop n s"
    by (auto simp: rd_exact_def split: if_splits)
  then show "\<exists>bs. s = bs @ s' \<and> (\<forall>r. rd_exact n field (bs @ r) = Inr (v, r))"
    by (intro exI [of _ "take n s"]) (simp add: rd_exact_def min_absorb2)
qed

lemma rd_local_basic [intro!]: "rd_local (rd_return x)" "rd_local (rd_fail e)"
  by (simp_all add: rd_local_def rd_return_def rd_fail_def)

lemma rd_local_readers [intro!]:
  "rd_local (rd_u64 field)" "rd_local (rd_u32 field)" "rd_local (rd_payload n)"
  "rd_local (read_one_v3 crc)" "rd_local (read_one_v2 crc)" "rd_local read_one_v1"
  by (auto simp: rd_u64_def rd_u32_def rd_payload_def read_one_v3_def read_one_v2_def read_one_v1_def Let_def)

lemma read_one_local: "read_one crc version = Some p \<Longrightarrow> rd_local p"
  by (auto simp: read_one_def split: if_splits)

text \<open>A frame: bytes that are read as the entry whatever follows, and of which no proper prefix is read.\<close>

definition frame_ok :: "(bytes \<Rightarrow> u32) \<Rightarrow> bytes \<Rightarrow> logical_wal_entry \<Rightarrow> bool" where
  "frame_ok crc bs e \<longleftrightarrow> 4 < length bs \<and> (\<forall>rest. read_logical_wal_frame crc (bs @ rest) = Some (e, rest))"

lemma frame_okD: "frame_ok crc bs e \<Longrightarrow> read_logical_wal_frame crc (bs @ rest) = Some (e, rest)"
  by (simp add: frame_ok_def)

lemma read_frame_ok:
  assumes "read_logical_wal_frame crc s = Some (e, rest)"
  obtains bs where "s = bs @ rest" and "frame_ok crc bs e"
proof -
  obtain version s' p where d: "drop 4 s = version # s'" and p: "read_one crc version = Some p"
    and r: "p s' = Inr (e, rest)" and m: "take 4 s = logical_wal_magic"
    using assms by (auto simp: read_logical_wal_frame_def split: if_splits list.splits option.splits sum.splits)
  obtain bs where bs: "s' = bs @ rest" "\<And>r. p (bs @ r) = Inr (e, r)"
    by (rule rd_localE [OF read_one_local [OF p] r]) blast
  have s: "s = (logical_wal_magic @ version # bs) @ rest"
    using append_take_drop_id [of 4 s] by (simp add: d m bs(1))
  moreover have "frame_ok crc (logical_wal_magic @ version # bs) e"
    by (simp add: frame_ok_def read_logical_wal_frame_def logical_wal_magic_def p bs(2))
  ultimately show thesis by (rule that)
qed

lemma read_frame_shrinks: "read_logical_wal_frame crc s = Some (e, rest) \<Longrightarrow> length rest < length s"
  by (elim read_frame_ok) (auto simp: frame_ok_def)

lemma frame_prefix_torn:
  assumes "frame_ok crc (xs @ ys) e" and "ys \<noteq> []"
  shows "read_logical_wal_frame crc xs = None"
proof (rule ccontr)
  assume "read_logical_wal_frame crc xs \<noteq> None"
  then obtain e' rest where "read_logical_wal_frame crc xs = Some (e', rest)" by auto
  then obtain bs where xs: "xs = bs @ rest" and bs: "frame_ok crc bs e'" by (rule read_frame_ok)
  have "read_logical_wal_frame crc (xs @ ys) = Some (e', rest @ ys)" using frame_okD [OF bs, of "rest @ ys"] xs by simp
  moreover have "read_logical_wal_frame crc (xs @ ys) = Some (e, [])" using frame_okD [OF assms(1), of "[]"] by simp
  ultimately show False using assms(2) by simp
qed

subsection \<open>Reading a file\<close>

function read_entries :: "(bytes \<Rightarrow> u32) \<Rightarrow> bytes \<Rightarrow> logical_wal_entry list" where
  "read_entries crc s =
     (case read_logical_wal_frame crc s of None \<Rightarrow> [] | Some (entry, rest) \<Rightarrow> entry # read_entries crc rest)"
  by pat_completeness auto
termination
  by (relation "measure (\<lambda>(_, s). length s)") (auto dest: read_frame_shrinks)

definition read_logical_wal_entries_from :: "(bytes \<Rightarrow> u32) \<Rightarrow> bytes \<Rightarrow> nat \<Rightarrow> logical_wal_entry list" where
  "read_logical_wal_entries_from crc file_bytes start_offset = read_entries crc (drop start_offset file_bytes)"

text \<open>The repairing loop: the entries, the offset behind the last good one, and whether it stopped at damage.\<close>

function repair_loop :: "(bytes \<Rightarrow> u32) \<Rightarrow> nat \<Rightarrow> bytes \<Rightarrow> logical_wal_entry list \<times> nat \<times> bool" where
  "repair_loop crc last_good_offset s =
     (if length s < 4 then ([], last_good_offset, False)
      else if take 4 s \<noteq> logical_wal_magic then ([], last_good_offset, True)
      else case read_logical_wal_frame crc s of
          None \<Rightarrow> ([], last_good_offset, True)
        | Some (entry, rest) \<Rightarrow>
            (let (entries, good, corrupt) = repair_loop crc (last_good_offset + (length s - length rest)) rest
             in (entry # entries, good, corrupt)))"
  by pat_completeness auto
termination
  by (relation "measure (\<lambda>(_, _, s). length s)") (auto dest: read_frame_shrinks)

definition read_and_repair_logical_wal_entries :: "(bytes \<Rightarrow> u32) \<Rightarrow> bytes \<Rightarrow> logical_wal_entry list \<times> bytes" where
  "read_and_repair_logical_wal_entries crc file_bytes =
     (let (entries, good, corrupt) = repair_loop crc 0 file_bytes in
      (entries, if corrupt \<and> good < length file_bytes then take good file_bytes else file_bytes))"

definition note_record :: "nat \<Rightarrow> u64 \<Rightarrow> nat \<Rightarrow> (u64 \<times> nat) list \<Rightarrow> (u64 \<times> nat) list" where
  "note_record ordinal lsn offset index =
     (if ordinal mod seek_index_interval = 0
      then (if index \<noteq> [] \<and> fst (last index) = lsn then index else index @ [(lsn, offset)])
      else index)"

function seek_index_loop ::
  "(bytes \<Rightarrow> u32) \<Rightarrow> (u64 \<times> nat) list \<Rightarrow> nat \<Rightarrow> nat \<Rightarrow> bytes \<Rightarrow> (u64 \<times> nat) list \<times> nat \<times> nat" where
  "seek_index_loop crc index write_offset ordinal s =
     (case read_logical_wal_frame crc s of
        None \<Rightarrow> (index, write_offset, ordinal)
      | Some (entry, rest) \<Rightarrow>
          seek_index_loop crc (note_record ordinal (lw_lsn entry) write_offset index)
            (write_offset + (length s - length rest)) (ordinal + 1) rest)"
  by pat_completeness auto
termination
  by (relation "measure (\<lambda>(_, _, _, _, s). length s)") (auto dest: read_frame_shrinks)

declare read_entries.simps [simp del] repair_loop.simps [simp del] seek_index_loop.simps [simp del]

definition build_logical_wal_seek_index :: "(bytes \<Rightarrow> u32) \<Rightarrow> bytes \<Rightarrow> (u64 \<times> nat) list \<times> nat \<times> nat" where
  "build_logical_wal_seek_index crc file_bytes = seek_index_loop crc [] 0 0 file_bytes"

text \<open>The rewrite goes to a temporary file that replaces the log at the end: a failure leaves the log.\<close>

fun rewrite_loop :: "(bytes \<Rightarrow> u32) \<Rightarrow> u64 \<Rightarrow> bytes \<Rightarrow> logical_wal_entry list \<Rightarrow> logical_encode_error + (u64 \<times> bytes)" where
  "rewrite_loop crc current_lsn temp [] = Inr (current_lsn, temp)"
| "rewrite_loop crc current_lsn temp (entry # entries) =
     and_then (encode_logical_wal_v3 crc (lw_term entry) (lw_ownership_epoch entry) (lw_lsn entry) (lw_timestamp_ms entry) (lw_data entry))
       (\<lambda>frame. rewrite_loop crc (max current_lsn (lw_lsn entry)) (temp @ frame) entries)"

definition rewrite_logical_wal_entries :: "(bytes \<Rightarrow> u32) \<Rightarrow> logical_wal_entry list \<Rightarrow> logical_encode_error + (u64 \<times> bytes)" where
  "rewrite_logical_wal_entries crc entries = rewrite_loop crc 0 [] entries"

subsection \<open>Files as sequences of frames\<close>

type_synonym frames = "(bytes \<times> logical_wal_entry) list"

definition file_of :: "frames \<Rightarrow> bytes" where
  "file_of fs = concat (map fst fs)"

definition frames_ok :: "(bytes \<Rightarrow> u32) \<Rightarrow> frames \<Rightarrow> bool" where
  "frames_ok crc fs \<longleftrightarrow> (\<forall>(bs, e) \<in> set fs. frame_ok crc bs e)"

lemma file_of_simps [simp]: "file_of [] = []" "file_of ((bs, e) # fs) = bs @ file_of fs" "file_of (fs @ gs) = file_of fs @ file_of gs"
  by (simp_all add: file_of_def)

lemma frames_ok_simps [simp]:
  "frames_ok crc []" "frames_ok crc ((bs, e) # fs) \<longleftrightarrow> frame_ok crc bs e \<and> frames_ok crc fs"
  "frames_ok crc (fs @ gs) \<longleftrightarrow> frames_ok crc fs \<and> frames_ok crc gs"
  by (auto simp: frames_ok_def)

lemma frames_ok_filter: "frames_ok crc fs \<Longrightarrow> frames_ok crc (filter P fs)"
  by (auto simp: frames_ok_def)

text \<open>Every file is a sequence of frames and a rest that is not read.\<close>

lemma file_split:
  obtains fs junk where "s = file_of fs @ junk" and "frames_ok crc fs" and "read_logical_wal_frame crc junk = None"
proof -
  have "\<exists>fs junk. s = file_of fs @ junk \<and> frames_ok crc fs \<and> read_logical_wal_frame crc junk = None"
  proof (induction s rule: measure_induct_rule [of length])
    case (less s)
    show ?case
    proof (cases "read_logical_wal_frame crc s")
      case None
      then show ?thesis by (intro exI [of _ "[]"] exI [of _ s]) simp
    next
      case (Some q)
      then obtain e rest where q: "read_logical_wal_frame crc s = Some (e, rest)" by (cases q) auto
      obtain bs where bs: "s = bs @ rest" "frame_ok crc bs e" by (rule read_frame_ok [OF q])
      obtain fs junk where "rest = file_of fs @ junk" "frames_ok crc fs" "read_logical_wal_frame crc junk = None"
        using less [OF read_frame_shrinks [OF q]] by blast
      with bs show ?thesis by (intro exI [of _ "(bs, e) # fs"] exI [of _ junk]) simp
    qed
  qed
  with that show thesis by blast
qed

lemma read_frame_Nil [simp]: "read_logical_wal_frame crc [] = None"
  by (simp add: read_logical_wal_frame_def)

lemma read_entries_frames:
  "frames_ok crc fs \<Longrightarrow> read_entries crc (file_of fs @ s) = map snd fs @ read_entries crc s"
proof (induction fs)
  case (Cons f fs)
  obtain bs e where f: "f = (bs, e)" by (cases f)
  with Cons.prems have ok: "frame_ok crc bs e" by simp
  from Cons f show ?case by (subst read_entries.simps) (simp add: frame_okD [OF ok])
qed simp

lemma read_entries_tail: "read_logical_wal_frame crc junk = None \<Longrightarrow> read_entries crc junk = []"
  by (simp add: read_entries.simps)

lemma read_entries_file:
  "frames_ok crc fs \<Longrightarrow> read_logical_wal_frame crc junk = None \<Longrightarrow> read_entries crc (file_of fs @ junk) = map snd fs"
  by (simp add: read_entries_frames read_entries_tail)

lemma frame_ok_head: "frame_ok crc bs e \<Longrightarrow> 4 \<le> length bs \<and> take 4 bs = logical_wal_magic"
proof -
  assume ok: "frame_ok crc bs e"
  then show ?thesis using frame_okD [OF ok, of "[]"] by (simp add: frame_ok_def read_logical_wal_frame_def split: if_splits)
qed

lemma repair_loop_frames:
  "frames_ok crc fs \<Longrightarrow> read_logical_wal_frame crc junk = None \<Longrightarrow>
   repair_loop crc good (file_of fs @ junk) = (map snd fs, good + length (file_of fs), 4 \<le> length junk)"
proof (induction fs arbitrary: good)
  case Nil
  then show ?case by (simp add: repair_loop.simps)
next
  case (Cons f fs)
  obtain bs e where f: "f = (bs, e)" by (cases f)
  with Cons.prems have ok: "frame_ok crc bs e" by simp
  with frame_ok_head [OF ok] have "\<not> length (bs @ file_of fs @ junk) < 4" "take 4 (bs @ file_of fs @ junk) = logical_wal_magic" by auto
  with Cons f show ?case by (subst repair_loop.simps) (simp add: frame_okD [OF ok])
qed

text \<open>
  Repair returns the entries of the readable prefix. It cuts the rest off, unless the rest is shorter than
  the magic number: then it stays in the file.
\<close>

lemma repair_file:
  assumes "frames_ok crc fs" and "read_logical_wal_frame crc junk = None"
  shows "read_and_repair_logical_wal_entries crc (file_of fs @ junk) =
    (map snd fs, if length junk < 4 then file_of fs @ junk else file_of fs)"
  by (auto simp: read_and_repair_logical_wal_entries_def repair_loop_frames [OF assms])

subsection \<open>The seek index of a sequence of frames\<close>

fun index_frames :: "(u64 \<times> nat) list \<Rightarrow> nat \<Rightarrow> nat \<Rightarrow> frames \<Rightarrow> (u64 \<times> nat) list" where
  "index_frames index offset ordinal [] = index"
| "index_frames index offset ordinal ((bs, e) # fs) =
     index_frames (note_record ordinal (lw_lsn e) offset index) (offset + length bs) (ordinal + 1) fs"

lemma index_frames_append:
  "index_frames index offset ordinal (fs @ gs) =
     index_frames (index_frames index offset ordinal fs) (offset + length (file_of fs)) (ordinal + length fs) gs"
  by (induction index offset ordinal fs rule: index_frames.induct) (simp_all add: add.assoc)

lemma seek_index_loop_frames:
  "frames_ok crc fs \<Longrightarrow> read_logical_wal_frame crc junk = None \<Longrightarrow>
   seek_index_loop crc index offset ordinal (file_of fs @ junk) =
     (index_frames index offset ordinal fs, offset + length (file_of fs), ordinal + length fs)"
proof (induction fs arbitrary: index offset ordinal)
  case Nil
  then show ?case by (simp add: seek_index_loop.simps)
next
  case (Cons f fs)
  obtain bs e where f: "f = (bs, e)" by (cases f)
  with Cons.prems have ok: "frame_ok crc bs e" by simp
  from Cons f show ?case by (subst seek_index_loop.simps) (simp add: frame_okD [OF ok])
qed

lemma build_seek_index_file:
  "frames_ok crc fs \<Longrightarrow> read_logical_wal_frame crc junk = None \<Longrightarrow>
   build_logical_wal_seek_index crc (file_of fs @ junk) = (index_frames [] 0 0 fs, length (file_of fs), length fs)"
  by (simp add: build_logical_wal_seek_index_def seek_index_loop_frames)

text \<open>Every checkpoint is the start of a frame with its number; in an ascending log the checkpoints ascend.\<close>

definition checkpoint_of :: "frames \<Rightarrow> u64 \<times> nat \<Rightarrow> bool" where
  "checkpoint_of fs c \<longleftrightarrow> (\<exists>us bs e vs. fs = us @ (bs, e) # vs \<and> fst c = lw_lsn e \<and> snd c = length (file_of us))"

definition ascending :: "frames \<Rightarrow> bool" where
  "ascending fs \<longleftrightarrow> sorted_wrt (<) (map (lw_lsn \<circ> snd) fs)"

lemma checkpoint_mono: "checkpoint_of fs c \<Longrightarrow> checkpoint_of (fs @ gs) c"
  by (auto simp: checkpoint_of_def) (metis append_Cons append_assoc)

lemma note_record_checkpoint:
  assumes "\<forall>c \<in> set index. checkpoint_of fs c" and "sorted_wrt (<) (map fst index)" and "ascending (fs @ [(bs, e)])"
    and index': "index' = note_record ordinal (lw_lsn e) (length (file_of fs)) index"
  shows "(\<forall>c \<in> set index'. checkpoint_of (fs @ [(bs, e)]) c) \<and> sorted_wrt (<) (map fst index')"
proof -
  have "checkpoint_of (fs @ [(bs, e)]) (lw_lsn e, length (file_of fs))"
    unfolding checkpoint_of_def by (intro exI [of _ fs] exI [of _ bs] exI [of _ e] exI [of _ "[]"]) simp
  moreover have "fst c < lw_lsn e" if c: "c \<in> set index" for c
  proof -
    obtain us b' e' vs where "fs = us @ (b', e') # vs" "fst c = lw_lsn e'" using assms(1) c by (fastforce simp: checkpoint_of_def)
    with assms(3) show ?thesis by (auto simp: ascending_def sorted_wrt_append)
  qed
  ultimately show ?thesis
    using assms(1,2) checkpoint_mono by (auto simp: index' note_record_def sorted_wrt_append)
qed

lemma index_frames_sound:
  "ascending fs \<Longrightarrow> (\<forall>c \<in> set (index_frames [] 0 0 fs). checkpoint_of fs c) \<and> sorted_wrt (<) (map fst (index_frames [] 0 0 fs))"
proof (induction fs rule: rev_induct)
  case (snoc f fs)
  obtain bs e where f: "f = (bs, e)" by (cases f)
  have "ascending fs" using snoc.prems by (simp add: ascending_def sorted_wrt_append)
  note IH = snoc.IH [OF this]
  from note_record_checkpoint [OF conjunct1 [OF IH] conjunct2 [OF IH] snoc.prems [unfolded f] refl, of "length fs"]
  show ?case by (simp add: f index_frames_append)
qed simp

subsection \<open>Frames the encoder writes\<close>

text \<open>The entry a written frame is read as: an ownership epoch of 0 is no epoch.\<close>

definition v3_entry :: "u64 \<Rightarrow> u64 option \<Rightarrow> u64 \<Rightarrow> u64 \<Rightarrow> bytes \<Rightarrow> logical_wal_entry" where
  "v3_entry trm epoch lsn timestamp_ms data =
     \<lparr>lw_term = trm, lw_ownership_epoch = (if epoch = Some 0 then None else epoch), lw_lsn = lsn,
      lw_timestamp_ms = timestamp_ms, lw_data = data, lw_version = logical_wal_v3\<rparr>"

lemma v3_entry_simps [simp]:
  "lw_term (v3_entry t ep l ts d) = t" "lw_lsn (v3_entry t ep l ts d) = l" "lw_data (v3_entry t ep l ts d) = d"
  "lw_timestamp_ms (v3_entry t ep l ts d) = ts" "lw_ownership_epoch (v3_entry t ep l ts d) = (if ep = Some 0 then None else ep)"
  by (simp_all add: v3_entry_def)

lemma rd_le [simp]: "rd_u64 f (u64_le x @ rest) = Inr (x, rest)" "rd_u32 f (u32_le y @ rest) = Inr (y, rest)"
  by (simp_all add: rd_u64_def rd_u32_def rd_bind_def rd_exact_def rd_return_def)

lemma rd_payload_append: "length d \<le> max_plausible_payload \<Longrightarrow> rd_payload (length d) (d @ rest) = Inr (d, rest)"
  by (simp add: rd_payload_def rd_exact_def)

lemma plausible_u32: "n \<le> max_plausible_payload \<Longrightarrow> n \<le> u32_max"
  by (simp add: max_plausible_payload_def u32_max_def)

lemma v3_epoch_bytes:
  "(case (if ep = Some 0 then None else ep) of Some e \<Rightarrow> e | None \<Rightarrow> 0) = (case ep of Some e \<Rightarrow> e | None \<Rightarrow> (0 :: u64))"
  by (auto split: option.split)

lemma read_v3_encoded:
  assumes "length d \<le> max_plausible_payload"
  shows "read_one_v3 crc (u64_le t @ u64_le (case ep of Some e \<Rightarrow> e | None \<Rightarrow> 0) @ u64_le l @ u64_le ts @
     u32_le (word_of_nat (length d)) @ d @ u32_le (compute_logical_v3_crc crc logical_wal_v3 t ep l ts d) @ rest) =
   Inr (v3_entry t ep l ts d, rest)"
proof -
  have "(if (case ep of Some e \<Rightarrow> e | None \<Rightarrow> 0) = 0 then None else Some (case ep of Some e \<Rightarrow> e | None \<Rightarrow> 0)) =
      (if ep = Some 0 then None else ep)"
    by (auto split: option.split)
  then show ?thesis
    using assms
    by (simp add: read_one_v3_def rd_bind_def rd_payload_append plausible_u32 Let_def compute_logical_v3_crc_def
        v3_epoch_bytes rd_return_def v3_entry_def)
qed

lemma encode_v3_frame:
  assumes "encode_logical_wal_v3 crc t ep l ts d = Inr bs" and "length d \<le> max_plausible_payload"
  shows "frame_ok crc bs (v3_entry t ep l ts d)"
proof -
  have bs: "bs = logical_wal_magic @ [logical_wal_v3] @ u64_le t @ u64_le (case ep of Some e \<Rightarrow> e | None \<Rightarrow> 0) @ u64_le l @ u64_le ts @
      u32_le (word_of_nat (length d)) @ d @ u32_le (compute_logical_v3_crc crc logical_wal_v3 t ep l ts d)"
    using assms(1) by (simp add: encode_logical_wal_v3_def split: if_splits)
  show ?thesis
    unfolding frame_ok_def bs using read_v3_encoded [OF assms(2), of crc t ep l ts]
    by (simp add: read_logical_wal_frame_def logical_wal_magic_def read_one_def)
qed

text \<open>What a reader accepts can be written again.\<close>

definition entry_ok :: "logical_wal_entry \<Rightarrow> bool" where
  "entry_ok e \<longleftrightarrow> length (lw_data e) \<le> max_plausible_payload \<and> lw_ownership_epoch e \<noteq> Some 0"

lemma rd_payload_length: "rd_payload n s = Inr (d, s') \<Longrightarrow> length d \<le> max_plausible_payload"
  by (auto simp: rd_payload_def rd_fail_def rd_exact_def split: if_splits)

lemma rd_bind_Inr: "rd_bind p f s = Inr r \<longleftrightarrow> (\<exists>x s'. p s = Inr (x, s') \<and> f x s' = Inr r)"
  by (auto simp: rd_bind_def split: sum.splits prod.splits)

lemma read_one_entry_ok:
  "read_one_v3 crc s = Inr (e, s') \<Longrightarrow> entry_ok e"
  "read_one_v2 crc s = Inr (e, s') \<Longrightarrow> entry_ok e"
  "read_one_v1 s = Inr (e, s') \<Longrightarrow> entry_ok e"
  by (auto simp: read_one_v3_def read_one_v2_def read_one_v1_def rd_bind_Inr Let_def rd_fail_def rd_return_def entry_ok_def
      dest: rd_payload_length split: if_splits)

lemma frame_entry_ok: "frame_ok crc bs e \<Longrightarrow> entry_ok e"
  using frame_okD [of crc bs e "[]"] read_one_entry_ok
  by (auto simp: read_logical_wal_frame_def read_one_def split: if_splits list.splits option.splits sum.splits)

text \<open>A payload above the reader's limit is written and never read.\<close>

lemma oversized_frame_not_read:
  assumes "encode_logical_wal_v3 crc t ep l ts d = Inr bs" and "max_plausible_payload < length d"
  shows "read_logical_wal_frame crc (bs @ rest) = None"
proof -
  have len: "length d \<le> u32_max" and bs: "bs = logical_wal_magic @ [logical_wal_v3] @ u64_le t @
      u64_le (case ep of Some e \<Rightarrow> e | None \<Rightarrow> 0) @ u64_le l @ u64_le ts @ u32_le (word_of_nat (length d)) @ d @
      u32_le (compute_logical_v3_crc crc logical_wal_v3 t ep l ts d)"
    using assms(1) by (simp_all add: encode_logical_wal_v3_def split: if_splits)
  have "rd_payload (length d) s = Inl (ImplausiblePayloadLen (length d))" for s
    using assms(2) by (simp add: rd_payload_def rd_fail_def)
  with len show ?thesis
    by (simp add: bs read_logical_wal_frame_def logical_wal_magic_def read_one_def read_one_v3_def rd_bind_def)
qed

definition rewrite_frame :: "(bytes \<Rightarrow> u32) \<Rightarrow> logical_wal_entry \<Rightarrow> bytes" where
  "rewrite_frame crc e =
     (case encode_logical_wal_v3 crc (lw_term e) (lw_ownership_epoch e) (lw_lsn e) (lw_timestamp_ms e) (lw_data e) of
        Inr bs \<Rightarrow> bs | Inl _ \<Rightarrow> [])"

lemma entry_ok_encodes:
  "entry_ok e \<Longrightarrow>
   encode_logical_wal_v3 crc (lw_term e) (lw_ownership_epoch e) (lw_lsn e) (lw_timestamp_ms e) (lw_data e) = Inr (rewrite_frame crc e)"
  by (simp add: entry_ok_def rewrite_frame_def encode_logical_wal_v3_def plausible_u32 linorder_not_less)

lemma rewrite_frame_ok:
  assumes "entry_ok e"
  shows "frame_ok crc (rewrite_frame crc e) (e\<lparr>lw_version := logical_wal_v3\<rparr>)"
  using encode_v3_frame [OF entry_ok_encodes [OF assms]] assms by (cases e) (simp add: entry_ok_def v3_entry_def)

definition rewritten :: "(bytes \<Rightarrow> u32) \<Rightarrow> logical_wal_entry list \<Rightarrow> frames" where
  "rewritten crc es = map (\<lambda>e. (rewrite_frame crc e, e\<lparr>lw_version := logical_wal_v3\<rparr>)) es"

lemma rewrite_loop_ok:
  "\<forall>e \<in> set es. entry_ok e \<Longrightarrow>
   rewrite_loop crc cur temp es = Inr (fold (\<lambda>e c. max c (lw_lsn e)) es cur, temp @ file_of (rewritten crc es))"
  by (induction es arbitrary: cur temp) (simp_all add: entry_ok_encodes rewritten_def)

lemma rewrite_ok:
  assumes "\<forall>e \<in> set es. entry_ok e"
  shows "rewrite_logical_wal_entries crc es = Inr (fold (\<lambda>e c. max c (lw_lsn e)) es 0, file_of (rewritten crc es))"
    and "frames_ok crc (rewritten crc es)"
  using assms rewrite_frame_ok by (auto simp: rewrite_logical_wal_entries_def rewrite_loop_ok frames_ok_def rewritten_def)

lemma fold_max_start: "c \<le> fold (\<lambda>e c. max c (f e)) es (c :: u64)"
proof (induction es arbitrary: c)
  case (Cons a es)
  have "c \<le> max c (f a)" by simp
  also note Cons.IH [of "max c (f a)"]
  finally show ?case by simp
qed simp

lemma fold_max_ge: "e \<in> set es \<Longrightarrow> f e \<le> fold (\<lambda>e c. max c (f e)) es (c :: u64)"
proof (induction es arbitrary: c)
  case (Cons a es)
  show ?case
  proof (cases "e = a")
    case True
    have "f a \<le> max c (f a)" by simp
    also note fold_max_start [of "max c (f a)" f es]
    finally show ?thesis using True by simp
  next
    case False
    with Cons show ?thesis by simp
  qed
qed simp

end
