(* ===== verification/Wal_Spool.thy ===== *)
theory Wal_Spool
  imports Logical_Wal
begin

section \<open>The logical log of a primary\<close>

text \<open>
  The first part of \<open>src/crates/reddb-server/src/replication/primary.rs\<close>: the in-memory buffer of log records and the durable
  spool beside the database file, with its seek index. The codec of change records, a JSON format, is an
  argument in two pieces: \<open>authority\<close>, the term and the ownership epoch of the record a payload decodes to,
  and \<open>restamp\<close>, the encoding of that record with both replaced. File offsets are natural numbers.
  The locale \<open>wal_source\<close> is what the rest of the primary relies on; buffer and spool are instances.
\<close>

definition default_replication_term :: u64 where
  "default_replication_term = 1"

subsection \<open>The buffer\<close>

record wal_buffer =
  wb_records :: "(u64 \<times> bytes) list"
  wb_current_lsn :: u64

definition wal_buffer_new :: wal_buffer where
  "wal_buffer_new = \<lparr>wb_records = [], wb_current_lsn = 0\<rparr>"

definition buffer_append :: "u64 \<Rightarrow> bytes \<Rightarrow> wal_buffer \<Rightarrow> wal_buffer" where
  "buffer_append lsn data b = b\<lparr>wb_records := wb_records b @ [(lsn, data)], wb_current_lsn := max (wb_current_lsn b) lsn\<rparr>"

definition read_since_shared :: "u64 \<Rightarrow> nat \<Rightarrow> wal_buffer \<Rightarrow> (u64 \<times> bytes) list" where
  "read_since_shared since_lsn max_count b = take max_count (filter (\<lambda>(lsn, _). lsn > since_lsn) (wb_records b))"

definition set_current_lsn :: "u64 \<Rightarrow> wal_buffer \<Rightarrow> wal_buffer" where
  "set_current_lsn lsn b = b\<lparr>wb_current_lsn := max (wb_current_lsn b) lsn\<rparr>"

definition buffer_prune_through :: "u64 \<Rightarrow> wal_buffer \<Rightarrow> wal_buffer" where
  "buffer_prune_through upto_lsn b = b\<lparr>wb_records := dropWhile (\<lambda>(lsn, _). lsn \<le> upto_lsn) (wb_records b)\<rparr>"

definition buffer_oldest_lsn :: "wal_buffer \<Rightarrow> u64 option" where
  "buffer_oldest_lsn b = (case wb_records b of [] \<Rightarrow> None | (lsn, _) # _ \<Rightarrow> Some lsn)"

subsection \<open>The spool\<close>

type_synonym authority_of = "bytes \<Rightarrow> (u64 \<times> u64 option) option"
type_synonym restamp_with = "u64 \<Rightarrow> u64 option \<Rightarrow> bytes \<Rightarrow> bytes"

definition term_from_payload :: "authority_of \<Rightarrow> bytes \<Rightarrow> u64" where
  "term_from_payload authority payload = (case authority payload of Some (trm, _) \<Rightarrow> trm | None \<Rightarrow> default_replication_term)"

definition authority_from_payload :: "authority_of \<Rightarrow> bytes \<Rightarrow> u64 \<times> u64 option" where
  "authority_from_payload authority payload =
     (case authority payload of Some a \<Rightarrow> a | None \<Rightarrow> (default_replication_term, None))"

definition logical_wal_entry_term :: "authority_of \<Rightarrow> logical_wal_entry \<Rightarrow> u64" where
  "logical_wal_entry_term authority e = (if lw_term e = 0 then term_from_payload authority (lw_data e) else lw_term e)"

definition logical_wal_data_with_framing_term :: "authority_of \<Rightarrow> restamp_with \<Rightarrow> logical_wal_entry \<Rightarrow> bytes" where
  "logical_wal_data_with_framing_term authority restamp e =
     (let trm = logical_wal_entry_term authority e in
      case authority (lw_data e) of
        Some (record_term, record_epoch) \<Rightarrow>
          if record_term \<noteq> trm \<or> record_epoch \<noteq> lw_ownership_epoch e
          then restamp trm (if lw_ownership_epoch e \<noteq> None then lw_ownership_epoch e else record_epoch) (lw_data e)
          else lw_data e
      | None \<Rightarrow> lw_data e)"

record logical_wal_spool =
  sp_file :: bytes
  sp_current_lsn :: u64
  sp_seek_index :: "(u64 \<times> nat) list"
  sp_write_offset :: nat
  sp_record_count :: nat

text \<open>
  \<open>binary_search_by\<close> of the standard library: halve the window, keeping the lower bound at the last probe
  that was not above the key. \<open>Inr\<close> is \<open>Ok\<close>, the index of the key; \<open>Inl\<close> is \<open>Err\<close>, the insertion point.
\<close>

function search_loop :: "(u64 \<times> nat) list \<Rightarrow> u64 \<Rightarrow> nat \<Rightarrow> nat \<Rightarrow> nat" where
  "search_loop index key base width =
     (if width \<le> 1 then base
      else (let half = width div 2; mid = base + half in
        search_loop index key (if fst (index ! mid) > key then base else mid) (width - half)))"
  by pat_completeness auto
termination
  by (relation "measure (\<lambda>(_, _, _, width). width)") auto

declare search_loop.simps [simp del]

definition binary_search :: "(u64 \<times> nat) list \<Rightarrow> u64 \<Rightarrow> nat + nat" where
  "binary_search index key =
     (if index = [] then Inl 0
      else (let base = search_loop index key 0 (length index); k = fst (index ! base) in
        if k = key then Inr base else if k < key then Inl (base + 1) else Inl base))"

definition seek_floor_offset :: "(u64 \<times> nat) list \<Rightarrow> u64 \<Rightarrow> nat" where
  "seek_floor_offset index since_lsn =
     (case binary_search index since_lsn of
        Inr i \<Rightarrow> snd (index ! i)
      | Inl i \<Rightarrow> if i = 0 then 0 else snd (index ! (i - 1)))"

definition spool_open :: "(bytes \<Rightarrow> u32) \<Rightarrow> bytes \<Rightarrow> logical_wal_spool" where
  "spool_open crc file_bytes =
     (let (entries, repaired) = read_and_repair_logical_wal_entries crc file_bytes;
          (index, write_offset, count) = build_logical_wal_seek_index crc repaired in
      \<lparr>sp_file = repaired, sp_current_lsn = (if entries = [] then 0 else lw_lsn (last entries)), sp_seek_index = index,
       sp_write_offset = write_offset, sp_record_count = count\<rparr>)"

text \<open>What the file system does with an append: all of it reaches the disk, a part is written, or the sync fails.\<close>

datatype write_outcome = WriteDone | WriteCut nat | SyncFailed

datatype spool_error = EncodeRefused logical_encode_error | SpoolIo

definition append_with_term_epoch_and_timestamp ::
  "(bytes \<Rightarrow> u32) \<Rightarrow> write_outcome \<Rightarrow> u64 \<Rightarrow> u64 option \<Rightarrow> u64 \<Rightarrow> u64 \<Rightarrow> bytes \<Rightarrow> logical_wal_spool \<Rightarrow>
   (spool_error + unit) \<times> logical_wal_spool" where
  "append_with_term_epoch_and_timestamp crc outcome trm epoch lsn timestamp_ms data sp =
     (case encode_logical_wal_v3 crc trm epoch lsn timestamp_ms data of
        Inl e \<Rightarrow> (Inl (EncodeRefused e), sp)
      | Inr frame \<Rightarrow>
          (case outcome of
             WriteCut n \<Rightarrow> (Inl SpoolIo, sp\<lparr>sp_file := sp_file sp @ take n frame\<rparr>)
           | SyncFailed \<Rightarrow> (Inl SpoolIo, sp\<lparr>sp_file := sp_file sp @ frame\<rparr>)
           | WriteDone \<Rightarrow>
               (Inr (), sp\<lparr>sp_file := sp_file sp @ frame, sp_current_lsn := max (sp_current_lsn sp) lsn,
                          sp_seek_index := note_record (sp_record_count sp) lsn (sp_write_offset sp) (sp_seek_index sp),
                          sp_write_offset := sp_write_offset sp + length frame, sp_record_count := sp_record_count sp + 1\<rparr>)))"

definition append_with_term_and_timestamp ::
  "(bytes \<Rightarrow> u32) \<Rightarrow> authority_of \<Rightarrow> write_outcome \<Rightarrow> u64 \<Rightarrow> u64 \<Rightarrow> u64 \<Rightarrow> bytes \<Rightarrow> logical_wal_spool \<Rightarrow>
   (spool_error + unit) \<times> logical_wal_spool" where
  "append_with_term_and_timestamp crc authority outcome trm lsn timestamp_ms data sp =
     append_with_term_epoch_and_timestamp crc outcome trm (snd (authority_from_payload authority data)) lsn timestamp_ms data sp"

definition append_with_timestamp ::
  "(bytes \<Rightarrow> u32) \<Rightarrow> authority_of \<Rightarrow> write_outcome \<Rightarrow> u64 \<Rightarrow> u64 \<Rightarrow> bytes \<Rightarrow> logical_wal_spool \<Rightarrow>
   (spool_error + unit) \<times> logical_wal_spool" where
  "append_with_timestamp crc authority outcome lsn timestamp_ms data sp =
     (let (trm, epoch) = authority_from_payload authority data in
      append_with_term_epoch_and_timestamp crc outcome trm epoch lsn timestamp_ms data sp)"

definition spool_read_since ::
  "(bytes \<Rightarrow> u32) \<Rightarrow> authority_of \<Rightarrow> restamp_with \<Rightarrow> u64 \<Rightarrow> nat \<Rightarrow> logical_wal_spool \<Rightarrow> (u64 \<times> bytes) list" where
  "spool_read_since crc authority restamp since_lsn max_count sp =
     (let start_offset = seek_floor_offset (sp_seek_index sp) since_lsn;
          entries = read_logical_wal_entries_from crc (sp_file sp) start_offset in
      map (\<lambda>e. (lw_lsn e, logical_wal_data_with_framing_term authority restamp e))
        (take max_count (filter (\<lambda>e. lw_lsn e > since_lsn) entries)))"

text \<open>Asking for the oldest record repairs the file.\<close>

definition spool_oldest_lsn :: "(bytes \<Rightarrow> u32) \<Rightarrow> logical_wal_spool \<Rightarrow> u64 option \<times> logical_wal_spool" where
  "spool_oldest_lsn crc sp =
     (let (entries, repaired) = read_and_repair_logical_wal_entries crc (sp_file sp) in
      (case entries of [] \<Rightarrow> None | e # _ \<Rightarrow> Some (lw_lsn e), sp\<lparr>sp_file := repaired\<rparr>))"

definition reframe :: "authority_of \<Rightarrow> u64 \<Rightarrow> logical_wal_entry \<Rightarrow> logical_wal_entry" where
  "reframe authority now_ms e =
     e\<lparr>lw_term := logical_wal_entry_term authority e,
       lw_timestamp_ms := (if lw_timestamp_ms e > 0 then lw_timestamp_ms e else now_ms)\<rparr>"

definition spool_prune_through ::
  "(bytes \<Rightarrow> u32) \<Rightarrow> authority_of \<Rightarrow> u64 \<Rightarrow> u64 \<Rightarrow> logical_wal_spool \<Rightarrow> (spool_error + unit) \<times> logical_wal_spool" where
  "spool_prune_through crc authority now_ms upto_lsn sp =
     (let previous_lsn = sp_current_lsn sp;
          (entries, repaired) = read_and_repair_logical_wal_entries crc (sp_file sp);
          retained = map (reframe authority now_ms) (filter (\<lambda>e. lw_lsn e > upto_lsn) entries) in
      case rewrite_logical_wal_entries crc retained of
        Inl e \<Rightarrow> (Inl (EncodeRefused e), sp\<lparr>sp_file := repaired\<rparr>)
      | Inr (current, rewritten_file) \<Rightarrow>
          (let (index, write_offset, count) = build_logical_wal_seek_index crc rewritten_file in
           (Inr (), \<lparr>sp_file = rewritten_file, sp_current_lsn = max (max previous_lsn current) upto_lsn, sp_seek_index = index,
                    sp_write_offset = write_offset, sp_record_count = count\<rparr>)))"

subsection \<open>The seek index finds nothing too late\<close>

lemma search_loop_below:
  "base = 0 \<or> fst (index ! base) \<le> key \<Longrightarrow>
   search_loop index key base width = 0 \<or> fst (index ! search_loop index key base width) \<le> key"
proof (induction index key base width rule: search_loop.induct)
  case (1 index key base width)
  show ?case
  proof (cases "width \<le> 1")
    case True
    with 1 show ?thesis by (simp add: search_loop.simps)
  next
    case False
    then have "search_loop index key base width =
        search_loop index key (if fst (index ! (base + width div 2)) > key then base else base + width div 2) (width - width div 2)"
      by (simp add: search_loop.simps [of index key base width] Let_def)
    then show ?thesis using 1(1) [OF False refl refl] 1(2) by (auto simp: linorder_not_less split: if_splits)
  qed
qed

lemma search_loop_bound: "0 < width \<Longrightarrow> search_loop index key base width < base + width"
proof (induction index key base width rule: search_loop.induct)
  case (1 index key base width)
  show ?case
  proof (cases "width \<le> 1")
    case True
    with 1 show ?thesis by (simp add: search_loop.simps)
  next
    case False
    with 1(1) [OF False refl refl] show ?thesis
      by (subst search_loop.simps) (auto simp: Let_def split: if_splits)
  qed
qed

lemma seek_floor_cases:
  "seek_floor_offset index since = 0 \<or> (\<exists>c \<in> set index. fst c \<le> since \<and> seek_floor_offset index since = snd c)"
proof (cases "index = []")
  case False
  let ?b = "search_loop index since 0 (length index)"
  have b: "?b < length index" using search_loop_bound [of "length index" index since 0] False by simp
  have below: "?b = 0 \<or> fst (index ! ?b) \<le> since" by (rule search_loop_below) simp
  show ?thesis
  proof (cases "fst (index ! ?b) \<le> since")
    case True
    then have "seek_floor_offset index since = snd (index ! ?b)"
      using False by (auto simp: seek_floor_offset_def binary_search_def Let_def)
    with True b show ?thesis by (intro disjI2 bexI [of _ "index ! ?b"]) auto
  next
    case above: False
    with below have "?b = 0" by simp
    with above False show ?thesis by (auto simp: seek_floor_offset_def binary_search_def Let_def)
  qed
qed (simp add: seek_floor_offset_def binary_search_def)

subsection \<open>Well-formed spools\<close>

definition spool_wf :: "(bytes \<Rightarrow> u32) \<Rightarrow> frames \<Rightarrow> logical_wal_spool \<Rightarrow> bool" where
  "spool_wf crc fs sp \<longleftrightarrow>
     frames_ok crc fs \<and> ascending fs \<and> sp_file sp = file_of fs \<and> sp_seek_index sp = index_frames [] 0 0 fs \<and>
     sp_write_offset sp = length (file_of fs) \<and> sp_record_count sp = length fs \<and>
     (\<forall>(bs, e) \<in> set fs. lw_lsn e \<le> sp_current_lsn sp)"

definition spool_valid :: "(bytes \<Rightarrow> u32) \<Rightarrow> logical_wal_spool \<Rightarrow> bool" where
  "spool_valid crc sp \<longleftrightarrow> (\<exists>fs. spool_wf crc fs sp)"

definition spool_entries :: "(bytes \<Rightarrow> u32) \<Rightarrow> logical_wal_spool \<Rightarrow> logical_wal_entry list" where
  "spool_entries crc sp = read_entries crc (sp_file sp)"

lemma spool_wfD:
  assumes "spool_wf crc fs sp"
  shows "frames_ok crc fs" "ascending fs" "sp_file sp = file_of fs" "sp_seek_index sp = index_frames [] 0 0 fs"
    "sp_write_offset sp = length (file_of fs)" "sp_record_count sp = length fs"
    "(bs, e) \<in> set fs \<Longrightarrow> lw_lsn e \<le> sp_current_lsn sp"
  using assms by (auto simp: spool_wf_def)

lemma spool_wf_entries: "spool_wf crc fs sp \<Longrightarrow> spool_entries crc sp = map snd fs"
  using read_entries_file [of crc fs "[]"] by (simp add: spool_entries_def spool_wf_def)

text \<open>
  A checkpoint is safe when the frames before it have no number above its own. Through safe checkpoints a
  read returns what a scan of the whole file would.
\<close>

definition safe_checkpoint :: "frames \<Rightarrow> u64 \<times> nat \<Rightarrow> bool" where
  "safe_checkpoint fs c \<longleftrightarrow> (\<exists>us vs. fs = us @ vs \<and> snd c = length (file_of us) \<and> (\<forall>f \<in> set us. lw_lsn (snd f) \<le> fst c))"

lemma checkpoint_safe: "checkpoint_of fs c \<Longrightarrow> ascending fs \<Longrightarrow> safe_checkpoint fs c"
  unfolding checkpoint_of_def safe_checkpoint_def
  by (fastforce simp: ascending_def sorted_wrt_append intro: less_imp_le)

lemma seek_skips_only_old:
  assumes "frames_ok crc fs" and "read_logical_wal_frame crc junk = None" and "\<forall>c \<in> set index. safe_checkpoint fs c"
  shows "filter (\<lambda>e. lw_lsn e > since) (read_logical_wal_entries_from crc (file_of fs @ junk) (seek_floor_offset index since)) =
    filter (\<lambda>e. lw_lsn e > since) (map snd fs)"
  using seek_floor_cases [of index since]
proof
  assume "seek_floor_offset index since = 0"
  then show ?thesis using read_entries_file [OF assms(1,2)] by (simp add: read_logical_wal_entries_from_def)
next
  assume "\<exists>c \<in> set index. fst c \<le> since \<and> seek_floor_offset index since = snd c"
  then obtain c where c: "c \<in> set index" "fst c \<le> since" "seek_floor_offset index since = snd c" by blast
  then obtain us vs where fs: "fs = us @ vs" and off: "snd c = length (file_of us)" and old: "\<forall>f \<in> set us. lw_lsn (snd f) \<le> fst c"
    using assms(3) unfolding safe_checkpoint_def by blast
  have "frames_ok crc vs" using assms(1) fs by simp
  from read_entries_file [OF this assms(2)]
  have "read_logical_wal_entries_from crc (file_of fs @ junk) (seek_floor_offset index since) = map snd vs"
    by (simp add: read_logical_wal_entries_from_def c(3) off fs)
  moreover have "filter (\<lambda>e. lw_lsn e > since) (map snd us) = []"
    using old c(2) by (fastforce simp: filter_empty_conv linorder_not_less)
  ultimately show ?thesis by (simp add: fs)
qed

lemma wf_checkpoints: "spool_wf crc fs sp \<Longrightarrow> \<forall>c \<in> set (sp_seek_index sp). safe_checkpoint fs c"
  using index_frames_sound checkpoint_safe by (metis spool_wfD(2,4))

lemma spool_read_since_wf:
  assumes "spool_wf crc fs sp"
  shows "spool_read_since crc authority restamp since n sp =
    take n (map (\<lambda>e. (lw_lsn e, logical_wal_data_with_framing_term authority restamp e)) (filter (\<lambda>e. lw_lsn e > since) (map snd fs)))"
  using seek_skips_only_old [OF spool_wfD(1) [OF assms] read_frame_Nil wf_checkpoints [OF assms]]
  by (simp add: spool_read_since_def Let_def take_map spool_wfD(3) [OF assms])

subsection \<open>Appending, opening and pruning\<close>

lemma encode_v3_some: "length d \<le> u32_max \<Longrightarrow> \<exists>frame. encode_logical_wal_v3 crc t ep l ts d = Inr frame"
  by (simp add: encode_logical_wal_v3_def)

lemma append_done:
  assumes "spool_wf crc fs sp" and "length d \<le> max_plausible_payload" and "sp_current_lsn sp < l"
  obtains frame sp' where "encode_logical_wal_v3 crc t ep l ts d = Inr frame"
    "append_with_term_epoch_and_timestamp crc WriteDone t ep l ts d sp = (Inr (), sp')"
    "spool_wf crc (fs @ [(frame, v3_entry t ep l ts d)]) sp'" "sp_current_lsn sp' = l"
proof -
  note wf = spool_wfD [OF assms(1)]
  obtain frame where frame: "encode_logical_wal_v3 crc t ep l ts d = Inr frame"
    using encode_v3_some [OF plausible_u32 [OF assms(2)]] by blast
  obtain sp' where app: "append_with_term_epoch_and_timestamp crc WriteDone t ep l ts d sp = (Inr (), sp')"
    by (simp add: append_with_term_epoch_and_timestamp_def frame)
  have sp': "sp' = sp\<lparr>sp_file := sp_file sp @ frame, sp_current_lsn := max (sp_current_lsn sp) l,
      sp_seek_index := note_record (sp_record_count sp) l (sp_write_offset sp) (sp_seek_index sp),
      sp_write_offset := sp_write_offset sp + length frame, sp_record_count := sp_record_count sp + 1\<rparr>"
    using app by (simp add: append_with_term_epoch_and_timestamp_def frame)
  have "lw_lsn e < l" if "(bs, e) \<in> set fs" for bs e
    using wf(7) [OF that] assms(3) by (rule order.strict_trans1)
  then have "ascending (fs @ [(frame, v3_entry t ep l ts d)])"
    using wf(2) by (auto simp: ascending_def sorted_wrt_append)
  moreover have "lw_lsn e \<le> l" if "(bs, e) \<in> set fs" for bs e
    using wf(7) [OF that] assms(3) by simp
  ultimately have "spool_wf crc (fs @ [(frame, v3_entry t ep l ts d)]) sp'"
    using wf(1,3-6) encode_v3_frame [OF frame assms(2)] assms(3)
    by (auto simp: spool_wf_def sp' index_frames_append max_absorb2)
  moreover have "sp_current_lsn sp' = l" unfolding sp' using assms(3) by (simp add: max_absorb2)
  ultimately show thesis using frame app by (intro that)
qed

lemma spool_open_file:
  assumes "frames_ok crc fs" and "read_logical_wal_frame crc junk = None"
  shows "spool_open crc (file_of fs @ junk) =
    \<lparr>sp_file = (if length junk < 4 then file_of fs @ junk else file_of fs),
     sp_current_lsn = (if fs = [] then 0 else lw_lsn (snd (last fs))), sp_seek_index = index_frames [] 0 0 fs,
     sp_write_offset = length (file_of fs), sp_record_count = length fs\<rparr>"
  using build_seek_index_file [OF assms] build_seek_index_file [OF assms(1), of "[]"]
    repair_file [OF assms]
  by (cases "fs = []") (simp_all add: spool_open_def last_map)

lemma ascending_last: "ascending fs \<Longrightarrow> (bs, e) \<in> set fs \<Longrightarrow> lw_lsn e \<le> lw_lsn (snd (last fs))"
  by (induction fs rule: rev_induct) (auto simp: ascending_def sorted_wrt_append intro: less_imp_le)

lemma spool_open_wf:
  assumes "frames_ok crc fs" and "ascending fs" and "read_logical_wal_frame crc junk = None" and "junk = [] \<or> 4 \<le> length junk"
  shows "spool_wf crc fs (spool_open crc (file_of fs @ junk))"
  using assms ascending_last [OF assms(2)] by (auto simp: spool_open_file spool_wf_def)

lemma reframe_simps [simp]: "lw_lsn (reframe authority now e) = lw_lsn e" "lw_data (reframe authority now e) = lw_data e"
  "lw_ownership_epoch (reframe authority now e) = lw_ownership_epoch e"
  by (simp_all add: reframe_def)

lemma entry_term_reframe [simp]:
  "logical_wal_entry_term authority (reframe authority now e) = logical_wal_entry_term authority e"
  by (simp add: logical_wal_entry_term_def reframe_def)

lemma data_reframe:
  "logical_wal_data_with_framing_term authority restamp ((reframe authority now e)\<lparr>lw_version := v\<rparr>) =
   logical_wal_data_with_framing_term authority restamp e"
proof -
  have "logical_wal_entry_term authority ((reframe authority now e)\<lparr>lw_version := v\<rparr>) = logical_wal_entry_term authority e"
    by (simp add: logical_wal_entry_term_def reframe_def)
  then show ?thesis by (cases "authority (lw_data e)") (auto simp: logical_wal_data_with_framing_term_def Let_def)
qed

lemma fold_max_le: "c \<le> m \<Longrightarrow> (\<And>e. e \<in> set es \<Longrightarrow> f e \<le> m) \<Longrightarrow> fold (\<lambda>e c. max c (f e)) es (c :: u64) \<le> m"
  by (induction es arbitrary: c) auto

lemma prune_wf:
  assumes "spool_wf crc fs sp"
    and gs: "gs = rewritten crc (map (reframe authority now) (filter (\<lambda>e. lw_lsn e > lim) (map snd fs)))"
  shows "\<exists>sp'. spool_prune_through crc authority now lim sp = (Inr (), sp') \<and> spool_wf crc gs sp' \<and>
    sp_current_lsn sp' = max (sp_current_lsn sp) lim"
proof -
  note wf = spool_wfD [OF assms(1)]
  let ?es = "map (reframe authority now) (filter (\<lambda>e. lw_lsn e > lim) (map snd fs))"
  have ok: "\<forall>e \<in> set ?es. entry_ok e"
    using wf(1) by (auto simp: frames_ok_def entry_ok_def dest!: bspec frame_entry_ok)
  note rw = rewrite_ok [OF ok, of crc, folded gs]
  have repaired: "read_and_repair_logical_wal_entries crc (sp_file sp) = (map snd fs, sp_file sp)"
    using repair_file [OF wf(1), of "[]"] by (simp add: wf(3))
  have asc: "ascending gs"
  proof -
    have "map (lw_lsn \<circ> snd) gs = filter (\<lambda>l. l > lim) (map (lw_lsn \<circ> snd) fs)"
      by (simp add: gs rewritten_def filter_map comp_def)
    with wf(2) show ?thesis by (simp add: ascending_def sorted_wrt_filter)
  qed
  have below: "fold (\<lambda>e c. max c (lw_lsn e)) ?es 0 \<le> sp_current_lsn sp"
    by (rule fold_max_le) (use wf(7) in auto)
  have le: "lw_lsn e \<le> sp_current_lsn sp" if "(bs, e) \<in> set gs" for bs e
    using that wf(7) by (auto simp: gs rewritten_def)
  show ?thesis
    using build_seek_index_file [OF rw(2), of "[]"] rw asc below le
    by (auto simp: spool_prune_through_def Let_def repaired spool_wf_def max_absorb1 le_max_iff_disj)
qed

subsection \<open>What a log serves\<close>

text \<open>
  The contract of a log of records: they stand in ascending order below its head; appending above the head
  adds a record, pruning removes exactly the records up to a number, reading returns the first records
  behind a number, and the oldest number is the first record's. \<open>served\<close> is the payload a reader gets for the
  payload that was appended, \<open>fits\<close> the payloads the log can hold. Operations that stamp records take the time.
\<close>

locale wal_source =
  fixes recs :: "'s \<Rightarrow> (u64 \<times> bytes) list" and valid :: "'s \<Rightarrow> bool" and head :: "'s \<Rightarrow> u64"
    and app :: "u64 \<Rightarrow> u64 \<Rightarrow> bytes \<Rightarrow> 's \<Rightarrow> 's" and prune :: "u64 \<Rightarrow> u64 \<Rightarrow> 's \<Rightarrow> 's"
    and since :: "u64 \<Rightarrow> nat \<Rightarrow> 's \<Rightarrow> (u64 \<times> bytes) list" and oldest :: "'s \<Rightarrow> u64 option"
    and served :: "bytes \<Rightarrow> bytes" and fits :: "bytes \<Rightarrow> bool"
  assumes recs_sorted: "valid s \<Longrightarrow> sorted_wrt (<) (map fst (recs s))"
    and recs_head: "valid s \<Longrightarrow> (l, d) \<in> set (recs s) \<Longrightarrow> l \<le> head s"
    and app_valid: "valid s \<Longrightarrow> head s < l \<Longrightarrow> fits d \<Longrightarrow> valid (app ts l d s)"
    and app_recs: "valid s \<Longrightarrow> head s < l \<Longrightarrow> fits d \<Longrightarrow> recs (app ts l d s) = recs s @ [(l, served d)]"
    and app_head: "valid s \<Longrightarrow> head s < l \<Longrightarrow> fits d \<Longrightarrow> head (app ts l d s) = l"
    and prune_valid: "valid s \<Longrightarrow> valid (prune now l s)"
    and prune_recs: "valid s \<Longrightarrow> recs (prune now l s) = filter (\<lambda>r. l < fst r) (recs s)"
    and prune_head: "valid s \<Longrightarrow> head s \<le> head (prune now l s)"
    and since_recs: "valid s \<Longrightarrow> since l n s = take n (filter (\<lambda>r. l < fst r) (recs s))"
    and oldest_recs: "valid s \<Longrightarrow> oldest s = (case recs s of [] \<Rightarrow> None | r # _ \<Rightarrow> Some (fst r))"
begin

text \<open>
  \<open>hist\<close> is everything ever appended. A log that was pruned up to somewhere holds the rest of it, so a read
  from a number at or behind the oldest record's predecessor misses nothing.
\<close>

definition holds :: "(u64 \<times> bytes) list \<Rightarrow> u64 \<Rightarrow> 's \<Rightarrow> bool" where
  "holds hist gone s \<longleftrightarrow> valid s \<and> recs s = filter (\<lambda>r. gone < fst r) hist \<and> gone \<le> head s \<and> (\<forall>r \<in> set hist. fst r \<le> head s)"

lemma holds_app: "holds hist gone s \<Longrightarrow> head s < l \<Longrightarrow> fits d \<Longrightarrow> holds (hist @ [(l, served d)]) gone (app ts l d s)"
  by (auto simp: holds_def app_valid app_recs app_head less_imp_le intro: order_trans)

lemma holds_prune:
  assumes "holds hist gone s" and "l \<le> head s"
  shows "holds hist (max gone l) (prune now l s)"
proof -
  have "valid s" and r: "recs s = filter (\<lambda>r. gone < fst r) hist" using assms(1) by (simp_all add: holds_def)
  moreover have "head s \<le> head (prune now l s)" by (rule prune_head [OF \<open>valid s\<close>])
  ultimately show ?thesis
    using assms by (auto simp: holds_def prune_valid prune_recs conj_commute intro: order_trans)
qed

lemma read_complete:
  assumes "holds hist gone s" and "gone \<le> l"
  shows "since l n s = take n (filter (\<lambda>r. l < fst r) hist)"
proof -
  have "filter (\<lambda>r. l < fst r) (filter (\<lambda>r. gone < fst r) hist) = filter (\<lambda>r. l < fst r) hist"
    using assms(2) by (induction hist) auto
  then show ?thesis using assms by (simp add: holds_def since_recs)
qed

lemma read_behind_oldest:
  assumes "holds hist gone s" and "sorted_wrt (<) (map fst hist)" and "oldest s = Some o'" and "\<forall>x < o'. x \<le> l"
  shows "since l n s = take n (filter (\<lambda>r. l < fst r) hist)"
proof -
  have v: "valid s" and r: "recs s = filter (\<lambda>r. gone < fst r) hist" using assms(1) by (auto simp: holds_def)
  obtain d rs where o: "recs s = (o', d) # rs" using assms(3) by (auto simp: oldest_recs [OF v] split: list.splits)
  have "fst x \<le> l" if x: "x \<in> set hist" "\<not> gone < fst x" for x
  proof -
    have "(o', d) \<in> set (filter (\<lambda>r. gone < fst r) hist)" using o r by (metis list.set_intros(1))
    then have "gone < o'" by simp
    with x(2) have "fst x < o'" by order
    with assms(4) show ?thesis by blast
  qed
  then have "filter (\<lambda>r. l < fst r) (recs s) = filter (\<lambda>r. l < fst r) hist"
    unfolding r by (induction hist) (auto simp: leD)
  then show ?thesis by (simp add: since_recs [OF v])
qed

end

subsection \<open>Buffer and spool are such logs\<close>

definition buffer_valid :: "wal_buffer \<Rightarrow> bool" where
  "buffer_valid b \<longleftrightarrow> sorted_wrt (<) (map fst (wb_records b)) \<and> (\<forall>r \<in> set (wb_records b). fst r \<le> wb_current_lsn b)"

lemma dropWhile_sorted:
  "sorted_wrt (<) (map fst rs) \<Longrightarrow> dropWhile (\<lambda>r. fst r \<le> (l :: u64)) rs = filter (\<lambda>r. l < fst r) rs"
proof (induction rs)
  case (Cons r rs)
  show ?case
  proof (cases "fst r \<le> l")
    case True
    with Cons show ?thesis by (cases r) (auto simp: linorder_not_less)
  next
    case False
    with Cons.prems have "filter (\<lambda>r. l < fst r) rs = rs" by (auto simp: filter_id_conv)
    with False show ?thesis by (cases r) auto
  qed
qed simp

lemma sorted_wrt_map_filter: "sorted_wrt P (map f xs) \<Longrightarrow> sorted_wrt P (map f (filter Q xs))"
  by (simp add: sorted_wrt_map sorted_wrt_filter)

interpretation buffer: wal_source wb_records buffer_valid wb_current_lsn "\<lambda>ts. buffer_append" "\<lambda>now. buffer_prune_through"
  read_since_shared buffer_oldest_lsn "\<lambda>d. d" "\<lambda>d. True"
  by unfold_locales
    (auto simp: buffer_valid_def buffer_append_def buffer_prune_through_def read_since_shared_def buffer_oldest_lsn_def
      dropWhile_sorted sorted_wrt_append sorted_wrt_map_filter max_absorb2 case_prod_unfold
      split: list.split intro: order.strict_trans1 order_trans less_imp_le)

definition served_record :: "authority_of \<Rightarrow> restamp_with \<Rightarrow> logical_wal_entry \<Rightarrow> u64 \<times> bytes" where
  "served_record authority restamp e = (lw_lsn e, logical_wal_data_with_framing_term authority restamp e)"

definition spool_recs :: "(bytes \<Rightarrow> u32) \<Rightarrow> authority_of \<Rightarrow> restamp_with \<Rightarrow> logical_wal_spool \<Rightarrow> (u64 \<times> bytes) list" where
  "spool_recs crc authority restamp sp = map (served_record authority restamp) (spool_entries crc sp)"

definition spool_served :: "authority_of \<Rightarrow> restamp_with \<Rightarrow> bytes \<Rightarrow> bytes" where
  "spool_served authority restamp d =
     (let (trm, epoch) = authority_from_payload authority d in
      logical_wal_data_with_framing_term authority restamp (v3_entry trm epoch 0 0 d))"

definition spool_append :: "(bytes \<Rightarrow> u32) \<Rightarrow> authority_of \<Rightarrow> u64 \<Rightarrow> u64 \<Rightarrow> bytes \<Rightarrow> logical_wal_spool \<Rightarrow> logical_wal_spool" where
  "spool_append crc authority ts l d sp = snd (append_with_timestamp crc authority WriteDone l ts d sp)"

definition spool_prune :: "(bytes \<Rightarrow> u32) \<Rightarrow> authority_of \<Rightarrow> u64 \<Rightarrow> u64 \<Rightarrow> logical_wal_spool \<Rightarrow> logical_wal_spool" where
  "spool_prune crc authority now l sp = snd (spool_prune_through crc authority now l sp)"

text \<open>A spool serves the payloads it was given, except that an ownership epoch of 0 is stamped again.\<close>

lemma spool_served_same: "snd (authority_from_payload authority d) \<noteq> Some 0 \<Longrightarrow> spool_served authority restamp d = d"
  by (auto simp: spool_served_def authority_from_payload_def logical_wal_data_with_framing_term_def Let_def
      logical_wal_entry_term_def term_from_payload_def split: option.splits)

lemma framing_stamp: "logical_wal_data_with_framing_term authority restamp (v3_entry t ep l ts d) =
    logical_wal_data_with_framing_term authority restamp (v3_entry t ep 0 0 d)"
  by (cases "authority d") (auto simp: logical_wal_data_with_framing_term_def logical_wal_entry_term_def Let_def)

lemma spool_recs_wf: "spool_wf crc fs sp \<Longrightarrow> spool_recs crc authority restamp sp = map (served_record authority restamp \<circ> snd) fs"
  by (simp add: spool_recs_def spool_wf_entries)

lemma spool_append_step:
  assumes "spool_valid crc sp" and "sp_current_lsn sp < l" and "length d \<le> max_plausible_payload"
  shows "spool_valid crc (spool_append crc authority ts l d sp) \<and>
    spool_recs crc authority restamp (spool_append crc authority ts l d sp) =
      spool_recs crc authority restamp sp @ [(l, spool_served authority restamp d)] \<and>
    sp_current_lsn (spool_append crc authority ts l d sp) = l"
proof -
  obtain fs where fs: "spool_wf crc fs sp" using assms(1) by (auto simp: spool_valid_def)
  obtain t ep where a: "authority_from_payload authority d = (t, ep)" by (cases "authority_from_payload authority d")
  obtain frame sp' where *: "append_with_term_epoch_and_timestamp crc WriteDone t ep l ts d sp = (Inr (), sp')"
      "spool_wf crc (fs @ [(frame, v3_entry t ep l ts d)]) sp'" "sp_current_lsn sp' = l"
    by (rule append_done [OF fs assms(3,2)])
  have sp': "spool_append crc authority ts l d sp = sp'" by (simp add: spool_append_def append_with_timestamp_def a *(1))
  show ?thesis
    using *(2,3) framing_stamp [of authority restamp t ep l ts d]
    by (auto simp: sp' spool_valid_def spool_recs_wf [OF *(2)] spool_recs_wf [OF fs] served_record_def spool_served_def a)
qed

lemma spool_prune_step:
  assumes "spool_valid crc sp"
  shows "spool_valid crc (spool_prune crc authority now l sp) \<and>
    spool_recs crc authority restamp (spool_prune crc authority now l sp) = filter (\<lambda>r. l < fst r) (spool_recs crc authority restamp sp) \<and>
    sp_current_lsn sp \<le> sp_current_lsn (spool_prune crc authority now l sp)"
proof -
  obtain fs where fs: "spool_wf crc fs sp" using assms by (auto simp: spool_valid_def)
  let ?gs = "rewritten crc (map (reframe authority now) (filter (\<lambda>e. lw_lsn e > l) (map snd fs)))"
  obtain sp' where *: "spool_prune_through crc authority now l sp = (Inr (), sp')" "spool_wf crc ?gs sp'"
      "sp_current_lsn sp' = max (sp_current_lsn sp) l"
    using prune_wf [OF fs refl, of authority now l] by blast
  have sp': "spool_prune crc authority now l sp = sp'" by (simp add: spool_prune_def *(1))
  have "map (served_record authority restamp \<circ> snd) ?gs = filter (\<lambda>r. l < fst r) (map (served_record authority restamp \<circ> snd) fs)"
    by (simp add: rewritten_def served_record_def data_reframe filter_map comp_def)
  with *(2,3) show ?thesis by (auto simp: sp' spool_valid_def spool_recs_wf [OF *(2)] spool_recs_wf [OF fs])
qed

lemma spool_valid_sorted:
  assumes "spool_valid crc sp"
  shows "sorted_wrt (<) (map fst (spool_recs crc authority restamp sp))"
    and "(l, d) \<in> set (spool_recs crc authority restamp sp) \<Longrightarrow> l \<le> sp_current_lsn sp"
proof -
  obtain fs where fs: "spool_wf crc fs sp" using assms by (auto simp: spool_valid_def)
  show "sorted_wrt (<) (map fst (spool_recs crc authority restamp sp))"
    using spool_wfD(2) [OF fs] by (simp add: spool_recs_wf [OF fs] served_record_def comp_def ascending_def)
  show "(l, d) \<in> set (spool_recs crc authority restamp sp) \<Longrightarrow> l \<le> sp_current_lsn sp"
    using spool_wfD(7) [OF fs] by (auto simp: spool_recs_wf [OF fs] served_record_def)
qed

lemma spool_valid_since:
  "spool_valid crc sp \<Longrightarrow> spool_read_since crc authority restamp l n sp = take n (filter (\<lambda>r. l < fst r) (spool_recs crc authority restamp sp))"
  by (auto simp: spool_valid_def spool_recs_wf spool_read_since_wf served_record_def filter_map comp_def)

lemma spool_valid_oldest:
  assumes "spool_valid crc sp"
  shows "spool_oldest_lsn crc sp = (case spool_recs crc authority restamp sp of [] \<Rightarrow> None | r # _ \<Rightarrow> Some (fst r), sp)"
proof -
  obtain fs where fs: "spool_wf crc fs sp" using assms by (auto simp: spool_valid_def)
  have "read_and_repair_logical_wal_entries crc (sp_file sp) = (map snd fs, sp_file sp)"
    using repair_file [OF spool_wfD(1) [OF fs], of "[]"] by (simp add: spool_wfD(3) [OF fs])
  then show ?thesis by (cases fs) (simp_all add: spool_oldest_lsn_def spool_recs_wf [OF fs] served_record_def)
qed

interpretation spool: wal_source "spool_recs crc authority restamp" "spool_valid crc" sp_current_lsn "spool_append crc authority"
  "spool_prune crc authority" "spool_read_since crc authority restamp" "\<lambda>sp. fst (spool_oldest_lsn crc sp)"
  "spool_served authority restamp" "\<lambda>d. length d \<le> max_plausible_payload" for crc authority restamp
  by unfold_locales
    (simp_all add: spool_valid_sorted spool_append_step spool_prune_step spool_valid_since
      spool_valid_oldest [of crc _ authority restamp])

subsection \<open>Runs of a spool\<close>

text \<open>
  A run is a sequence of successful appends and prunes. Its specification is a list: appends add the payload
  at the end, prunes drop a prefix. Numbers ascend when each append is above everything before it.
\<close>

datatype spool_op = SAppend u64 u64 bytes | SPrune u64 u64

fun spool_do :: "(bytes \<Rightarrow> u32) \<Rightarrow> authority_of \<Rightarrow> spool_op \<Rightarrow> logical_wal_spool \<Rightarrow> logical_wal_spool" where
  "spool_do crc authority (SAppend ts l d) sp = spool_append crc authority ts l d sp"
| "spool_do crc authority (SPrune now l) sp = spool_prune crc authority now l sp"

fun list_do :: "authority_of \<Rightarrow> restamp_with \<Rightarrow> spool_op \<Rightarrow> (u64 \<times> bytes) list \<Rightarrow> (u64 \<times> bytes) list" where
  "list_do authority restamp (SAppend ts l d) rs = rs @ [(l, spool_served authority restamp d)]"
| "list_do authority restamp (SPrune now l) rs = filter (\<lambda>r. l < fst r) rs"

fun ops_ascend :: "u64 \<Rightarrow> spool_op list \<Rightarrow> bool" where
  "ops_ascend h [] \<longleftrightarrow> True"
| "ops_ascend h (SAppend ts l d # ops) \<longleftrightarrow> h < l \<and> length d \<le> max_plausible_payload \<and> ops_ascend l ops"
| "ops_ascend h (SPrune now l # ops) \<longleftrightarrow> ops_ascend (max h l) ops"

fun ops_head :: "u64 \<Rightarrow> spool_op list \<Rightarrow> u64" where
  "ops_head h [] = h"
| "ops_head h (SAppend ts l d # ops) = ops_head l ops"
| "ops_head h (SPrune now l # ops) = ops_head (max h l) ops"

lemma ops_ascend_append: "ops_ascend h (xs @ ys) \<longleftrightarrow> ops_ascend h xs \<and> ops_ascend (ops_head h xs) ys"
  by (induction h xs rule: ops_ascend.induct) auto

lemma prune_head_exact:
  assumes "spool_valid crc sp"
  shows "sp_current_lsn (spool_prune crc authority now l sp) = max (sp_current_lsn sp) l"
proof -
  obtain fs where "spool_wf crc fs sp" using assms by (auto simp: spool_valid_def)
  from prune_wf [OF this refl, of authority now l] show ?thesis by (auto simp: spool_prune_def)
qed

lemma spool_run:
  "spool_valid crc sp \<Longrightarrow> ops_ascend (sp_current_lsn sp) ops \<Longrightarrow>
   spool_valid crc (fold (spool_do crc authority) ops sp) \<and>
   spool_recs crc authority restamp (fold (spool_do crc authority) ops sp) =
     fold (list_do authority restamp) ops (spool_recs crc authority restamp sp) \<and>
   sp_current_lsn (fold (spool_do crc authority) ops sp) = ops_head (sp_current_lsn sp) ops"
proof (induction ops arbitrary: sp)
  case (Cons a ops)
  show ?case
  proof (cases a)
    case (SAppend ts l d)
    with Cons.prems spool_append_step [OF Cons.prems(1), of l d authority ts restamp] Cons.IH [of "spool_append crc authority ts l d sp"]
    show ?thesis by simp
  next
    case (SPrune now l)
    with Cons.prems spool_prune_step [OF Cons.prems(1), of authority now l restamp] Cons.IH [of "spool_prune crc authority now l sp"]
      prune_head_exact [OF Cons.prems(1), of authority now l]
    show ?thesis by simp
  qed
qed simp

lemma spool_open_empty: "spool_valid crc (spool_open crc [])" "spool_recs crc authority restamp (spool_open crc []) = []"
  "sp_current_lsn (spool_open crc []) = 0"
proof -
  have wf: "spool_wf crc [] (spool_open crc [])" using spool_open_wf [of crc "[]" "[]"] by (simp add: ascending_def)
  show "spool_valid crc (spool_open crc [])" using wf by (auto simp: spool_valid_def)
  show "spool_recs crc authority restamp (spool_open crc []) = []" by (simp add: spool_recs_wf [OF wf])
  show "sp_current_lsn (spool_open crc []) = 0" using spool_open_file [of crc "[]" "[]"] by simp
qed

text \<open>
  C37: the spool's indexed reads are exact. Whatever appends with ascending numbers and prunes a well-formed
  spool has been through, a read behind any number, through the sparse index and its binary search, returns
  the first records behind that number of the plain list the same operations build.
\<close>

theorem spool_reads_exact:
  assumes "spool_valid crc sp" and "ops_ascend (sp_current_lsn sp) ops"
  shows "spool_read_since crc authority restamp l n (fold (spool_do crc authority) ops sp) =
    take n (filter (\<lambda>r. l < fst r) (fold (list_do authority restamp) ops (spool_recs crc authority restamp sp)))"
  using spool_run [OF assms, of authority restamp] by (simp add: spool.since_recs)

definition demo_spool_ops :: "spool_op list" where
  "demo_spool_ops = [SAppend 10 1 [0xA], SAppend 11 2 [0xB], SPrune 12 1, SAppend 13 5 [0xC]]"

theorem spool_reads_exact_witness:
  "spool_read_since (\<lambda>bs. word_of_nat (length bs)) (\<lambda>_. None) (\<lambda>_ _ d. d) 0 10
     (fold (spool_do (\<lambda>bs. word_of_nat (length bs)) (\<lambda>_. None)) demo_spool_ops (spool_open (\<lambda>bs. word_of_nat (length bs)) [])) =
   [(2, [0xB]), (5, [0xC])]"
proof -
  let ?crc = "\<lambda>bs. word_of_nat (length bs)"
  have asc: "ops_ascend (sp_current_lsn (spool_open ?crc [])) demo_spool_ops"
    by (simp add: spool_open_empty demo_spool_ops_def max_plausible_payload_def)
  show ?thesis
    unfolding spool_reads_exact [OF spool_open_empty(1) asc]
    by (simp add: spool_open_empty demo_spool_ops_def spool_served_same authority_from_payload_def)
qed

subsection \<open>Crashes\<close>

lemma crash_reopen:
  assumes "spool_wf crc fs sp" and "encode_logical_wal_v3 crc t ep l ts d = Inr frame" and "length d \<le> max_plausible_payload"
    and "sp_current_lsn sp < l" and "n = 0 \<or> 4 \<le> n"
  shows "spool_wf crc (fs @ (if length frame \<le> n then [(frame, v3_entry t ep l ts d)] else []))
    (spool_open crc (sp_file sp @ take n frame))"
proof -
  note wf = spool_wfD [OF assms(1)]
  have ok: "frame_ok crc frame (v3_entry t ep l ts d)" by (rule encode_v3_frame [OF assms(2,3)])
  have "lw_lsn e < l" if "(bs, e) \<in> set fs" for bs e using wf(7) [OF that] assms(4) by (rule order.strict_trans1)
  then have asc: "ascending (fs @ [(frame, v3_entry t ep l ts d)])" using wf(2) by (auto simp: ascending_def sorted_wrt_append)
  show ?thesis
  proof (cases "length frame \<le> n")
    case True
    then show ?thesis using spool_open_wf [OF _ asc, of crc "[]"] wf(1) ok by (simp add: wf(3))
  next
    case False
    then have "read_logical_wal_frame crc (take n frame) = None"
      using frame_prefix_torn [of crc "take n frame" "drop n frame"] ok by simp
    with False spool_open_wf [OF wf(1,2), of "take n frame"] assms(5) show ?thesis by (auto simp: wf(3))
  qed
qed

text \<open>
  C36: acknowledged records of the spool survive a crash. After any run of a well-formed spool, let a crash
  cut the next append at any byte except within the first three of the frame. Opening the file again gives a
  well-formed spool with exactly the records of the run, and the one being appended if all of it was written.
\<close>

theorem spool_survives_crash:
  assumes "spool_valid crc sp" and "ops_ascend (sp_current_lsn sp) (ops @ [SAppend ts l d])"
    and "encode_logical_wal_v3 crc (fst (authority_from_payload authority d)) (snd (authority_from_payload authority d)) l ts d = Inr frame"
    and "n = 0 \<or> 4 \<le> n"
  shows "spool_valid crc (spool_open crc (sp_file (fold (spool_do crc authority) ops sp) @ take n frame)) \<and>
    spool_recs crc authority restamp (spool_open crc (sp_file (fold (spool_do crc authority) ops sp) @ take n frame)) =
      fold (list_do authority restamp) (ops @ (if length frame \<le> n then [SAppend ts l d] else [])) (spool_recs crc authority restamp sp)"
proof -
  let ?sp = "fold (spool_do crc authority) ops sp" and ?a = "authority_from_payload authority d"
  have asc: "ops_ascend (sp_current_lsn sp) ops" "ops_head (sp_current_lsn sp) ops < l" "length d \<le> max_plausible_payload"
    using assms(2) by (simp_all add: ops_ascend_append)
  have run: "spool_valid crc ?sp" "spool_recs crc authority restamp ?sp = fold (list_do authority restamp) ops (spool_recs crc authority restamp sp)"
      "sp_current_lsn ?sp = ops_head (sp_current_lsn sp) ops"
    using spool_run [OF assms(1) asc(1)] by blast+
  then obtain fs where fs: "spool_wf crc fs ?sp" by (auto simp: spool_valid_def)
  note wf = crash_reopen [OF fs assms(3) asc(3) asc(2) [folded run(3)] assms(4)]
  have "served_record authority restamp (v3_entry (fst ?a) (snd ?a) l ts d) = (l, spool_served authority restamp d)"
    using framing_stamp [of authority restamp "fst ?a" "snd ?a" l ts d]
    by (simp add: served_record_def spool_served_def case_prod_unfold Let_def)
  with wf run(2) spool_recs_wf [OF fs, of authority restamp] show ?thesis
    by (auto simp: spool_valid_def spool_recs_wf [OF wf])
qed

definition demo_crc :: "bytes \<Rightarrow> u32" where
  "demo_crc bs = word_of_nat (length bs)"

definition demo_frame :: bytes where
  "demo_frame = (case encode_logical_wal_v3 demo_crc 1 None 9 20 [0xD] of Inr frame \<Rightarrow> frame | Inl _ \<Rightarrow> [])"

lemma demo_frame: "encode_logical_wal_v3 demo_crc 1 None 9 20 [0xD] = Inr demo_frame" "length demo_frame = 46"
  by (simp_all add: demo_frame_def encode_logical_wal_v3_def u32_max_def logical_wal_magic_def)

theorem spool_survives_crash_witness:
  "spool_recs demo_crc (\<lambda>_. None) (\<lambda>_ _ d. d)
     (spool_open demo_crc (sp_file (fold (spool_do demo_crc (\<lambda>_. None)) demo_spool_ops (spool_open demo_crc [])) @ take 10 demo_frame)) =
   [(2, [0xB]), (5, [0xC])]"
proof -
  have asc: "ops_ascend (sp_current_lsn (spool_open demo_crc [])) (demo_spool_ops @ [SAppend 20 9 [0xD]])"
    by (simp add: spool_open_empty demo_spool_ops_def max_plausible_payload_def)
  have enc: "encode_logical_wal_v3 demo_crc (fst (authority_from_payload (\<lambda>_. None) [0xD]))
      (snd (authority_from_payload (\<lambda>_. None) [0xD])) 9 20 [0xD] = Inr demo_frame"
    using demo_frame(1) by (simp add: authority_from_payload_def default_replication_term_def)
  from spool_survives_crash [OF spool_open_empty(1) asc enc, of 10 "\<lambda>_ _ d. d"] show ?thesis
    by (simp add: demo_frame spool_open_empty demo_spool_ops_def spool_served_same authority_from_payload_def)
qed

text \<open>
  Fewer bytes than the magic number at the end of the file are not taken for damage and stay in it; what
  is appended behind them cannot be read.
\<close>

lemma encode_v3_head: "encode_logical_wal_v3 crc t ep l ts d = Inr frame \<Longrightarrow> take 4 frame = logical_wal_magic \<and> 4 < length frame"
  by (auto simp: encode_logical_wal_v3_def logical_wal_magic_def split: if_splits)

lemma stray_bytes_hide:
  assumes "take 4 frame = logical_wal_magic" and "n \<in> {1, 2, 3}"
  shows "read_logical_wal_frame crc (take n logical_wal_magic @ frame) = None"
proof -
  obtain rest where "frame = 0x52 # 0x44 # 0x4C # 0x57 # rest"
    using assms(1) append_take_drop_id [of 4 frame] by (metis append_Cons append_Nil logical_wal_magic_def)
  then show ?thesis using assms(2) by (auto simp: read_logical_wal_frame_def logical_wal_magic_def)
qed

text \<open>
  C40: a crash within the first three bytes of a frame loses later acknowledged records. The spool opens on
  such a file without complaint and the next append succeeds and moves the spool's head; but no read ever
  returns the record, and opening the file once more cuts it off.
\<close>

theorem torn_header_loses_records:
  assumes "spool_valid crc sp" and "encode_logical_wal_v3 crc t ep l ts d = Inr frame" and "n \<in> {1, 2, 3}"
    and "sp_current_lsn sp < l2" and "length d2 \<le> max_plausible_payload"
    and "append_with_timestamp crc authority WriteDone l2 ts2 d2 (spool_open crc (sp_file sp @ take n frame)) = (res, sp2)"
  shows "res = Inr () \<and> sp_current_lsn sp2 = l2 \<and>
    spool_read_since crc authority restamp since m sp2 = spool_read_since crc authority restamp since m sp \<and>
    sp_file (spool_open crc (sp_file sp2)) = sp_file sp"
proof -
  obtain fs where fs: "spool_wf crc fs sp" using assms(1) by (auto simp: spool_valid_def)
  note wf = spool_wfD [OF fs]
  let ?junk = "take n logical_wal_magic"
  have "n \<le> 4" using assms(3) by auto
  then have take: "take n frame = ?junk" using encode_v3_head [OF assms(2)] by (metis min.absorb1 take_take)
  have short: "length ?junk < 4" using assms(3) by (auto simp: logical_wal_magic_def)
  then have none: "read_logical_wal_frame crc ?junk = None" by (simp add: read_logical_wal_frame_def)
  obtain t2 ep2 where a: "authority_from_payload authority d2 = (t2, ep2)" by (cases "authority_from_payload authority d2")
  obtain frame2 where f2: "encode_logical_wal_v3 crc t2 ep2 l2 ts2 d2 = Inr frame2"
    using encode_v3_some [OF plausible_u32 [OF assms(5)]] by blast
  have junk2: "read_logical_wal_frame crc (?junk @ frame2) = None"
    by (rule stray_bytes_hide [OF conjunct1 [OF encode_v3_head [OF f2]] assms(3)])
  have last: "(if fs = [] then 0 else lw_lsn (snd (last fs))) \<le> sp_current_lsn sp"
    using wf(7) [of "fst (last fs)" "snd (last fs)"] by (cases "fs = []") simp_all
  let ?sp1 = "spool_open crc (sp_file sp @ take n frame)"
  have open1: "sp_file ?sp1 = file_of fs @ ?junk" "sp_current_lsn ?sp1 \<le> sp_current_lsn sp" "sp_record_count ?sp1 = length fs"
      "sp_write_offset ?sp1 = length (file_of fs)" "sp_seek_index ?sp1 = sp_seek_index sp"
    using spool_open_file [OF wf(1) none] last short by (simp_all add: take wf(3,4))
  have "max (sp_current_lsn ?sp1) l2 = l2" using open1(2) assms(4) by simp
  then have sp2: "res = Inr ()" "sp_current_lsn sp2 = l2" "sp_file sp2 = file_of fs @ (?junk @ frame2)"
      "sp_seek_index sp2 = note_record (length fs) l2 (length (file_of fs)) (sp_seek_index sp)"
    using assms(6) by (auto simp: append_with_timestamp_def a append_with_term_epoch_and_timestamp_def f2 open1)
  have "safe_checkpoint fs (l2, length (file_of fs))"
    unfolding safe_checkpoint_def using wf(7) assms(4) by (intro exI [of _ fs] exI [of _ "[]"]) force
  then have cps: "\<forall>c \<in> set (sp_seek_index sp2). safe_checkpoint fs c"
    using wf_checkpoints [OF fs] by (auto simp: sp2(4) note_record_def)
  have "spool_read_since crc authority restamp since m sp2 = spool_read_since crc authority restamp since m sp"
    using seek_skips_only_old [OF wf(1) junk2 cps]
    by (simp add: spool_read_since_def [of _ _ _ _ _ sp2] Let_def sp2(3) spool_read_since_wf [OF fs] take_map)
  moreover have "sp_file (spool_open crc (sp_file sp2)) = sp_file sp"
    using spool_open_file [OF wf(1) junk2] encode_v3_head [OF f2] by (simp add: sp2(3) wf(3))
  ultimately show ?thesis using sp2 by blast
qed

theorem torn_header_loses_records_witness:
  "let sp = spool_open demo_crc (take 2 demo_frame); (res, sp2) = append_with_timestamp demo_crc (\<lambda>_. None) WriteDone 7 20 [0xD] sp in
   res = Inr () \<and> sp_current_lsn sp2 = 7 \<and> sp_file (spool_open demo_crc (sp_file sp2)) = []"
proof -
  obtain res sp2 where r: "append_with_timestamp demo_crc (\<lambda>_. None) WriteDone 7 20 [0xD]
      (spool_open demo_crc (sp_file (spool_open demo_crc []) @ take 2 demo_frame)) = (res, sp2)"
    by (metis surj_pair)
  have nil: "sp_file (spool_open demo_crc []) = []" using spool_open_file [of demo_crc "[]" "[]"] by simp
  from torn_header_loses_records [OF spool_open_empty(1) demo_frame(1) _ _ _ r] r
  show ?thesis by (simp add: spool_open_empty nil max_plausible_payload_def)
qed

end
