(* ===== verification/Commit_Waiter.thy ===== *)
theory Commit_Waiter
  imports Byte_Codec
begin

section \<open>Waiting for replica acknowledgements\<close>

text \<open>
  \<open>src/crates/reddb-server/src/replication/commit_waiter.rs\<close>: the table of durable positions the replicas have acknowledged,
  the commit watermark over it, and the loops that block a committer. A waiting loop looks at the table each
  time it wakes: the sequence of what it sees, with the time elapsed since it started, is an argument, so that
  acknowledgements, spurious wake-ups and lost replicas can come in any order. A loop that never
  returns is the value \<open>None\<close>. Durations are nanoseconds.
\<close>

type_synonym durable_map = "(string, u64) hmap"

record commit_waiter_metrics =
  reached_total :: u64
  timed_out_total :: u64
  not_required_total :: u64
  last_wait_micros :: u64

datatype await_outcome = AwaitReached nat | AwaitTimedOut nat nat | NotRequired

definition record_replica_ack :: "string \<Rightarrow> u64 \<Rightarrow> durable_map \<Rightarrow> durable_map" where
  "record_replica_ack replica_id lsn m =
     (let m1 = (if hget m replica_id = None then hput replica_id 0 m else m);
          entry = (case hget m1 replica_id of Some l \<Rightarrow> l | None \<Rightarrow> 0) in
      if lsn > entry then hput replica_id lsn m1 else m1)"

definition drop_replica :: "string \<Rightarrow> durable_map \<Rightarrow> durable_map" where
  "drop_replica replica_id m = hdel replica_id m"

definition waiter_snapshot :: "durable_map \<Rightarrow> (string \<times> u64) list" where
  "waiter_snapshot m = sort_key fst m"

definition count_at_or_past :: "durable_map \<Rightarrow> u64 \<Rightarrow> nat" where
  "count_at_or_past m target_lsn = length (filter (\<lambda>lsn. lsn \<ge> target_lsn) (map snd m)) mod 2 ^ 32"

definition commit_watermark :: "durable_map \<Rightarrow> nat \<Rightarrow> u64" where
  "commit_watermark m required =
     (if required = 0 \<or> length m < required then 0 else rev (sort (map snd m)) ! (required - 1))"

definition record_outcome_metrics :: "bool \<Rightarrow> nat \<Rightarrow> commit_waiter_metrics \<Rightarrow> commit_waiter_metrics" where
  "record_outcome_metrics reached elapsed_ns w =
     (let w1 = w\<lparr>last_wait_micros := max (word_of_nat (elapsed_ns div 1000)) 1\<rparr> in
      if reached then w1\<lparr>reached_total := reached_total w1 + 1\<rparr> else w1\<lparr>timed_out_total := timed_out_total w1 + 1\<rparr>)"

subsection \<open>The loops\<close>

partial_function (option) await_loop ::
  "(nat \<Rightarrow> nat \<times> durable_map) \<Rightarrow> u64 \<Rightarrow> nat \<Rightarrow> nat \<Rightarrow> commit_waiter_metrics \<Rightarrow> nat \<Rightarrow> (await_outcome \<times> commit_waiter_metrics) option"
where
  "await_loop obs target_lsn required timeout w i =
     (let (elapsed, m) = obs i in
      if commit_watermark m required \<ge> target_lsn
      then Some (AwaitReached (count_at_or_past m target_lsn), record_outcome_metrics True elapsed w)
      else if elapsed \<ge> timeout
      then Some (AwaitTimedOut (count_at_or_past m target_lsn) required, record_outcome_metrics False elapsed w)
      else await_loop obs target_lsn required timeout w (Suc i))"

definition await_acks ::
  "(nat \<Rightarrow> nat \<times> durable_map) \<Rightarrow> u64 \<Rightarrow> nat \<Rightarrow> nat \<Rightarrow> commit_waiter_metrics \<Rightarrow> (await_outcome \<times> commit_waiter_metrics) option"
where
  "await_acks obs target_lsn required timeout w =
     (if required = 0 then Some (NotRequired, w\<lparr>not_required_total := not_required_total w + 1\<rparr>)
      else await_loop obs target_lsn required timeout w 0)"

partial_function (option) wait_loop :: "(nat \<Rightarrow> nat \<times> 's) \<Rightarrow> ('s \<Rightarrow> bool) \<Rightarrow> nat option \<Rightarrow> nat \<Rightarrow> bool option" where
  "wait_loop obs is_satisfied timeout i =
     (let (elapsed, s) = obs i in
      if is_satisfied s then Some True
      else case timeout of
          None \<Rightarrow> wait_loop obs is_satisfied timeout (Suc i)
        | Some limit \<Rightarrow> if elapsed \<ge> limit then Some False else wait_loop obs is_satisfied timeout (Suc i))"

definition wait_for_change_until :: "(nat \<Rightarrow> nat \<times> 's) \<Rightarrow> ('s \<Rightarrow> bool) \<Rightarrow> nat option \<Rightarrow> bool option" where
  "wait_for_change_until obs is_satisfied timeout = wait_loop obs is_satisfied timeout 0"

definition wait_for_commit_watermark :: "(nat \<Rightarrow> nat \<times> durable_map) \<Rightarrow> u64 \<Rightarrow> nat \<Rightarrow> nat option \<Rightarrow> bool option" where
  "wait_for_commit_watermark obs target_lsn required timeout =
     (if required = 0 then Some True else wait_loop obs (\<lambda>m. commit_watermark m required \<ge> target_lsn) timeout 0)"

subsection \<open>The watermark counts replicas\<close>

lemma sorted_nth_ge:
  assumes "sorted xs" and "k < length xs"
  shows "t \<le> rev xs ! k \<longleftrightarrow> k < length (filter (\<lambda>x. t \<le> x) xs)"
  using assms
proof (induction xs arbitrary: k rule: rev_induct)
  case (snoc x xs)
  have sorted: "sorted xs" and below: "\<forall>y \<in> set xs. y \<le> x" using snoc.prems(1) by (auto simp: sorted_append)
  show ?case
  proof (cases k)
    case 0
    have "\<not> t \<le> x \<Longrightarrow> filter (\<lambda>x. t \<le> x) xs = []" using below by (auto simp: filter_empty_conv)
    with 0 show ?thesis by (cases "t \<le> x") auto
  next
    case (Suc j)
    have "t \<le> y \<Longrightarrow> y \<in> set xs \<Longrightarrow> t \<le> x" for y using below by (meson order_trans)
    moreover have "rev xs ! j \<in> set xs" using snoc.prems(2) Suc by (metis Suc_less_eq length_append_singleton length_rev nth_mem set_rev)
    ultimately show ?thesis using snoc.IH [OF sorted, of j] snoc.prems(2) Suc by (cases "t \<le> x") auto
  qed
qed simp

definition acked_past :: "durable_map \<Rightarrow> u64 \<Rightarrow> string set" where
  "acked_past m t = {r. \<exists>l. hget m r = Some l \<and> t \<le> l}"

lemma card_acked_past: "hmap_wf m \<Longrightarrow> card (acked_past m t) = length (filter (\<lambda>l. t \<le> l) (map snd m))"
proof -
  assume wf: "hmap_wf m"
  have "acked_past m t = set (map fst (filter (\<lambda>p. t \<le> snd p) m))"
    unfolding acked_past_def using wf by (force simp: hmap_wf_map_of_eq [OF wf, symmetric])
  moreover have "distinct (map fst (filter (\<lambda>p. t \<le> snd p) m))" using wf by (simp add: hmap_wf_def distinct_map_filter)
  ultimately have "card (acked_past m t) = length (map fst (filter (\<lambda>p. t \<le> snd p) m))" by (simp only: distinct_card)
  then show ?thesis by (simp add: filter_map comp_def)
qed

lemma watermark_reached:
  assumes "hmap_wf m" and "0 < required" and "0 < t"
  shows "t \<le> commit_watermark m required \<longleftrightarrow> required \<le> card (acked_past m t)"
proof (cases "length m < required")
  case True
  have "card (acked_past m t) \<le> length m" using card_acked_past [OF assms(1)] length_filter_le by (metis length_map)
  with True assms show ?thesis by (simp add: commit_watermark_def leD)
next
  case False
  have "length (filter (\<lambda>l. t \<le> l) (sort (map snd m))) = card (acked_past m t)"
    using card_acked_past [OF assms(1), of t] by (simp add: filter_sort)
  with False assms sorted_nth_ge [of "sort (map snd m)" "required - 1" t] show ?thesis
    by (auto simp: commit_watermark_def)
qed

lemma ack_wf [simp]: "hmap_wf m \<Longrightarrow> hmap_wf (record_replica_ack r l m)" "hmap_wf m \<Longrightarrow> hmap_wf (drop_replica r m)"
  by (simp_all add: record_replica_ack_def drop_replica_def Let_def)

lemma hget_ack: "hget (record_replica_ack r l m) r' =
    (if r' = r then Some (case hget m r of Some l' \<Rightarrow> max l' l | None \<Rightarrow> l) else hget m r')"
  by (auto simp: record_replica_ack_def Let_def max_def word_gt_0 split: option.splits)

subsection \<open>The loops return\<close>

lemma wait_loop_step:
  "wait_loop obs is_satisfied timeout i =
     (if is_satisfied (snd (obs i)) then Some True
      else if (\<exists>limit. timeout = Some limit \<and> limit \<le> fst (obs i)) then Some False
      else wait_loop obs is_satisfied timeout (Suc i))"
  by (subst wait_loop.simps) (simp add: case_prod_unfold Let_def split: option.split)

lemma wait_loop_ends:
  assumes "is_satisfied (snd (obs k)) \<or> (\<exists>limit. timeout = Some limit \<and> limit \<le> fst (obs k))" and "i \<le> k"
  shows "\<exists>j \<ge> i. j \<le> k \<and> wait_loop obs is_satisfied timeout i = Some (is_satisfied (snd (obs j)))"
  using assms(2)
proof (induction i rule: inc_induct)
  case base
  show ?case using assms(1) by (intro exI [of _ k]) (subst wait_loop_step, auto)
next
  case (step i)
  then obtain j where j: "Suc i \<le> j" "j \<le> k" "wait_loop obs is_satisfied timeout (Suc i) = Some (is_satisfied (snd (obs j)))" by blast
  show ?case
  proof (cases "is_satisfied (snd (obs i)) \<or> (\<exists>limit. timeout = Some limit \<and> limit \<le> fst (obs i))")
    case True
    then have "wait_loop obs is_satisfied timeout i = Some (is_satisfied (snd (obs i)))" by (subst wait_loop_step) auto
    with step show ?thesis by (intro exI [of _ i]) simp
  next
    case False
    then have "wait_loop obs is_satisfied timeout i = wait_loop obs is_satisfied timeout (Suc i)" by (subst wait_loop_step) auto
    with j show ?thesis by (intro exI [of _ j]) simp
  qed
qed

lemma await_loop_step:
  "await_loop obs t n timeout w i =
     (if t \<le> commit_watermark (snd (obs i)) n \<or> timeout \<le> fst (obs i)
      then Some (if t \<le> commit_watermark (snd (obs i)) n then AwaitReached (count_at_or_past (snd (obs i)) t)
          else AwaitTimedOut (count_at_or_past (snd (obs i)) t) n,
        record_outcome_metrics (t \<le> commit_watermark (snd (obs i)) n) (fst (obs i)) w)
      else await_loop obs t n timeout w (Suc i))"
  by (subst await_loop.simps) (simp add: case_prod_unfold Let_def)

definition await_result :: "(nat \<Rightarrow> nat \<times> durable_map) \<Rightarrow> u64 \<Rightarrow> nat \<Rightarrow> nat \<Rightarrow> await_outcome" where
  "await_result obs t n j =
     (if t \<le> commit_watermark (snd (obs j)) n then AwaitReached (count_at_or_past (snd (obs j)) t)
      else AwaitTimedOut (count_at_or_past (snd (obs j)) t) n)"

lemma await_loop_result: "await_loop obs t n timeout w i = Some y \<Longrightarrow> \<exists>j. fst y = await_result obs t n j"
proof (erule await_loop.raw_induct [where P = "\<lambda>obs t n timeout w i y. \<exists>j. fst y = await_result obs t n j", rotated], goal_cases)
  case (1 loop obs t n timeout w i y)
  show ?case
  proof (cases "t \<le> commit_watermark (snd (obs i)) n \<or> timeout \<le> fst (obs i)")
    case True
    with 1(2) show ?thesis by (intro exI [of _ i]) (auto simp: await_result_def case_prod_unfold Let_def split: if_splits)
  next
    case False
    with 1(2) have "loop obs t n timeout w (Suc i) = Some y" by (simp add: case_prod_unfold Let_def)
    from 1(1) [OF this] show ?thesis .
  qed
qed

lemma await_loop_ends:
  assumes "timeout \<le> fst (obs k)" and "i \<le> k"
  shows "await_loop obs t n timeout w i \<noteq> None"
  using assms(2)
proof (induction i rule: inc_induct)
  case base
  show ?case using assms(1) by (subst await_loop_step) simp
next
  case (step i)
  then show ?case by (subst await_loop_step) simp
qed

lemma wait_loop_reached: "wait_loop obs P timeout i = Some b \<Longrightarrow> b \<longrightarrow> (\<exists>j. P (snd (obs j)))"
proof (erule wait_loop.raw_induct [where P = "\<lambda>obs P timeout i b. b \<longrightarrow> (\<exists>j. P (snd (obs j)))", rotated], goal_cases)
  case (1 loop obs P timeout i b)
  show ?case
  proof (cases "P (snd (obs i))")
    case False
    with 1(2) have "b \<longrightarrow> loop obs P timeout (Suc i) = Some b" by (auto simp: case_prod_unfold Let_def split: option.splits if_splits)
    with 1(1) show ?thesis by blast
  qed auto
qed

end
