(* ===== verification/Primary_Replication.thy ===== *)
theory Primary_Replication
  imports Wal_Spool Commit_Waiter Ordered_Map
begin

section \<open>The primary's replication state\<close>

text \<open>
  The second part of \<open>src/crates/reddb-server/src/replication/primary.rs\<close>, with the slots of
  \<open>src/crates/reddb-file/src/primary_replica/slots.rs\<close>: the registry of replicas, the replication slots that hold the
  log back for them, retention limits, pruning, and the decision how a replica resumes. The state holds the
  outcomes of the coming writes of the slot catalog; an exhausted list is success. Each operation takes the
  time it reads. Parts that only add copies of the records elsewhere (the primary-replica segment files) and
  the wake-up of long polls are left out.
\<close>

definition sat_sub :: "u64 \<Rightarrow> u64 \<Rightarrow> u64" where
  "sat_sub a b = (if b \<le> a then a - b else 0)"

definition sat_succ :: "u64 \<Rightarrow> u64" where
  "sat_succ a = (if a = - 1 then a else a + 1)"

lemma sat_succ_le:
  assumes "\<not> sat_succ a < y" and "x < y"
  shows "x \<le> a"
proof (cases "a = - 1")
  case False
  then have "1 + a \<noteq> 0" by (metis add.commute add_eq_0_iff)
  from unatSuc [OF this] False have "unat (sat_succ a) = Suc (unat a)" by (simp add: sat_succ_def add.commute)
  with assms show ?thesis by (simp add: word_less_nat_alt word_le_nat_alt)
qed simp

subsection \<open>Slots and replicas\<close>

datatype slot_invalidation_cause = WalRemoved | Horizon | IdleTimeout

record replication_slot =
  slot_replica_id :: string
  slot_timeline :: u64
  slot_restart_lsn :: u64
  slot_confirmed_write_lsn :: u64
  slot_confirmed_flush_lsn :: u64
  slot_confirmed_apply_lsn :: u64
  slot_active :: bool
  slot_last_seen_ms :: nat
  slot_invalidation_reason :: "slot_invalidation_cause option"
  slot_invalidated_at_ms :: "nat option"

definition timeline_initial :: u64 where
  "timeline_initial = 1"

definition slot_new :: "string \<Rightarrow> u64 \<Rightarrow> u64 \<Rightarrow> replication_slot" where
  "slot_new replica_id timeline restart_lsn =
     \<lparr>slot_replica_id = replica_id, slot_timeline = timeline, slot_restart_lsn = restart_lsn,
      slot_confirmed_write_lsn = restart_lsn, slot_confirmed_flush_lsn = restart_lsn, slot_confirmed_apply_lsn = restart_lsn,
      slot_active = True, slot_last_seen_ms = 0, slot_invalidation_reason = None, slot_invalidated_at_ms = None\<rparr>"

definition slot_confirmed_lsn :: "replication_slot \<Rightarrow> u64" where
  "slot_confirmed_lsn s = max (max (slot_confirmed_write_lsn s) (slot_confirmed_flush_lsn s)) (slot_confirmed_apply_lsn s)"

record replica_state =
  rs_id :: string
  rs_last_acked_lsn :: u64
  rs_last_sent_lsn :: u64
  rs_last_durable_lsn :: u64
  rs_apply_error_count :: u64
  rs_divergence_count :: u64
  rs_connected_at_ms :: nat
  rs_last_seen_ms :: nat
  rs_region :: "string option"
  rs_rebootstrapping :: bool

datatype resume_mode = PartialResync u64 | FullRebootstrap slot_invalidation_cause

record primary_replication =
  pr_buffer :: wal_buffer
  pr_spool :: "logical_wal_spool option"
  pr_replicas :: "replica_state list"
  pr_slots :: "(string, replication_slot) bmap"
  pr_metadata_store :: bool
  pr_metadata_error :: "string option"
  pr_persist_results :: "string option list"
  pr_max_lag_lsn :: u64
  pr_idle_timeout_ms :: nat
  pr_waiter :: durable_map
  pr_topology_epoch :: u64
  pr_partial_resyncs :: u64
  pr_full_resyncs :: u64

definition replication_progress :: "replica_state list \<Rightarrow> (u64 \<times> u64) option" where
  "replication_progress replicas =
     (case replicas of
        [] \<Rightarrow> None
      | _ \<Rightarrow> Some (sat_sub (Max (set (map rs_last_sent_lsn replicas))) (Min (set (map rs_last_acked_lsn replicas))),
                  Min (set (map rs_last_durable_lsn replicas))))"

definition current_logical_lsn :: "primary_replication \<Rightarrow> u64" where
  "current_logical_lsn p = (case pr_spool p of Some sp \<Rightarrow> sp_current_lsn sp | None \<Rightarrow> wb_current_lsn (pr_buffer p))"

text \<open>A failed append to the spool is dropped without notice.\<close>

definition append_logical_record ::
  "(bytes \<Rightarrow> u32) \<Rightarrow> authority_of \<Rightarrow> write_outcome \<Rightarrow> u64 \<Rightarrow> u64 \<Rightarrow> bytes \<Rightarrow> primary_replication \<Rightarrow> primary_replication" where
  "append_logical_record crc authority outcome timestamp_ms lsn encoded p =
     p\<lparr>pr_buffer := buffer_append lsn encoded (pr_buffer p),
       pr_spool := map_option (\<lambda>sp. snd (append_with_timestamp crc authority outcome lsn timestamp_ms encoded sp)) (pr_spool p)\<rparr>"

definition bump_topology_epoch :: "primary_replication \<Rightarrow> primary_replication" where
  "bump_topology_epoch p = p\<lparr>pr_topology_epoch := pr_topology_epoch p + 1\<rparr>"

definition persist_slots_locked :: "primary_replication \<Rightarrow> primary_replication" where
  "persist_slots_locked p =
     (case pr_persist_results p of
        [] \<Rightarrow> if pr_metadata_store p then p\<lparr>pr_metadata_error := None\<rparr> else p
      | r # rs \<Rightarrow> if pr_metadata_store p then p\<lparr>pr_persist_results := rs, pr_metadata_error := r\<rparr> else p\<lparr>pr_persist_results := rs\<rparr>)"

definition put_slot :: "string \<Rightarrow> replication_slot \<Rightarrow> primary_replication \<Rightarrow> primary_replication" where
  "put_slot i s p = p\<lparr>pr_slots := bput i s (pr_slots p)\<rparr>"

definition ensure_slot :: "nat \<Rightarrow> string \<Rightarrow> u64 \<Rightarrow> primary_replication \<Rightarrow> u64 \<times> primary_replication" where
  "ensure_slot now_ms i initial_lsn p =
     (case map_of (pr_slots p) i of
        Some s \<Rightarrow> (slot_restart_lsn s, persist_slots_locked (put_slot i (s\<lparr>slot_last_seen_ms := now_ms\<rparr>) p))
      | None \<Rightarrow>
          (initial_lsn, persist_slots_locked
             (put_slot i ((slot_new i timeline_initial initial_lsn)\<lparr>slot_last_seen_ms := now_ms\<rparr>) p)))"

definition advance_slot :: "nat \<Rightarrow> string \<Rightarrow> u64 \<Rightarrow> u64 \<Rightarrow> primary_replication \<Rightarrow> primary_replication" where
  "advance_slot now_ms i confirmed_lsn restart_lsn p =
     (let s = (case map_of (pr_slots p) i of
                 Some s \<Rightarrow> s | None \<Rightarrow> (slot_new i timeline_initial 0)\<lparr>slot_last_seen_ms := now_ms\<rparr>) in
      if slot_invalidation_reason s \<noteq> None then put_slot i s p
      else
        (let restart = max (slot_restart_lsn s) restart_lsn in
         persist_slots_locked (put_slot i
           (s\<lparr>slot_confirmed_write_lsn := max (max (slot_confirmed_lsn s) confirmed_lsn) restart_lsn, slot_restart_lsn := restart,
             slot_confirmed_flush_lsn := max (slot_confirmed_flush_lsn s) restart,
             slot_confirmed_apply_lsn := max (slot_confirmed_apply_lsn s) restart, slot_last_seen_ms := now_ms\<rparr>) p)))"

definition touch_slot :: "nat \<Rightarrow> string \<Rightarrow> primary_replication \<Rightarrow> primary_replication" where
  "touch_slot now_ms i p =
     (case map_of (pr_slots p) i of
        Some s \<Rightarrow> if slot_invalidation_reason s = None then persist_slots_locked (put_slot i (s\<lparr>slot_last_seen_ms := now_ms\<rparr>) p) else p
      | None \<Rightarrow> p)"

subsection \<open>The registry\<close>

text \<open>The registry is updated at the first entry with the id, as \<open>iter_mut().find\<close> finds it.\<close>

fun update_replica :: "string \<Rightarrow> (replica_state \<Rightarrow> replica_state) \<Rightarrow> replica_state list \<Rightarrow> replica_state list" where
  "update_replica i f [] = []"
| "update_replica i f (r # rs) = (if rs_id r = i then f r # rs else r # update_replica i f rs)"

definition register_replica_with_region_at ::
  "nat \<Rightarrow> string \<Rightarrow> string option \<Rightarrow> u64 \<Rightarrow> primary_replication \<Rightarrow> u64 \<times> primary_replication" where
  "register_replica_with_region_at now_ms i region initial_lsn p =
     (let (resume_lsn, p1) = ensure_slot now_ms i initial_lsn p in
      if \<exists>r \<in> set (pr_replicas p1). rs_id r = i
      then (resume_lsn, p1\<lparr>pr_replicas := update_replica i
              (\<lambda>r. r\<lparr>rs_last_seen_ms := now_ms, rs_region := (if region \<noteq> None then region else rs_region r)\<rparr>) (pr_replicas p1)\<rparr>)
      else (resume_lsn, bump_topology_epoch (p1\<lparr>pr_replicas := pr_replicas p1 @
              [\<lparr>rs_id = i, rs_last_acked_lsn = resume_lsn, rs_last_sent_lsn = resume_lsn, rs_last_durable_lsn = resume_lsn,
                rs_apply_error_count = 0, rs_divergence_count = 0, rs_connected_at_ms = now_ms, rs_last_seen_ms = now_ms,
                rs_region = region, rs_rebootstrapping = False\<rparr>]\<rparr>)))"

definition register_replica_with_region :: "nat \<Rightarrow> string \<Rightarrow> string option \<Rightarrow> primary_replication \<Rightarrow> u64 \<times> primary_replication" where
  "register_replica_with_region now_ms i region p = register_replica_with_region_at now_ms i region (current_logical_lsn p) p"

definition register_replica :: "nat \<Rightarrow> string \<Rightarrow> primary_replication \<Rightarrow> u64 \<times> primary_replication" where
  "register_replica now_ms i p = register_replica_with_region now_ms i None p"

definition ensure_replica_registered :: "nat \<Rightarrow> string \<Rightarrow> u64 \<Rightarrow> primary_replication \<Rightarrow> bool \<times> primary_replication" where
  "ensure_replica_registered now_ms i requested_since_lsn p =
     (if \<exists>r \<in> set (pr_replicas p). rs_id r = i then (False, p)
      else (True, snd (register_replica_with_region_at now_ms i None requested_since_lsn p)))"

definition set_replica_rebootstrapping :: "string \<Rightarrow> bool \<Rightarrow> primary_replication \<Rightarrow> bool \<times> primary_replication" where
  "set_replica_rebootstrapping i rebootstrapping p =
     (case find (\<lambda>r. rs_id r = i) (pr_replicas p) of
        None \<Rightarrow> (False, p)
      | Some r \<Rightarrow>
          if rs_rebootstrapping r = rebootstrapping then (True, p)
          else (True, bump_topology_epoch (p\<lparr>pr_replicas :=
                 update_replica i (\<lambda>r. r\<lparr>rs_rebootstrapping := rebootstrapping\<rparr>) (pr_replicas p)\<rparr>)))"

definition unregister_replica :: "string \<Rightarrow> primary_replication \<Rightarrow> bool \<times> primary_replication" where
  "unregister_replica i p =
     (let kept = filter (\<lambda>r. rs_id r \<noteq> i) (pr_replicas p) in
      if length kept \<noteq> length (pr_replicas p)
      then (True, bump_topology_epoch (p\<lparr>pr_replicas := kept, pr_waiter := drop_replica i (pr_waiter p)\<rparr>))
      else (False, p))"

definition ack_replica :: "nat \<Rightarrow> string \<Rightarrow> u64 \<Rightarrow> primary_replication \<Rightarrow> primary_replication" where
  "ack_replica now_ms i lsn p =
     p\<lparr>pr_replicas := update_replica i (\<lambda>r. r\<lparr>rs_last_acked_lsn := max (rs_last_acked_lsn r) lsn, rs_last_durable_lsn := max (rs_last_durable_lsn r) lsn,
                 rs_last_seen_ms := now_ms\<rparr>) (pr_replicas p),
       pr_waiter := record_replica_ack i lsn (pr_waiter p)\<rparr>"

definition ack_replica_lsn_with_observability ::
  "nat \<Rightarrow> string \<Rightarrow> u64 \<Rightarrow> u64 \<Rightarrow> u64 \<Rightarrow> u64 \<Rightarrow> primary_replication \<Rightarrow> primary_replication" where
  "ack_replica_lsn_with_observability now_ms i applied_lsn durable_lsn apply_error_count divergence_count p =
     (let p1 = advance_slot now_ms i applied_lsn durable_lsn p in
      p1\<lparr>pr_replicas := update_replica i (\<lambda>r. r\<lparr>rs_last_acked_lsn := max (rs_last_acked_lsn r) applied_lsn, rs_last_durable_lsn := max (rs_last_durable_lsn r) durable_lsn,
                 rs_apply_error_count := max (rs_apply_error_count r) apply_error_count,
                 rs_divergence_count := max (rs_divergence_count r) divergence_count, rs_last_seen_ms := now_ms\<rparr>) (pr_replicas p1),
        pr_waiter := record_replica_ack i durable_lsn (pr_waiter p1)\<rparr>)"

definition note_replica_pull :: "nat \<Rightarrow> string \<Rightarrow> u64 \<Rightarrow> primary_replication \<Rightarrow> primary_replication" where
  "note_replica_pull now_ms i last_sent_lsn p =
     (let p1 = touch_slot now_ms i p in
      p1\<lparr>pr_replicas := update_replica i (\<lambda>r. r\<lparr>rs_last_sent_lsn := max (rs_last_sent_lsn r) last_sent_lsn, rs_last_seen_ms := now_ms\<rparr>) (pr_replicas p1)\<rparr>)"

subsection \<open>Retention\<close>

definition valid_slots :: "primary_replication \<Rightarrow> replication_slot list" where
  "valid_slots p = filter (\<lambda>s. slot_invalidation_reason s = None) (map snd (pr_slots p))"

definition retention_floor_lsn :: "primary_replication \<Rightarrow> u64 option" where
  "retention_floor_lsn p =
     (if pr_metadata_error p \<noteq> None then Some 0
      else if valid_slots p = [] then None else Some (Min (set (map slot_restart_lsn (valid_slots p)))))"

definition retention_reason :: "u64 \<Rightarrow> nat \<Rightarrow> u64 \<Rightarrow> nat \<Rightarrow> replication_slot \<Rightarrow> slot_invalidation_cause option" where
  "retention_reason max_lag idle_ms current_lsn now_ms s =
     (if slot_invalidation_reason s \<noteq> None then None
      else if max_lag > 0 \<and> sat_sub current_lsn (slot_restart_lsn s) > max_lag then Some Horizon
      else if idle_ms > 0 \<and> now_ms - slot_last_seen_ms s > idle_ms then Some IdleTimeout
      else None)"

definition invalidate_slot :: "nat \<Rightarrow> slot_invalidation_cause option \<Rightarrow> replication_slot \<Rightarrow> replication_slot" where
  "invalidate_slot now_ms reason s =
     (case reason of Some r \<Rightarrow> s\<lparr>slot_invalidation_reason := Some r, slot_invalidated_at_ms := Some now_ms\<rparr> | None \<Rightarrow> s)"

definition enforce_retention_limits ::
  "nat \<Rightarrow> primary_replication \<Rightarrow> (string \<times> slot_invalidation_cause) list \<times> primary_replication" where
  "enforce_retention_limits now_ms p =
     (let reason = retention_reason (pr_max_lag_lsn p) (pr_idle_timeout_ms p) (current_logical_lsn p) now_ms;
          invalidated = concat (map (\<lambda>(_, s). case reason s of Some r \<Rightarrow> [(slot_replica_id s, r)] | None \<Rightarrow> []) (pr_slots p));
          p1 = p\<lparr>pr_slots := map (\<lambda>(i, s). (i, invalidate_slot now_ms (reason s) s)) (pr_slots p)\<rparr> in
      (invalidated, if invalidated \<noteq> [] then persist_slots_locked p1 else p1))"

definition log_prune ::
  "(bytes \<Rightarrow> u32) \<Rightarrow> authority_of \<Rightarrow> u64 \<Rightarrow> u64 \<Rightarrow> primary_replication \<Rightarrow> (spool_error + unit) \<times> primary_replication" where
  "log_prune crc authority now prune_lsn p =
     (case pr_spool p of
        Some sp \<Rightarrow>
          (case spool_prune_through crc authority now prune_lsn sp of
             (Inl e, sp') \<Rightarrow> (Inl e, p\<lparr>pr_spool := Some sp'\<rparr>)
           | (Inr _, sp') \<Rightarrow> (Inr (), p\<lparr>pr_spool := Some sp', pr_buffer := buffer_prune_through prune_lsn (pr_buffer p)\<rparr>))
      | None \<Rightarrow> (Inr (), p\<lparr>pr_buffer := buffer_prune_through prune_lsn (pr_buffer p)\<rparr>))"

definition prune_retained_wal_through ::
  "(bytes \<Rightarrow> u32) \<Rightarrow> authority_of \<Rightarrow> nat \<Rightarrow> u64 \<Rightarrow> primary_replication \<Rightarrow> (spool_error + u64) \<times> primary_replication" where
  "prune_retained_wal_through crc authority now_ms archived_lsn p =
     (let p1 = snd (enforce_retention_limits now_ms p);
          prune_lsn = (case retention_floor_lsn p1 of Some floor \<Rightarrow> min floor archived_lsn | None \<Rightarrow> archived_lsn) in
      if prune_lsn > 0 then
        (case log_prune crc authority (word_of_nat now_ms) prune_lsn p1 of
           (Inl e, p2) \<Rightarrow> (Inl e, p2)
         | (Inr _, p2) \<Rightarrow> (Inr prune_lsn, p2))
      else (Inr prune_lsn, p1))"

subsection \<open>Serving a pull\<close>

definition slot_rebootstrap_reason ::
  "nat \<Rightarrow> string \<Rightarrow> u64 \<Rightarrow> u64 option \<Rightarrow> primary_replication \<Rightarrow> slot_invalidation_cause option \<times> primary_replication" where
  "slot_rebootstrap_reason now_ms i requested_since_lsn oldest_available_lsn p =
     (case map_of (pr_slots p) i of
        None \<Rightarrow> (None, p)
      | Some s \<Rightarrow>
          (case slot_invalidation_reason s of
             Some reason \<Rightarrow> (Some reason, p)
           | None \<Rightarrow>
               (let slot_floor = max (slot_restart_lsn s) requested_since_lsn in
                if (case oldest_available_lsn of Some oldest \<Rightarrow> oldest > sat_succ slot_floor | None \<Rightarrow> False)
                then (Some WalRemoved, persist_slots_locked
                        (put_slot i (s\<lparr>slot_invalidation_reason := Some WalRemoved, slot_invalidated_at_ms := Some now_ms\<rparr>) p))
                else (None, p))))"

definition plan_replica_resume ::
  "nat \<Rightarrow> string \<Rightarrow> u64 \<Rightarrow> u64 option \<Rightarrow> primary_replication \<Rightarrow> resume_mode \<times> primary_replication" where
  "plan_replica_resume now_ms i requested_since_lsn oldest_available_lsn p =
     (case slot_rebootstrap_reason now_ms i requested_since_lsn oldest_available_lsn p of
        (Some cause, p1) \<Rightarrow> (FullRebootstrap cause, p1\<lparr>pr_full_resyncs := pr_full_resyncs p1 + 1\<rparr>)
      | (None, p1) \<Rightarrow>
          (let resume_lsn = (case find (\<lambda>s. slot_replica_id s = i) (map snd (pr_slots p1)) of
                 Some s \<Rightarrow> max requested_since_lsn (slot_restart_lsn s) | None \<Rightarrow> requested_since_lsn) in
           (PartialResync resume_lsn, p1\<lparr>pr_partial_resyncs := pr_partial_resyncs p1 + 1\<rparr>)))"

text \<open>The pull handler of \<open>src/crates/reddb-server/src/grpc/service_impl.rs\<close>: planning, then, possibly after waiting for new records, reading.\<close>

definition oldest_available :: "(bytes \<Rightarrow> u32) \<Rightarrow> primary_replication \<Rightarrow> u64 option \<times> primary_replication" where
  "oldest_available crc p =
     (case pr_spool p of
        Some sp \<Rightarrow>
          (case spool_oldest_lsn crc sp of
             (Some l, sp') \<Rightarrow> (Some l, p\<lparr>pr_spool := Some sp'\<rparr>)
           | (None, sp') \<Rightarrow> (buffer_oldest_lsn (pr_buffer p), p\<lparr>pr_spool := Some sp'\<rparr>))
      | None \<Rightarrow> (buffer_oldest_lsn (pr_buffer p), p))"

definition pull_plan :: "(bytes \<Rightarrow> u32) \<Rightarrow> nat \<Rightarrow> string \<Rightarrow> u64 \<Rightarrow> primary_replication \<Rightarrow> resume_mode \<times> primary_replication" where
  "pull_plan crc now_ms replica_id since_lsn p =
     (let (oldest_available_lsn, p0) = oldest_available crc p;
          p1 = snd (ensure_replica_registered now_ms replica_id since_lsn p0) in
      plan_replica_resume now_ms replica_id since_lsn oldest_available_lsn p1)"

definition log_since ::
  "(bytes \<Rightarrow> u32) \<Rightarrow> authority_of \<Rightarrow> restamp_with \<Rightarrow> u64 \<Rightarrow> nat \<Rightarrow> primary_replication \<Rightarrow> (u64 \<times> bytes) list" where
  "log_since crc authority restamp since_lsn max_count p =
     (case pr_spool p of
        Some sp \<Rightarrow> spool_read_since crc authority restamp since_lsn max_count sp
      | None \<Rightarrow> read_since_shared since_lsn max_count (pr_buffer p))"

definition pull_read ::
  "(bytes \<Rightarrow> u32) \<Rightarrow> authority_of \<Rightarrow> restamp_with \<Rightarrow> nat \<Rightarrow> string \<Rightarrow> u64 \<Rightarrow> nat \<Rightarrow> primary_replication \<Rightarrow>
   (u64 \<times> bytes) list \<times> primary_replication" where
  "pull_read crc authority restamp now_ms replica_id since_lsn max_count p =
     (let records = log_since crc authority restamp since_lsn max_count p;
          max_sent_lsn = fold (\<lambda>(lsn, _) sent. if lsn > sent then lsn else sent) records since_lsn in
      (records, note_replica_pull now_ms replica_id max_sent_lsn p))"

subsection \<open>The primary's log is a log\<close>

text \<open>
  Buffer and spool together meet the contract of a log, with the spool in charge when there is one: the
  buffer then holds only numbers the spool holds. \<open>b\<close> says whether there is a spool.
\<close>

definition log_recs :: "(bytes \<Rightarrow> u32) \<Rightarrow> authority_of \<Rightarrow> restamp_with \<Rightarrow> primary_replication \<Rightarrow> (u64 \<times> bytes) list" where
  "log_recs crc authority restamp p =
     (case pr_spool p of Some sp \<Rightarrow> spool_recs crc authority restamp sp | None \<Rightarrow> wb_records (pr_buffer p))"

definition log_valid :: "(bytes \<Rightarrow> u32) \<Rightarrow> authority_of \<Rightarrow> restamp_with \<Rightarrow> bool \<Rightarrow> primary_replication \<Rightarrow> bool" where
  "log_valid crc authority restamp b p \<longleftrightarrow>
     (case pr_spool p of
        Some sp \<Rightarrow> b \<and> spool_valid crc sp \<and> sorted_wrt (<) (map fst (wb_records (pr_buffer p))) \<and>
          fst ` set (wb_records (pr_buffer p)) \<subseteq> fst ` set (spool_recs crc authority restamp sp)
      | None \<Rightarrow> \<not> b \<and> buffer_valid (pr_buffer p))"

definition log_served :: "authority_of \<Rightarrow> restamp_with \<Rightarrow> bool \<Rightarrow> bytes \<Rightarrow> bytes" where
  "log_served authority restamp b d = (if b then spool_served authority restamp d else d)"

definition log_fits :: "bool \<Rightarrow> bytes \<Rightarrow> bool" where
  "log_fits b d \<longleftrightarrow> b \<longrightarrow> length d \<le> max_plausible_payload"

lemma spool_prune_ok: "spool_valid crc sp \<Longrightarrow> spool_prune_through crc authority now l sp = (Inr (), spool_prune crc authority now l sp)"
proof -
  assume "spool_valid crc sp"
  then obtain fs where "spool_wf crc fs sp" by (auto simp: spool_valid_def)
  from prune_wf [OF this refl, of authority now l] show ?thesis by (auto simp: spool_prune_def)
qed

lemma spool_app_eq: "snd (append_with_timestamp crc authority WriteDone l ts d sp) = spool_append crc authority ts l d sp"
  by (simp add: spool_append_def)

lemmas log_defs = log_recs_def log_valid_def log_served_def log_fits_def current_logical_lsn_def append_logical_record_def
  log_prune_def log_since_def oldest_available_def

lemma log_sorted:
  assumes "log_valid crc authority restamp b p"
  shows "sorted_wrt (<) (map fst (log_recs crc authority restamp p))"
    and "(l, d) \<in> set (log_recs crc authority restamp p) \<Longrightarrow> l \<le> current_logical_lsn p"
  using assms spool.recs_sorted [of crc] buffer.recs_sorted spool.recs_head [of crc] buffer.recs_head
  by (auto simp: log_defs split: option.splits)

lemma log_append:
  assumes "log_valid crc authority restamp b p" and "current_logical_lsn p < l" and "log_fits b d"
    and p': "p' = append_logical_record crc authority WriteDone ts l d p"
  shows "log_valid crc authority restamp b p' \<and>
    log_recs crc authority restamp p' = log_recs crc authority restamp p @ [(l, log_served authority restamp b d)] \<and>
    current_logical_lsn p' = l"
proof (cases "pr_spool p")
  case None
  with assms(1-3) have "buffer_valid (pr_buffer p)" "wb_current_lsn (pr_buffer p) < l" "\<not> b" by (simp_all add: log_defs)
  with None show ?thesis by (simp add: p' log_defs buffer.app_valid buffer.app_recs buffer.app_head)
next
  case (Some sp)
  with assms(1-3) have v: "spool_valid crc sp" "sp_current_lsn sp < l" "length d \<le> max_plausible_payload" "b"
    and srt: "sorted_wrt (<) (map fst (wb_records (pr_buffer p)))"
    and sub: "fst ` set (wb_records (pr_buffer p)) \<subseteq> fst ` set (spool_recs crc authority restamp sp)"
    by (simp_all add: log_defs)
  have "fst r < l" if r: "r \<in> set (wb_records (pr_buffer p))" for r
  proof -
    obtain e where "(fst r, e) \<in> set (spool_recs crc authority restamp sp)" using sub r by force
    from spool.recs_head [OF v(1) this] v(2) show ?thesis by order
  qed
  then have "sorted_wrt (<) (map fst (wb_records (buffer_append l d (pr_buffer p))))"
    using srt by (auto simp: buffer_append_def sorted_wrt_append)
  moreover have "set (wb_records (buffer_append l d (pr_buffer p))) = insert (l, d) (set (wb_records (pr_buffer p)))"
    by (auto simp: buffer_append_def)
  ultimately show ?thesis
    using sub v Some by (auto simp: p' log_defs spool_app_eq spool.app_valid spool.app_recs spool.app_head)
qed

lemma buffer_prune_records:
  "sorted_wrt (<) (map fst (wb_records c)) \<Longrightarrow> wb_records (buffer_prune_through l c) = filter (\<lambda>r. l < fst r) (wb_records c)"
  by (simp add: buffer_prune_through_def case_prod_unfold dropWhile_sorted)

lemma log_prune_step:
  assumes "log_valid crc authority restamp b p"
    and p': "p' = snd (log_prune crc authority now l p)"
  shows "fst (log_prune crc authority now l p) = Inr ()" and "log_valid crc authority restamp b p'"
    and "log_recs crc authority restamp p' = filter (\<lambda>r. l < fst r) (log_recs crc authority restamp p)"
    and "current_logical_lsn p \<le> current_logical_lsn p'"
proof -
  have "fst (log_prune crc authority now l p) = Inr () \<and> log_valid crc authority restamp b p' \<and>
    log_recs crc authority restamp p' = filter (\<lambda>r. l < fst r) (log_recs crc authority restamp p) \<and>
    current_logical_lsn p \<le> current_logical_lsn p'"
  proof (cases "pr_spool p")
    case None
    with assms(1) show ?thesis by (simp add: p' log_defs buffer.prune_valid buffer.prune_recs buffer.prune_head)
  next
    case (Some sp)
    with assms(1) have v: "spool_valid crc sp" "b" and srt: "sorted_wrt (<) (map fst (wb_records (pr_buffer p)))"
      and sub: "fst ` set (wb_records (pr_buffer p)) \<subseteq> fst ` set (spool_recs crc authority restamp sp)"
      by (simp_all add: log_defs)
    have "fst ` set (filter (\<lambda>r. l < fst r) (wb_records (pr_buffer p))) \<subseteq> fst ` set (filter (\<lambda>r. l < fst r) (spool_recs crc authority restamp sp))"
      using sub by force
    with v srt Some show ?thesis
      by (simp add: p' log_defs spool_prune_ok spool.prune_valid spool.prune_recs spool.prune_head buffer_prune_records sorted_wrt_map_filter)
  qed
  then show "fst (log_prune crc authority now l p) = Inr ()" "log_valid crc authority restamp b p'"
    "log_recs crc authority restamp p' = filter (\<lambda>r. l < fst r) (log_recs crc authority restamp p)"
    "current_logical_lsn p \<le> current_logical_lsn p'" by blast+
qed

lemma log_since_recs:
  "log_valid crc authority restamp b p \<Longrightarrow>
   log_since crc authority restamp l n p = take n (filter (\<lambda>r. l < fst r) (log_recs crc authority restamp p))"
  by (auto simp: log_defs spool.since_recs buffer.since_recs split: option.splits)

lemma log_oldest_recs:
  assumes "log_valid crc authority restamp b p"
  shows "oldest_available crc p = (case log_recs crc authority restamp p of [] \<Rightarrow> None | r # _ \<Rightarrow> Some (fst r), p)"
proof (cases "pr_spool p")
  case None
  with assms buffer.oldest_recs show ?thesis by (simp add: log_defs)
next
  case (Some sp)
  with assms have v: "spool_valid crc sp" and sub: "fst ` set (wb_records (pr_buffer p)) \<subseteq> fst ` set (spool_recs crc authority restamp sp)"
    by (simp_all add: log_defs)
  note spool_valid_oldest [OF v, of authority restamp]
  moreover have "p\<lparr>pr_spool := Some sp\<rparr> = p" using Some by (cases p) simp
  moreover have "spool_recs crc authority restamp sp = [] \<Longrightarrow> buffer_oldest_lsn (pr_buffer p) = None"
    using sub by (simp add: buffer_oldest_lsn_def)
  ultimately show ?thesis using Some by (auto simp: log_defs split: list.splits)
qed

interpretation plog: wal_source "log_recs crc authority restamp" "log_valid crc authority restamp b" current_logical_lsn
  "append_logical_record crc authority WriteDone" "\<lambda>now l p. snd (log_prune crc authority now l p)"
  "log_since crc authority restamp" "\<lambda>p. fst (oldest_available crc p)" "log_served authority restamp b" "log_fits b"
  for crc authority restamp b
  by unfold_locales
    (simp_all add: log_sorted log_append [OF _ _ _ refl] log_prune_step [OF _ refl] log_since_recs log_oldest_recs [of crc authority restamp b])

subsection \<open>Runs\<close>

text \<open>
  The calls a primary gets, in any order and number: appends of new records, registrations, acknowledgements,
  pulls, retention checks and prunes. A run is admissible when appended numbers ascend, payloads fit the log,
  and prunes are asked for numbers the log has reached.
\<close>

datatype primary_op =
    PAppend u64 u64 bytes
  | PRegister nat string "string option"
  | PRebootstrapping string bool
  | PUnregister string
  | PAck nat string u64
  | PAckLsn nat string u64 u64 u64 u64
  | PPlan nat string u64
  | PNotePull nat string u64
  | PRetention nat
  | PPrune nat u64

fun primary_do :: "(bytes \<Rightarrow> u32) \<Rightarrow> authority_of \<Rightarrow> primary_op \<Rightarrow> primary_replication \<Rightarrow> primary_replication" where
  "primary_do crc authority (PAppend ts l d) p = append_logical_record crc authority WriteDone ts l d p"
| "primary_do crc authority (PRegister now i region) p = snd (register_replica_with_region now i region p)"
| "primary_do crc authority (PRebootstrapping i f) p = snd (set_replica_rebootstrapping i f p)"
| "primary_do crc authority (PUnregister i) p = snd (unregister_replica i p)"
| "primary_do crc authority (PAck now i l) p = ack_replica now i l p"
| "primary_do crc authority (PAckLsn now i applied durable errors divergences) p =
     ack_replica_lsn_with_observability now i applied durable errors divergences p"
| "primary_do crc authority (PPlan now i since) p = snd (pull_plan crc now i since p)"
| "primary_do crc authority (PNotePull now i sent) p = note_replica_pull now i sent p"
| "primary_do crc authority (PRetention now) p = snd (enforce_retention_limits now p)"
| "primary_do crc authority (PPrune now archived) p = snd (prune_retained_wal_through crc authority now archived p)"

definition primary_run :: "(bytes \<Rightarrow> u32) \<Rightarrow> authority_of \<Rightarrow> primary_op list \<Rightarrow> primary_replication \<Rightarrow> primary_replication" where
  "primary_run crc authority ops p = fold (primary_do crc authority) ops p"

fun op_ok :: "bool \<Rightarrow> primary_op \<Rightarrow> primary_replication \<Rightarrow> bool" where
  "op_ok b (PAppend ts l d) p \<longleftrightarrow> current_logical_lsn p < l \<and> log_fits b d"
| "op_ok b (PPrune now archived) p \<longleftrightarrow> archived \<le> current_logical_lsn p"
| "op_ok b op p \<longleftrightarrow> True"

fun run_ok :: "(bytes \<Rightarrow> u32) \<Rightarrow> authority_of \<Rightarrow> bool \<Rightarrow> primary_op list \<Rightarrow> primary_replication \<Rightarrow> bool" where
  "run_ok crc authority b [] p \<longleftrightarrow> True"
| "run_ok crc authority b (op # ops) p \<longleftrightarrow> op_ok b op p \<and> run_ok crc authority b ops (primary_do crc authority op p)"

fun op_hist :: "authority_of \<Rightarrow> restamp_with \<Rightarrow> bool \<Rightarrow> primary_op \<Rightarrow> (u64 \<times> bytes) list" where
  "op_hist authority restamp b (PAppend ts l d) = [(l, log_served authority restamp b d)]"
| "op_hist authority restamp b op = []"

definition ops_hist :: "authority_of \<Rightarrow> restamp_with \<Rightarrow> bool \<Rightarrow> primary_op list \<Rightarrow> (u64 \<times> bytes) list" where
  "ops_hist authority restamp b ops = concat (map (op_hist authority restamp b) ops)"

subsection \<open>What the operations do to slots and log\<close>

definition same_log :: "primary_replication \<Rightarrow> primary_replication \<Rightarrow> bool" where
  "same_log p p' \<longleftrightarrow> pr_buffer p' = pr_buffer p \<and> pr_spool p' = pr_spool p"

lemma same_log_refl [simp]: "same_log p p" by (simp add: same_log_def)

lemma same_log_trans: "same_log p q \<Longrightarrow> same_log q r \<Longrightarrow> same_log p r" by (simp add: same_log_def)

lemma same_log_holds: "same_log p p' \<Longrightarrow> plog.holds crc authority restamp b hist gone p' = plog.holds crc authority restamp b hist gone p"
  by (cases "pr_spool p") (simp_all add: plog.holds_def log_recs_def log_valid_def current_logical_lsn_def same_log_def)

text \<open>A slot only moves forward, and an invalidated slot stays so.\<close>

definition slot_forward :: "replication_slot option \<Rightarrow> replication_slot option \<Rightarrow> bool" where
  "slot_forward s s' \<longleftrightarrow>
     (case s of None \<Rightarrow> True
      | Some a \<Rightarrow> (case s' of None \<Rightarrow> False
          | Some a' \<Rightarrow> (slot_invalidation_reason a' = None \<longrightarrow> slot_invalidation_reason a = None) \<and> slot_restart_lsn a \<le> slot_restart_lsn a'))"

lemma slot_forward_refl [simp]: "slot_forward s s" "slot_forward None s'"
  by (auto simp: slot_forward_def split: option.split)

lemma slot_forward_trans: "slot_forward a c \<Longrightarrow> slot_forward c d \<Longrightarrow> slot_forward a d"
  by (auto simp: slot_forward_def split: option.splits)

definition slots_ok :: "primary_replication \<Rightarrow> bool" where
  "slots_ok p \<longleftrightarrow> bmap_wf (pr_slots p) \<and> (\<forall>i s. map_of (pr_slots p) i = Some s \<longrightarrow> slot_replica_id s = i)"

lemma slots_ok_cong: "pr_slots p' = pr_slots p \<Longrightarrow> slots_ok p' = slots_ok p"
  by (simp only: slots_ok_def)

definition quiet :: "primary_replication \<Rightarrow> primary_replication \<Rightarrow> bool" where
  "quiet p p' \<longleftrightarrow> same_log p p' \<and> (\<forall>i. slot_forward (map_of (pr_slots p) i) (map_of (pr_slots p') i)) \<and> (slots_ok p \<longrightarrow> slots_ok p')"

lemma quiet_refl [simp]: "quiet p p" by (simp add: quiet_def)

lemma quiet_trans: "quiet p q \<Longrightarrow> quiet q r \<Longrightarrow> quiet p r"
  unfolding quiet_def using same_log_trans slot_forward_trans by blast

lemma quietI: "same_log p p' \<Longrightarrow> pr_slots p' = pr_slots p \<Longrightarrow> quiet p p'"
  by (simp add: quiet_def slots_ok_cong [of p' p])

lemma quiet_extend: "quiet p q \<Longrightarrow> pr_buffer q' = pr_buffer q \<Longrightarrow> pr_spool q' = pr_spool q \<Longrightarrow> pr_slots q' = pr_slots q \<Longrightarrow> quiet p q'"
  by (simp add: quiet_def same_log_def slots_ok_cong [of q' q])

lemma persist_fields [simp]:
  "pr_slots (persist_slots_locked p) = pr_slots p" "pr_buffer (persist_slots_locked p) = pr_buffer p"
  "pr_spool (persist_slots_locked p) = pr_spool p" "pr_replicas (persist_slots_locked p) = pr_replicas p"
  "pr_waiter (persist_slots_locked p) = pr_waiter p"
  by (simp_all add: persist_slots_locked_def split: list.split)

lemma put_slot_fields [simp]:
  "pr_buffer (put_slot i s p) = pr_buffer p" "pr_spool (put_slot i s p) = pr_spool p" "pr_slots (put_slot i s p) = bput i s (pr_slots p)"
  "pr_replicas (put_slot i s p) = pr_replicas p" "pr_waiter (put_slot i s p) = pr_waiter p"
  by (simp_all add: put_slot_def)

lemma quiet_put:
  "slot_forward (map_of (pr_slots p) i) (Some s) \<Longrightarrow> slot_replica_id s = i \<Longrightarrow> quiet p (put_slot i s p)"
  unfolding quiet_def same_log_def slots_ok_def by (auto simp: bget_bput)

lemma quiet_persist: "quiet p q \<Longrightarrow> quiet p (persist_slots_locked q)"
  by (rule quiet_extend) simp_all

lemma slots_okD: "slots_ok p \<Longrightarrow> map_of (pr_slots p) i = Some s \<Longrightarrow> slot_replica_id s = i"
  by (simp add: slots_ok_def)

lemma slot_new_simps [simp]:
  "slot_replica_id (slot_new i t l) = i" "slot_restart_lsn (slot_new i t l) = l" "slot_invalidation_reason (slot_new i t l) = None"
  by (simp_all add: slot_new_def)

lemma quiet_ensure_slot: "slots_ok p \<Longrightarrow> quiet p (snd (ensure_slot now i l p))"
  by (auto simp: ensure_slot_def slot_forward_def split: option.split intro!: quiet_persist quiet_put dest: slots_okD)

lemma quiet_advance_slot: "slots_ok p \<Longrightarrow> quiet p (advance_slot now i confirmed restart p)"
  by (auto simp: advance_slot_def Let_def slot_forward_def split: option.split intro!: quiet_persist quiet_put dest: slots_okD)

lemma quiet_touch_slot: "slots_ok p \<Longrightarrow> quiet p (touch_slot now i p)"
  by (auto simp: touch_slot_def slot_forward_def split: option.split intro!: quiet_persist quiet_put dest: slots_okD)

lemma quiet_register: "slots_ok p \<Longrightarrow> quiet p (snd (register_replica_with_region_at now i region l p))"
  by (rule quiet_extend [OF quiet_ensure_slot [of p now i l]])
    (simp_all add: register_replica_with_region_at_def bump_topology_epoch_def case_prod_unfold Let_def)

lemma quiet_ensure_registered: "slots_ok p \<Longrightarrow> quiet p (snd (ensure_replica_registered now i since p))"
  by (simp add: ensure_replica_registered_def quiet_register)

lemma quiet_rebootstrap_reason: "slots_ok p \<Longrightarrow> quiet p (snd (slot_rebootstrap_reason now i since old p))"
  by (auto simp: slot_rebootstrap_reason_def Let_def slot_forward_def split: option.split intro!: quiet_persist quiet_put dest: slots_okD)

lemma quiet_plan_resume: "slots_ok p \<Longrightarrow> quiet p (snd (plan_replica_resume now i since old p))"
  by (rule quiet_extend [OF quiet_rebootstrap_reason [of p now i since old]])
    (simp_all add: plan_replica_resume_def Let_def split: prod.split option.split)

lemma quiet_registry:
  "quiet p (snd (set_replica_rebootstrapping i f p))" "quiet p (snd (unregister_replica i p))" "quiet p (ack_replica now i l p)"
  by (rule quiet_extend [OF quiet_refl], simp_all add: set_replica_rebootstrapping_def bump_topology_epoch_def split: option.split)
    (rule quiet_extend [OF quiet_refl], simp_all add: unregister_replica_def ack_replica_def bump_topology_epoch_def Let_def)+

lemma quiet_ack_lsn: "slots_ok p \<Longrightarrow> quiet p (ack_replica_lsn_with_observability now i applied durable errors divergences p)"
  by (rule quiet_extend [OF quiet_advance_slot [of p now i applied durable]])
    (simp_all add: ack_replica_lsn_with_observability_def Let_def)

lemma quiet_note_pull: "slots_ok p \<Longrightarrow> quiet p (note_replica_pull now i sent p)"
  by (rule quiet_extend [OF quiet_touch_slot [of p now i]]) (simp_all add: note_replica_pull_def Let_def)

lemma map_of_map_snd: "map_of (map (\<lambda>(k, v). (k, f v)) m) i = map_option f (map_of m i)"
  by (induction m) auto

lemma invalidate_slot_simps [simp]:
  "slot_replica_id (invalidate_slot now r s) = slot_replica_id s" "slot_restart_lsn (invalidate_slot now r s) = slot_restart_lsn s"
  "slot_invalidation_reason (invalidate_slot now r s) = None \<longleftrightarrow> r = None \<and> slot_invalidation_reason s = None"
  by (auto simp: invalidate_slot_def split: option.split)

lemma quiet_map_slots:
  assumes "\<And>s. slot_forward (Some s) (Some (f s))" and "\<And>s. slot_replica_id (f s) = slot_replica_id s"
  shows "quiet p (p\<lparr>pr_slots := map (\<lambda>(i, s). (i, f s)) (pr_slots p)\<rparr>)"
proof -
  let ?p' = "p\<lparr>pr_slots := map (\<lambda>(i, s). (i, f s)) (pr_slots p)\<rparr>"
  have get: "map_of (pr_slots ?p') i = map_option f (map_of (pr_slots p) i)" for i by (simp add: map_of_map_snd)
  have "bmap_wf (pr_slots ?p') = bmap_wf (pr_slots p)" unfolding bmap_wf_def by (simp add: case_prod_unfold comp_def)
  moreover have "slot_forward (map_of (pr_slots p) i) (map_of (pr_slots ?p') i)" for i
    unfolding get using assms(1) by (cases "map_of (pr_slots p) i") auto
  ultimately show ?thesis
    unfolding quiet_def slots_ok_def get using assms(2) by (auto simp: same_log_def)
qed

lemma quiet_retention: "quiet p (snd (enforce_retention_limits now p))"
  unfolding enforce_retention_limits_def Let_def
  by (auto intro!: quiet_persist quiet_map_slots simp: slot_forward_def)

subsection \<open>Slots hold the log back\<close>

lemma floor_below_slot:
  assumes "map_of (pr_slots p) i = Some s" and "slot_invalidation_reason s = None"
  obtains f where "retention_floor_lsn p = Some f" and "f \<le> slot_restart_lsn s"
proof -
  have s: "s \<in> set (valid_slots p)" using assms by (force simp: valid_slots_def dest: map_of_SomeD)
  show thesis
  proof (cases "pr_metadata_error p = None")
    case True
    have "Min (set (map slot_restart_lsn (valid_slots p))) \<le> slot_restart_lsn s" using s by (intro Min_le) auto
    moreover have "retention_floor_lsn p = Some (Min (set (map slot_restart_lsn (valid_slots p))))"
      using s True by (auto simp: retention_floor_lsn_def)
    ultimately show thesis by (intro that)
  next
    case False
    then show thesis using that [of 0] by (auto simp: retention_floor_lsn_def)
  qed
qed

lemma log_prune_slots: "pr_slots (snd (log_prune crc authority now l p)) = pr_slots p"
  by (simp add: log_prune_def split: option.split prod.split sum.split)

lemma prune_keeps:
  assumes "plog.holds crc authority restamp b hist gone p" and "archived \<le> current_logical_lsn p"
    and p': "p' = snd (prune_retained_wal_through crc authority now archived p)"
  shows "\<exists>gone'. plog.holds crc authority restamp b hist gone' p' \<and> pr_slots p' = pr_slots (snd (enforce_retention_limits now p)) \<and>
    (\<forall>i s. map_of (pr_slots p') i = Some s \<longrightarrow> slot_invalidation_reason s = None \<longrightarrow> gone' \<le> max gone (slot_restart_lsn s))"
proof -
  let ?p1 = "snd (enforce_retention_limits now p)"
  let ?l = "case retention_floor_lsn ?p1 of Some f \<Rightarrow> min f archived | None \<Rightarrow> archived"
  have same: "same_log p ?p1" using quiet_retention [of p now] by (simp add: quiet_def)
  then have holds: "plog.holds crc authority restamp b hist gone ?p1" using assms(1) by (simp add: same_log_holds)
  then have v: "log_valid crc authority restamp b ?p1" by (simp add: plog.holds_def)
  have le: "?l \<le> current_logical_lsn ?p1"
    using assms(2) same by (auto simp: same_log_def current_logical_lsn_def min_le_iff_disj split: option.split)
  have below: "?l \<le> slot_restart_lsn s" if valid: "map_of (pr_slots ?p1) i = Some s" "slot_invalidation_reason s = None" for i s
  proof -
    obtain f where "retention_floor_lsn ?p1 = Some f" "f \<le> slot_restart_lsn s" by (rule floor_below_slot [OF valid])
    then show ?thesis by (simp add: min_le_iff_disj)
  qed
  show ?thesis
  proof (cases "?l > 0")
    case True
    then have "p' = snd (log_prune crc authority (word_of_nat now) ?l ?p1)"
      by (simp add: p' prune_retained_wal_through_def Let_def split: prod.split sum.split)
    with plog.holds_prune [OF holds le, of "word_of_nat now"] max.mono [OF order_refl below] show ?thesis
      by (intro exI [of _ "max gone ?l"]) (simp add: log_prune_slots)
  next
    case False
    then have "p' = ?p1" by (simp add: p' prune_retained_wal_through_def Let_def)
    with holds show ?thesis by (intro exI [of _ gone]) simp
  qed
qed

lemma quiet_op:
  assumes "slots_ok p" and "log_valid crc authority restamp b p" and "\<forall>ts l d. op \<noteq> PAppend ts l d" and "\<forall>now a. op \<noteq> PPrune now a"
  shows "quiet p (primary_do crc authority op p)"
proof -
  have "quiet p (snd (pull_plan crc now i since p))" for now i since
    using quiet_trans [OF quiet_ensure_registered [OF assms(1), of now i since] quiet_plan_resume] quiet_ensure_registered [OF assms(1), of now i since] assms(1)
    by (simp add: pull_plan_def log_oldest_recs [OF assms(2)] quiet_def)
  then show ?thesis
    using assms by (cases op) (simp_all add: register_replica_with_region_def quiet_register quiet_registry quiet_ack_lsn quiet_note_pull quiet_retention)
qed

lemma append_slots: "pr_slots (append_logical_record crc authority out ts l d p) = pr_slots p"
  by (simp add: append_logical_record_def)

lemma primary_step:
  assumes "plog.holds crc authority restamp b hist gone p" and "slots_ok p" and "op_ok b op p" and p': "p' = primary_do crc authority op p"
  shows "slots_ok p' \<and> (\<forall>i. slot_forward (map_of (pr_slots p) i) (map_of (pr_slots p') i)) \<and>
    (\<exists>gone'. plog.holds crc authority restamp b (hist @ op_hist authority restamp b op) gone' p' \<and>
      (\<forall>i s. map_of (pr_slots p') i = Some s \<longrightarrow> slot_invalidation_reason s = None \<longrightarrow> gone' \<le> max gone (slot_restart_lsn s)))"
proof (cases "(\<exists>ts l d. op = PAppend ts l d) \<or> (\<exists>now a. op = PPrune now a)")
  case False
  have "log_valid crc authority restamp b p" using assms(1) by (simp add: plog.holds_def)
  with False assms(2) have q: "quiet p p'" unfolding p' by (intro quiet_op) auto
  moreover have "op_hist authority restamp b op = []" using False by (cases op) auto
  ultimately show ?thesis using assms(1,2) by (auto simp: quiet_def same_log_holds intro!: exI [of _ gone])
next
  case True
  then show ?thesis
  proof (elim disjE exE)
    fix ts l d
    assume op: "op = PAppend ts l d"
    with plog.holds_app [OF assms(1), of l d ts] assms(3) have "plog.holds crc authority restamp b (hist @ op_hist authority restamp b op) gone p'"
      by (simp add: p')
    moreover have "pr_slots p' = pr_slots p" by (simp add: p' op append_slots)
    ultimately show ?thesis using assms(2) by (auto simp: slots_ok_cong [of p' p] intro!: exI [of _ gone])
  next
    fix now a
    assume op: "op = PPrune now a"
    let ?p1 = "snd (enforce_retention_limits now p)"
    obtain gone' where g: "plog.holds crc authority restamp b hist gone' p'" "pr_slots p' = pr_slots ?p1"
        "\<forall>i s. map_of (pr_slots p') i = Some s \<longrightarrow> slot_invalidation_reason s = None \<longrightarrow> gone' \<le> max gone (slot_restart_lsn s)"
      using prune_keeps [OF assms(1) _ refl, of a now] assms(3) unfolding p' op by auto
    have "quiet p ?p1" by (rule quiet_retention)
    with g assms(2) show ?thesis by (auto simp: op quiet_def slots_ok_cong [of p' ?p1] intro!: exI [of _ gone'])
  qed
qed

lemma primary_run_simps [simp]:
  "primary_run crc authority [] p = p"
  "primary_run crc authority (op # ops) p = primary_run crc authority ops (primary_do crc authority op p)"
  by (simp_all add: primary_run_def)

lemma ops_hist_simps [simp]:
  "ops_hist authority restamp b [] = []"
  "ops_hist authority restamp b (op # ops) = op_hist authority restamp b op @ ops_hist authority restamp b ops"
  by (simp_all add: ops_hist_def)

lemma run_forward:
  "plog.holds crc authority restamp b hist gone p \<Longrightarrow> slots_ok p \<Longrightarrow> run_ok crc authority b ops p \<Longrightarrow>
   slot_forward (map_of (pr_slots p) i) (map_of (pr_slots (primary_run crc authority ops p)) i)"
proof (induction ops arbitrary: hist gone p)
  case (Cons op ops)
  let ?p1 = "primary_do crc authority op p"
  from primary_step [OF Cons.prems(1,2) _ refl, of op] Cons.prems(3) obtain gone1
    where "slots_ok ?p1" "slot_forward (map_of (pr_slots p) i) (map_of (pr_slots ?p1) i)"
      "plog.holds crc authority restamp b (hist @ op_hist authority restamp b op) gone1 ?p1"
    by auto
  with Cons.IH [of _ gone1 ?p1] Cons.prems(3) show ?case by (auto intro: slot_forward_trans)
qed simp

text \<open>
  Over a run, nothing a valid slot needs is pruned: what is gone of the history was gone at the start or lies
  at or below the slot's restart position.
\<close>

lemma primary_run:
  "plog.holds crc authority restamp b hist gone p \<Longrightarrow> slots_ok p \<Longrightarrow> run_ok crc authority b ops p \<Longrightarrow>
   \<exists>gone'. plog.holds crc authority restamp b (hist @ ops_hist authority restamp b ops) gone' (primary_run crc authority ops p) \<and>
     slots_ok (primary_run crc authority ops p) \<and>
     (\<forall>i s. map_of (pr_slots p) i \<noteq> None \<longrightarrow> map_of (pr_slots (primary_run crc authority ops p)) i = Some s \<longrightarrow>
        slot_invalidation_reason s = None \<longrightarrow> gone' \<le> max gone (slot_restart_lsn s))"
proof (induction ops arbitrary: hist gone p)
  case Nil
  then show ?case by (auto intro!: exI [of _ gone])
next
  case (Cons op ops)
  let ?p1 = "primary_do crc authority op p" and ?h1 = "hist @ op_hist authority restamp b op"
  from primary_step [OF Cons.prems(1,2) _ refl, of op] Cons.prems(3) obtain gone1
    where ok: "slots_ok ?p1" and fwd: "\<forall>i. slot_forward (map_of (pr_slots p) i) (map_of (pr_slots ?p1) i)"
      and holds: "plog.holds crc authority restamp b ?h1 gone1 ?p1"
      and g1: "\<And>i s. map_of (pr_slots ?p1) i = Some s \<Longrightarrow> slot_invalidation_reason s = None \<Longrightarrow> gone1 \<le> max gone (slot_restart_lsn s)"
    by auto
  from Cons.IH [OF holds ok] Cons.prems(3) obtain gone2
    where holds2: "plog.holds crc authority restamp b (?h1 @ ops_hist authority restamp b ops) gone2 (primary_run crc authority ops ?p1)"
      and ok2: "slots_ok (primary_run crc authority ops ?p1)"
      and g2: "\<And>i s. map_of (pr_slots ?p1) i \<noteq> None \<Longrightarrow> map_of (pr_slots (primary_run crc authority ops ?p1)) i = Some s \<Longrightarrow>
        slot_invalidation_reason s = None \<Longrightarrow> gone2 \<le> max gone1 (slot_restart_lsn s)"
    by auto
  have "gone2 \<le> max gone (slot_restart_lsn s)"
    if i: "map_of (pr_slots p) i \<noteq> None" and s: "map_of (pr_slots (primary_run crc authority ops ?p1)) i = Some s"
      "slot_invalidation_reason s = None" for i s
  proof -
    obtain s1 where s1: "map_of (pr_slots ?p1) i = Some s1"
      using fwd [rule_format, of i] i by (auto simp: slot_forward_def split: option.splits)
    have "slot_forward (Some s1) (Some s)"
      using run_forward [OF holds ok, of ops i] Cons.prems(3) s1 s(1) by simp
    then have "slot_invalidation_reason s1 = None" "slot_restart_lsn s1 \<le> slot_restart_lsn s" using s(2) by (simp_all add: slot_forward_def)
    with g1 [OF s1] g2 [OF _ s] s1 show ?thesis by (auto simp: le_max_iff_disj)
  qed
  with holds2 ok2 show ?case by (intro exI [of _ gone2]) auto
qed

subsection \<open>Pulls miss nothing\<close>

definition primary_ok :: "(bytes \<Rightarrow> u32) \<Rightarrow> authority_of \<Rightarrow> restamp_with \<Rightarrow> bool \<Rightarrow> primary_replication \<Rightarrow> bool" where
  "primary_ok crc authority restamp b p \<longleftrightarrow>
     log_valid crc authority restamp b p \<and> slots_ok p \<and> (\<forall>r \<in> set (log_recs crc authority restamp p). 0 < fst r)"

lemma primary_ok_holds: "primary_ok crc authority restamp b p \<Longrightarrow> plog.holds crc authority restamp b (log_recs crc authority restamp p) 0 p"
  using plog.recs_head [of crc authority restamp b p] by (auto simp: primary_ok_def plog.holds_def)

lemma find_slot: "slots_ok p \<Longrightarrow> find (\<lambda>s. slot_replica_id s = i) (map snd (pr_slots p)) = map_of (pr_slots p) i"
proof (cases "map_of (pr_slots p) i")
  case None
  assume ok: "slots_ok p"
  have "slot_replica_id s \<noteq> i" if s: "s \<in> set (map snd (pr_slots p))" for s
  proof -
    obtain k where "map_of (pr_slots p) k = Some s"
      using s ok by (auto simp: slots_ok_def bget_iff)
    with ok None show ?thesis by (metis slots_okD option.distinct(1))
  qed
  with None show ?thesis by (auto simp: find_None_iff)
next
  case (Some s)
  assume ok: "slots_ok p"
  have wf: "bmap_wf (pr_slots p)" using ok by (simp add: slots_ok_def)
  show ?thesis
    unfolding Some
  proof (rule find_unique)
    show "s \<in> set (map snd (pr_slots p))" using map_of_SomeD [OF Some] by force
    show "slot_replica_id s = i" by (rule slots_okD [OF ok Some])
    fix s' assume "s' \<in> set (map snd (pr_slots p))" and i: "slot_replica_id s' = i"
    then obtain k where "map_of (pr_slots p) k = Some s'" using wf by (auto simp: bget_iff)
    with slots_okD [OF ok this] Some i show "s' = s" by simp
  qed
qed

lemma since_holds:
  assumes "plog.holds crc authority restamp b hist gone p"
  shows "log_since crc authority restamp l n p = take n (filter (\<lambda>r. max l gone < fst r) hist)"
proof -
  have v: "log_valid crc authority restamp b p" and r: "log_recs crc authority restamp p = filter (\<lambda>r. gone < fst r) hist"
    using assms by (simp_all add: plog.holds_def)
  show ?thesis by (simp add: log_since_recs [OF v] r conj_commute)
qed

lemma ops_hist_append: "ops_hist authority restamp b (xs @ ys) = ops_hist authority restamp b xs @ ops_hist authority restamp b ys"
  by (simp add: ops_hist_def)

text \<open>A plan to resume leaves a read that starts no later than the records that are gone.\<close>

lemma plan_covers:
  assumes "plan_replica_resume now i since old p = (PartialResync resume, p')" and "slots_ok p" and "map_of (pr_slots p) i = Some s"
    and "old = Some l" and "x < l"
  shows "x \<le> resume \<and> resume = max since (slot_restart_lsn s)"
proof -
  have reason: "slot_rebootstrap_reason now i since old p = (None, p)" and resume: "resume = max since (slot_restart_lsn s)"
    using assms(1,3) find_slot [OF assms(2), of i]
    by (auto simp: plan_replica_resume_def slot_rebootstrap_reason_def Let_def split: prod.splits option.splits if_splits)
  have "\<not> sat_succ (max (slot_restart_lsn s) since) < l"
    using reason assms(3,4) by (auto simp: slot_rebootstrap_reason_def Let_def split: option.splits if_splits)
  from sat_succ_le [OF this assms(5)] resume show ?thesis by (simp add: max.commute)
qed

lemma pull_plan_quiet:
  assumes "log_valid crc authority restamp b p" and "slots_ok p"
  shows "quiet p (snd (pull_plan crc now i since p))"
proof -
  have q1: "quiet p (snd (ensure_replica_registered now i since p))" by (rule quiet_ensure_registered [OF assms(2)])
  then have "slots_ok (snd (ensure_replica_registered now i since p))" using assms(2) by (simp add: quiet_def)
  from quiet_trans [OF q1 quiet_plan_resume [OF this]] show ?thesis by (simp add: pull_plan_def log_oldest_recs [OF assms(1)])
qed

lemma pull_plan_covers:
  assumes "plog.holds crc authority restamp b hist gone p" and "slots_ok p"
    and "log_recs crc authority restamp p = [] \<Longrightarrow> \<forall>r \<in> set hist. fst r \<le> resume"
    and "pull_plan crc now i since p = (PartialResync resume, p')" and "map_of (pr_slots p') i \<noteq> None"
  shows "\<exists>gone' \<le> resume. plog.holds crc authority restamp b hist gone' p' \<and> slots_ok p'"
proof -
  have v: "log_valid crc authority restamp b p" and recs: "log_recs crc authority restamp p = filter (\<lambda>r. gone < fst r) hist"
    using assms(1) by (simp_all add: plog.holds_def)
  have "quiet p p'" using pull_plan_quiet [OF v assms(2), of now i since] assms(4) by simp
  then have p': "slots_ok p'" "plog.holds crc authority restamp b hist g p' = plog.holds crc authority restamp b hist g p" for g
    using assms(2) by (simp_all add: quiet_def same_log_holds [of p p'])
  show ?thesis
  proof (cases "log_recs crc authority restamp p")
    case Nil
    then have "filter (\<lambda>r. min gone resume < fst r) hist = []" using assms(3) recs by (auto simp: filter_empty_conv min_less_iff_disj not_less)
    then have "plog.holds crc authority restamp b hist (min gone resume) p" using assms(1) Nil recs by (simp add: plog.holds_def min_le_iff_disj)
    with p' show ?thesis by (intro exI [of _ "min gone resume"]) simp
  next
    case (Cons r rs)
    have "r \<in> set (filter (\<lambda>r. gone < fst r) hist)" using Cons recs by (metis list.set_intros(1))
    then have gone: "gone < fst r" by simp
    let ?p1 = "snd (ensure_replica_registered now i since p)"
    have plan: "plan_replica_resume now i since (Some (fst r)) ?p1 = (PartialResync resume, p')"
      using assms(4) by (simp add: pull_plan_def log_oldest_recs [OF v] Cons)
    have ok1: "slots_ok ?p1" using quiet_ensure_registered [OF assms(2)] assms(2) by (simp add: quiet_def)
    have "pr_slots p' = pr_slots ?p1"
      using plan by (auto simp: plan_replica_resume_def slot_rebootstrap_reason_def Let_def split: prod.splits option.splits if_splits)
    then obtain s where s: "map_of (pr_slots ?p1) i = Some s" using assms(5) by auto
    have "gone \<le> resume" using plan_covers [OF plan ok1 s refl gone] by blast
    with assms(1) p' show ?thesis by blast
  qed
qed

text \<open>
  C35: pulls miss nothing a replica still needs. Take any run of a primary, a pull that plans to resume a replica
  from a position, and any further run in which the replica's slot stays valid, so that other replicas, retention
  and pruning go on in between. When the pull is planned the log must not be empty, unless nothing beyond the planned
  position was ever appended: an empty log says nothing about what was pruned from it. The read then returns, from the
  planned position on, the first records of everything ever appended, in order, except possibly records at or
  below the restart position the replica has meanwhile acknowledged as durable.
\<close>

theorem pull_gap_free:
  assumes "primary_ok crc authority restamp b p" and "run_ok crc authority b ops p"
    and "log_recs crc authority restamp (primary_run crc authority ops p) \<noteq> [] \<or>
      (\<forall>r \<in> set (log_recs crc authority restamp p @ ops_hist authority restamp b ops). fst r \<le> resume)"
    and "pull_plan crc now i since (primary_run crc authority ops p) = (PartialResync resume, p2)" and "map_of (pr_slots p2) i \<noteq> None"
    and "run_ok crc authority b ops2 p2" and "p3 = primary_run crc authority ops2 p2"
    and "map_of (pr_slots p3) i = Some s" and "slot_invalidation_reason s = None"
  shows "\<exists>gone \<le> max resume (slot_restart_lsn s). fst (pull_read crc authority restamp now' i resume n p3) =
    take n (filter (\<lambda>r. max resume gone < fst r) (log_recs crc authority restamp p @ ops_hist authority restamp b (ops @ ops2)))"
proof -
  obtain gone1 where h1: "plog.holds crc authority restamp b (log_recs crc authority restamp p @ ops_hist authority restamp b ops) gone1 (primary_run crc authority ops p)"
    and ok1: "slots_ok (primary_run crc authority ops p)"
    using primary_run [OF primary_ok_holds [OF assms(1)] _ assms(2)] assms(1) by (auto simp: primary_ok_def)
  from assms(3) have safe: "log_recs crc authority restamp (primary_run crc authority ops p) = [] \<Longrightarrow>
      \<forall>r \<in> set (log_recs crc authority restamp p @ ops_hist authority restamp b ops). fst r \<le> resume" by blast
  from pull_plan_covers [OF h1 ok1 safe assms(4,5)] obtain gone2 where g2: "gone2 \<le> resume" and ok2: "slots_ok p2"
    and h2: "plog.holds crc authority restamp b (log_recs crc authority restamp p @ ops_hist authority restamp b ops) gone2 p2" by blast
  obtain gone3 where h3: "plog.holds crc authority restamp b ((log_recs crc authority restamp p @ ops_hist authority restamp b ops) @ ops_hist authority restamp b ops2) gone3 p3"
    and g3: "gone3 \<le> max gone2 (slot_restart_lsn s)"
    using primary_run [OF h2 ok2 assms(6)] assms(5,7,8,9) by blast
  have "gone3 \<le> max resume (slot_restart_lsn s)" using g3 g2 by (meson max.mono order_refl order_trans)
  moreover note since_holds [OF h3, of resume n]
  ultimately show ?thesis by (auto simp: pull_read_def Let_def ops_hist_append simp del: filter_append)
qed

text \<open>
  Without that condition there is a gap: a pull that is planned while the log is empty is told to resume, and
  whatever happens afterwards it reads only records that were appended after the plan.
\<close>

lemma empty_log_skips:
  assumes "primary_ok crc authority restamp b p" and "log_recs crc authority restamp p = []"
    and "pull_plan crc now i since p = (PartialResync resume, p2)" and "run_ok crc authority b ops p2"
  shows "set (fst (pull_read crc authority restamp now' i resume n (primary_run crc authority ops p2))) \<subseteq> set (ops_hist authority restamp b ops)"
proof -
  have v: "log_valid crc authority restamp b p" and ok: "slots_ok p" using assms(1) by (simp_all add: primary_ok_def)
  have "quiet p p2" using pull_plan_quiet [OF v ok, of now i since] assms(3) by simp
  then have p2: "slots_ok p2" "plog.holds crc authority restamp b [] 0 p2"
    using ok primary_ok_holds [OF assms(1)] assms(2) by (simp_all add: quiet_def same_log_holds [of p p2])
  obtain gone where "plog.holds crc authority restamp b (ops_hist authority restamp b ops) gone (primary_run crc authority ops p2)"
    using primary_run [OF p2(2,1) assms(4)] by auto
  from since_holds [OF this, of resume n] show ?thesis by (auto simp: pull_read_def Let_def dest: in_set_takeD)
qed

definition primary_new :: "wal_buffer \<Rightarrow> logical_wal_spool option \<Rightarrow> (string, replication_slot) bmap \<Rightarrow> bool \<Rightarrow> u64 \<Rightarrow> nat \<Rightarrow> primary_replication" where
  "primary_new buf sp slots store max_lag idle_ms =
     \<lparr>pr_buffer = buf, pr_spool = sp, pr_replicas = [], pr_slots = slots, pr_metadata_store = store, pr_metadata_error = None,
      pr_persist_results = [], pr_max_lag_lsn = max_lag, pr_idle_timeout_ms = idle_ms, pr_waiter = [], pr_topology_epoch = 0,
      pr_partial_resyncs = 0, pr_full_resyncs = 0\<rparr>"

definition demo_primary :: primary_replication where
  "demo_primary = primary_new wal_buffer_new None [] False 0 0"

definition demo_ops :: "primary_op list" where
  "demo_ops = [PAppend 0 1 [0xA], PAppend 0 2 [0xB]]"

definition demo_ops2 :: "primary_op list" where
  "demo_ops2 = [PAppend 0 3 [0xC], PAckLsn 9 ''r'' 1 1 0 0, PPrune 10 3]"

lemmas demo_primary_defs = demo_primary_def primary_new_def wal_buffer_new_def demo_ops_def demo_ops2_def append_logical_record_def buffer_append_def
  current_logical_lsn_def log_fits_def pull_plan_def oldest_available_def buffer_oldest_lsn_def ensure_replica_registered_def
  register_replica_with_region_at_def ensure_slot_def persist_slots_locked_def put_slot_def bump_topology_epoch_def plan_replica_resume_def
  slot_rebootstrap_reason_def sat_succ_def sat_sub_def slot_new_def advance_slot_def slot_confirmed_lsn_def
  ack_replica_lsn_with_observability_def prune_retained_wal_through_def enforce_retention_limits_def retention_reason_def
  invalidate_slot_def retention_floor_lsn_def valid_slots_def log_prune_def buffer_prune_through_def record_replica_ack_def

theorem pull_gap_free_witness:
  "\<exists>gone \<le> 1. fst (pull_read (\<lambda>_. 0) (\<lambda>_. None) (\<lambda>_ _ d. d) 11 ''r'' 0 10
     (primary_run (\<lambda>_. 0) (\<lambda>_. None) demo_ops2
       (snd (pull_plan (\<lambda>_. 0) 5 ''r'' 0 (primary_run (\<lambda>_. 0) (\<lambda>_. None) demo_ops demo_primary))))) =
   take 10 (filter (\<lambda>r. gone < fst r) [(1, [0xA]), (2, [0xB]), (3, [0xC])])"
proof -
  let ?crc = "\<lambda>_. 0" and ?a = "\<lambda>_. None" and ?r = "\<lambda>_ _ d. d"
  let ?p1 = "primary_run ?crc ?a demo_ops demo_primary"
  have ok: "primary_ok ?crc ?a ?r False demo_primary"
    by (simp add: primary_ok_def log_valid_def log_recs_def slots_ok_def buffer_valid_def demo_primary_def primary_new_def wal_buffer_new_def)
  have run: "run_ok ?crc ?a False demo_ops demo_primary" by (simp add: demo_primary_defs)
  have recs: "log_recs ?crc ?a ?r ?p1 \<noteq> []" by (simp add: demo_primary_defs log_recs_def)
  obtain p2 where plan: "pull_plan ?crc 5 ''r'' 0 ?p1 = (PartialResync 0, p2)" by (simp add: demo_primary_defs)
  then have p2: "p2 = snd (pull_plan ?crc 5 ''r'' 0 ?p1)" by simp
  have slot: "map_of (pr_slots p2) ''r'' \<noteq> None" unfolding p2 by (simp add: demo_primary_defs)
  have run2: "run_ok ?crc ?a False demo_ops2 p2" unfolding p2 by (simp add: demo_primary_defs)
  obtain s where s: "map_of (pr_slots (primary_run ?crc ?a demo_ops2 p2)) ''r'' = Some s" "slot_invalidation_reason s = None" "slot_restart_lsn s = 1"
    unfolding p2 by (simp add: demo_primary_defs)
  from pull_gap_free [OF ok run disjI1 [OF recs] plan slot run2 refl s(1,2), of 11 10] s(3) p2 show ?thesis
    by (simp add: demo_ops_def demo_ops2_def demo_primary_def primary_new_def wal_buffer_new_def log_recs_def log_served_def del: filter.simps)
qed

text \<open>So records 1 and 2 are pruned before the replica asks for the first time, and it is given record 3 as the next one.\<close>

lemma empty_log_gap:
  "\<exists>p2. pull_plan (\<lambda>_. 0) 5 ''r'' 0 (primary_run (\<lambda>_. 0) (\<lambda>_. None) (demo_ops @ [PPrune 4 2]) demo_primary) = (PartialResync 0, p2) \<and>
    fst (pull_read (\<lambda>_. 0) (\<lambda>_. None) (\<lambda>_ _ d. d) 11 ''r'' 0 10 (primary_run (\<lambda>_. 0) (\<lambda>_. None) [PAppend 0 3 [0xC]] p2)) = [(3, [0xC])]"
  by (simp add: demo_primary_defs pull_read_def log_since_def read_since_shared_def Let_def)

end
