(* ===== verification/Commit_Quorum.thy ===== *)
theory Commit_Quorum
  imports Primary_Replication
begin

section \<open>Commit policies and quorums\<close>

text \<open>
  \<open>src/crates/reddb-server/src/replication/quorum.rs\<close>, the policy of \<open>replication/commit_policy.rs\<close> and its enforcement in
  \<open>runtime/impl_replication_commit.rs\<close>: what a commit waits for on the primary before it is acknowledged. A waiting
  commit sees the coordinator, with the primary in it, each time it wakes; the sequence of what it sees is an
  argument, as are the settings read from the environment. A call that never returns is the value \<open>None\<close>. A
  \<open>HashSet\<close> of regions is a list, in the order it happens to be iterated.
\<close>

datatype quorum_mode = QAsync | QSync nat | QRegions "string list"

record quorum_config =
  qc_mode :: quorum_mode
  qc_timeout :: "nat option"

definition quorum_async_commit :: quorum_config where
  "quorum_async_commit = \<lparr>qc_mode = QAsync, qc_timeout = None\<rparr>"

definition quorum_sync :: "nat \<Rightarrow> quorum_config" where
  "quorum_sync min_replicas = \<lparr>qc_mode = QSync min_replicas, qc_timeout = Some (5 * 10 ^ 9)\<rparr>"

definition quorum_regions :: "string list \<Rightarrow> quorum_config" where
  "quorum_regions required = \<lparr>qc_mode = QRegions required, qc_timeout = Some (10 * 10 ^ 9)\<rparr>"

definition with_timeout :: "nat \<Rightarrow> quorum_config \<Rightarrow> quorum_config" where
  "with_timeout timeout c = c\<lparr>qc_timeout := Some timeout\<rparr>"

definition without_timeout :: "quorum_config \<Rightarrow> quorum_config" where
  "without_timeout c = c\<lparr>qc_timeout := None\<rparr>"

definition is_async :: "quorum_config \<Rightarrow> bool" where
  "is_async c \<longleftrightarrow> qc_mode c = QAsync"

datatype quorum_error =
    QuorumTimeout u64 nat "string set"
  | InsufficientReplicas nat nat
  | MissingRegions "string list"

record quorum_coordinator =
  qo_primary :: primary_replication
  qo_config :: quorum_config
  qo_regions :: "(string, string) hmap"

definition quorum_coordinator_new :: "primary_replication \<Rightarrow> quorum_config \<Rightarrow> quorum_coordinator" where
  "quorum_coordinator_new p config = \<lparr>qo_primary = p, qo_config = config, qo_regions = []\<rparr>"

definition bind_replica_region :: "string \<Rightarrow> string \<Rightarrow> quorum_coordinator \<Rightarrow> quorum_coordinator" where
  "bind_replica_region replica_id region q = q\<lparr>qo_regions := hput replica_id region (qo_regions q)\<rparr>"

definition unbind_replica :: "string \<Rightarrow> quorum_coordinator \<Rightarrow> quorum_coordinator" where
  "unbind_replica replica_id q = q\<lparr>qo_regions := hdel replica_id (qo_regions q)\<rparr>"

definition connected_regions :: "quorum_coordinator \<Rightarrow> string set" where
  "connected_regions q = set (map snd (qo_regions q))"

definition acked_regions :: "u64 \<Rightarrow> quorum_coordinator \<Rightarrow> string set" where
  "acked_regions target_lsn q =
     set (List.map_filter (\<lambda>r. hget (qo_regions q) (rs_id r))
       (filter (\<lambda>r. rs_last_durable_lsn r \<ge> target_lsn) (pr_replicas (qo_primary q))))"

definition has_quorum :: "u64 \<Rightarrow> quorum_coordinator \<Rightarrow> bool" where
  "has_quorum target_lsn q =
     (case qc_mode (qo_config q) of
        QAsync \<Rightarrow> True
      | QSync min_replicas \<Rightarrow> commit_watermark (pr_waiter (qo_primary q)) (min_replicas mod 2 ^ 32) \<ge> target_lsn
      | QRegions required \<Rightarrow> list_all (\<lambda>r. r \<in> acked_regions target_lsn q) required)"

definition validate_preconditions :: "quorum_coordinator \<Rightarrow> quorum_error + unit" where
  "validate_preconditions q =
     (case qc_mode (qo_config q) of
        QAsync \<Rightarrow> Inr ()
      | QSync min_replicas \<Rightarrow>
          (let connected = length (pr_replicas (qo_primary q)) in
           if connected < min_replicas then Inl (InsufficientReplicas min_replicas connected) else Inr ())
      | QRegions required \<Rightarrow>
          (let missing = filter (\<lambda>r. r \<notin> connected_regions q) required in
           if missing = [] then Inr () else Inl (MissingRegions missing)))"

fun region_watermark_loop :: "quorum_coordinator \<Rightarrow> u64 \<Rightarrow> string list \<Rightarrow> u64" where
  "region_watermark_loop q watermark [] = watermark"
| "region_watermark_loop q watermark (region # regions) =
     (case map rs_last_durable_lsn (filter (\<lambda>r. hget (qo_regions q) (rs_id r) = Some region) (pr_replicas (qo_primary q))) of
        [] \<Rightarrow> 0
      | l # ls \<Rightarrow> region_watermark_loop q (min watermark (fold max ls l)) regions)"

definition region_commit_watermark :: "string list \<Rightarrow> quorum_coordinator \<Rightarrow> u64" where
  "region_commit_watermark required q = (if required = [] then 0 else region_watermark_loop q (- 1) required)"

definition quorum_commit_watermark :: "quorum_coordinator \<Rightarrow> u64" where
  "quorum_commit_watermark q =
     (case qc_mode (qo_config q) of
        QAsync \<Rightarrow> 0
      | QSync min_replicas \<Rightarrow> commit_watermark (pr_waiter (qo_primary q)) (min_replicas mod 2 ^ 32)
      | QRegions required \<Rightarrow> region_commit_watermark required q)"

definition safe_replay_lsn :: "quorum_coordinator \<Rightarrow> u64 option" where
  "safe_replay_lsn q =
     (case map rs_last_durable_lsn (pr_replicas (qo_primary q)) of [] \<Rightarrow> None | l # ls \<Rightarrow> Some (fold min ls l))"

text \<open>
  The wait: \<open>q\<close> is the coordinator at the call, \<open>obs\<close> what each wake-up sees with the nanoseconds elapsed, and
  \<open>fin\<close> what is seen after a wait that gave up.
\<close>

definition wait_for_quorum ::
  "(nat \<Rightarrow> nat \<times> quorum_coordinator) \<Rightarrow> nat \<times> quorum_coordinator \<Rightarrow> u64 \<Rightarrow> quorum_coordinator \<Rightarrow> (quorum_error + unit) option" where
  "wait_for_quorum obs fin target_lsn q =
     (if is_async (qo_config q) then Some (Inr ())
      else case validate_preconditions q of
          Inl e \<Rightarrow> Some (Inl e)
        | Inr _ \<Rightarrow>
            (let timeout = qc_timeout (qo_config q);
                 reached = (case qc_mode (qo_config q) of
                   QAsync \<Rightarrow> Some True
                 | QSync min_replicas \<Rightarrow>
                     wait_for_commit_watermark (\<lambda>i. (fst (obs i), pr_waiter (qo_primary (snd (obs i))))) target_lsn (min_replicas mod 2 ^ 32) timeout
                 | QRegions required \<Rightarrow> wait_for_change_until obs (has_quorum target_lsn) timeout) in
             map_option (\<lambda>b. if b then Inr ()
               else Inl (QuorumTimeout target_lsn (fst fin div 10 ^ 6) (acked_regions target_lsn (snd fin)))) reached))"

subsection \<open>Policies\<close>

datatype commit_policy = PolicyLocal | PolicyRemoteWal | PolicyAckN nat | PolicyQuorum

datatype replication_durability = DurabilityAsync | RemoteWrite nat | RemoteFlush nat | RemoteApply nat

definition primary_replica_durability_for_policy :: "commit_policy \<Rightarrow> replication_durability" where
  "primary_replica_durability_for_policy policy =
     (case policy of
        PolicyAckN n \<Rightarrow> if n > 0 then RemoteFlush (if n \<le> 65535 then n else 65535) else DurabilityAsync
      | _ \<Rightarrow> DurabilityAsync)"

definition required_quorum :: "replication_durability \<Rightarrow> nat" where
  "required_quorum d = (case d of DurabilityAsync \<Rightarrow> 0 | RemoteWrite q \<Rightarrow> q | RemoteFlush q \<Rightarrow> q | RemoteApply q \<Rightarrow> q)"

datatype policy_error = QuorumReadOnly u64 quorum_error | AckReadOnly u64 nat nat | ControlEventFailed string

text \<open>The settings of the process and what a commit sees: whether there is a coordinator and a primary, the two variables, and the outcome of the control event.\<close>

record commit_env =
  ce_obs :: "nat \<Rightarrow> nat \<times> quorum_coordinator"
  ce_fin :: "nat \<times> quorum_coordinator"
  ce_call :: quorum_coordinator
  ce_has_quorum :: bool
  ce_has_replication :: bool
  ce_fail_on_timeout :: bool
  ce_ack_timeout_ms :: nat
  ce_event_error :: "string option"
  ce_metrics :: commit_waiter_metrics

definition wait_for_replication_quorum :: "commit_env \<Rightarrow> u64 \<Rightarrow> (quorum_error + unit) option" where
  "wait_for_replication_quorum env target_lsn =
     (if ce_has_quorum env then wait_for_quorum (ce_obs env) (ce_fin env) target_lsn (ce_call env) else Some (Inr ()))"

definition await_replica_acks :: "commit_env \<Rightarrow> u64 \<Rightarrow> nat \<Rightarrow> nat \<Rightarrow> (await_outcome \<times> commit_waiter_metrics) option" where
  "await_replica_acks env target_lsn count timeout =
     (if ce_has_replication env
      then await_acks (\<lambda>i. (fst (ce_obs env i), pr_waiter (qo_primary (snd (ce_obs env i))))) target_lsn count timeout (ce_metrics env)
      else Some (NotRequired, ce_metrics env))"

definition enforce_commit_policy_for_policy ::
  "commit_env \<Rightarrow> u64 \<Rightarrow> commit_policy \<Rightarrow> ((policy_error + await_outcome) \<times> commit_waiter_metrics) option" where
  "enforce_commit_policy_for_policy env post_lsn policy =
     (if policy = PolicyQuorum then
        map_option (\<lambda>r. (case r of
            Inr _ \<Rightarrow> Inr (AwaitReached 0)
          | Inl err \<Rightarrow> if ce_fail_on_timeout env then Inl (QuorumReadOnly post_lsn err) else Inr (AwaitTimedOut 0 1), ce_metrics env))
          (wait_for_replication_quorum env post_lsn)
      else
        (let n = required_quorum (primary_replica_durability_for_policy policy) in
         if n = 0 then Some (Inr NotRequired, ce_metrics env)
         else map_option (\<lambda>(outcome, w).
           (if outcome \<noteq> NotRequired \<and> ce_event_error env \<noteq> None then Inl (ControlEventFailed (the (ce_event_error env)))
            else case outcome of
                AwaitTimedOut observed required \<Rightarrow>
                  if ce_fail_on_timeout env then Inl (AckReadOnly post_lsn observed required) else Inr outcome
              | _ \<Rightarrow> Inr outcome, w))
           (await_replica_acks env post_lsn n (ce_ack_timeout_ms env * 10 ^ 6))))"

subsection \<open>The table holds what was acknowledged\<close>

fun op_acks :: "primary_op \<Rightarrow> (string \<times> u64) set" where
  "op_acks (PAck now i l) = {(i, l)}"
| "op_acks (PAckLsn now i applied durable errors divergences) = {(i, durable)}"
| "op_acks op = {}"

definition acks_of :: "primary_op list \<Rightarrow> (string \<times> u64) set" where
  "acks_of ops = (\<Union>op \<in> set ops. op_acks op)"

definition acked_only :: "(string \<times> u64) set \<Rightarrow> durable_map \<Rightarrow> bool" where
  "acked_only A m \<longleftrightarrow> hmap_wf m \<and> (\<forall>r l. hget m r = Some l \<longrightarrow> l = 0 \<or> (r, l) \<in> A)"

lemma acked_only_mono: "acked_only A m \<Longrightarrow> A \<subseteq> B \<Longrightarrow> acked_only B m"
  unfolding acked_only_def by blast

lemma acked_only_ack: "acked_only A m \<Longrightarrow> acked_only (insert (i, l) A) (record_replica_ack i l m)"
  by (auto simp: acked_only_def hget_ack max_def split: if_splits option.splits)

lemma acked_only_drop: "acked_only A m \<Longrightarrow> acked_only A (drop_replica i m)"
  by (auto simp: acked_only_def drop_replica_def split: if_splits)

lemma waiter_slots [simp]:
  "pr_waiter (snd (ensure_slot now i l p)) = pr_waiter p" "pr_waiter (advance_slot now i c r p) = pr_waiter p"
  "pr_waiter (touch_slot now i p) = pr_waiter p" "pr_waiter (snd (slot_rebootstrap_reason now i since old p)) = pr_waiter p"
  "pr_waiter (snd (enforce_retention_limits now p)) = pr_waiter p" "pr_waiter (snd (oldest_available crc p)) = pr_waiter p"
  "pr_waiter (snd (log_prune crc authority t l p)) = pr_waiter p"
  by (auto simp: ensure_slot_def advance_slot_def touch_slot_def slot_rebootstrap_reason_def enforce_retention_limits_def
      oldest_available_def log_prune_def Let_def split: option.split prod.split sum.split)

lemma waiter_registry [simp]:
  "pr_waiter (snd (register_replica_with_region_at now i region l p)) = pr_waiter p"
  "pr_waiter (snd (ensure_replica_registered now i l p)) = pr_waiter p"
  "pr_waiter (snd (set_replica_rebootstrapping i f p)) = pr_waiter p"
  "pr_waiter (note_replica_pull now i sent p) = pr_waiter p"
  by (auto simp: register_replica_with_region_at_def ensure_replica_registered_def bump_topology_epoch_def set_replica_rebootstrapping_def
      note_replica_pull_def case_prod_unfold Let_def split: option.split)

lemma waiter_plan [simp]: "pr_waiter (snd (plan_replica_resume now i since old p)) = pr_waiter p"
  by (cases "slot_rebootstrap_reason now i since old p") (use waiter_slots(4) [of now i since old p] in \<open>auto simp: plan_replica_resume_def Let_def split: option.split\<close>)

lemma waiter_prune [simp]: "pr_waiter (snd (prune_retained_wal_through crc authority now a p)) = pr_waiter p"
  using waiter_slots(5,7) by (auto simp: prune_retained_wal_through_def Let_def split: prod.split sum.split) (metis snd_conv waiter_slots(5,7))+

lemma acked_only_step: "acked_only A (pr_waiter p) \<Longrightarrow> acked_only (op_acks op \<union> A) (pr_waiter (primary_do crc authority op p))"
proof (cases op)
  case (PUnregister i)
  assume "acked_only A (pr_waiter p)"
  with PUnregister show ?thesis by (simp add: unregister_replica_def Let_def bump_topology_epoch_def acked_only_drop)
qed (simp_all add: append_logical_record_def register_replica_with_region_def ack_replica_def ack_replica_lsn_with_observability_def
    Let_def pull_plan_def case_prod_unfold acked_only_ack)

lemma acked_only_run: "acked_only A (pr_waiter p) \<Longrightarrow> acked_only (acks_of ops \<union> A) (pr_waiter (primary_run crc authority ops p))"
proof (induction ops arbitrary: A p)
  case (Cons op ops)
  from Cons.IH [OF acked_only_step [OF Cons.prems, of op crc authority]] show ?case
    by (simp add: acks_of_def Un_ac)
qed (simp add: acks_of_def)

subsection \<open>Waiting for a quorum\<close>

lemma acked_quorum:
  assumes "acked_only A m" and "0 < t" and "0 < n" and "t \<le> commit_watermark m n"
  shows "\<exists>R. finite R \<and> n \<le> card R \<and> (\<forall>r \<in> R. \<exists>l \<ge> t. (r, l) \<in> A)"
proof (intro exI conjI)
  have wf: "hmap_wf m" using assms(1) by (simp add: acked_only_def)
  show many: "n \<le> card (acked_past m t)" using watermark_reached [OF wf assms(3,2)] assms(4) by simp
  show "finite (acked_past m t)" using many assms(3) card.infinite by fastforce
  show "\<forall>r \<in> acked_past m t. \<exists>l \<ge> t. (r, l) \<in> A" using assms(1,2) by (fastforce simp: acked_only_def acked_past_def)
qed

lemma enforce_ack_n:
  assumes "enforce_commit_policy_for_policy env t (PolicyAckN n) = Some (Inr (AwaitReached k), w)" and "n \<le> 65535"
  shows "\<exists>j. t \<le> commit_watermark (pr_waiter (qo_primary (snd (ce_obs env j)))) n"
proof -
  let ?obs = "\<lambda>i. (fst (ce_obs env i), pr_waiter (qo_primary (snd (ce_obs env i))))"
  have n: "0 < n" using assms by (cases n) (auto simp: enforce_commit_policy_for_policy_def primary_replica_durability_for_policy_def required_quorum_def)
  then have "\<exists>w'. await_loop ?obs t n (ce_ack_timeout_ms env * 10 ^ 6) (ce_metrics env) 0 = Some (AwaitReached k, w')"
    using assms by (auto simp: enforce_commit_policy_for_policy_def primary_replica_durability_for_policy_def required_quorum_def
        await_replica_acks_def await_acks_def Let_def split: if_splits await_outcome.splits)
  then obtain w' where "await_loop ?obs t n (ce_ack_timeout_ms env * 10 ^ 6) (ce_metrics env) 0 = Some (AwaitReached k, w')" ..
  from await_loop_result [OF this] show ?thesis by (auto simp: await_result_def split: if_splits)
qed

lemma enforce_quorum:
  assumes "enforce_commit_policy_for_policy env t PolicyQuorum = Some (Inr (AwaitReached k), w)" and "ce_has_quorum env"
    and "qc_mode (qo_config (ce_call env)) = QSync n" and "0 < n" and "n < 2 ^ 32"
  shows "\<exists>j. t \<le> commit_watermark (pr_waiter (qo_primary (snd (ce_obs env j)))) n"
proof -
  let ?obs = "\<lambda>i. (fst (ce_obs env i), pr_waiter (qo_primary (snd (ce_obs env i))))"
  have "wait_for_quorum (ce_obs env) (ce_fin env) t (ce_call env) = Some (Inr ())"
    using assms(1,2) by (cases "the (wait_for_quorum (ce_obs env) (ce_fin env) t (ce_call env))")
      (auto simp: enforce_commit_policy_for_policy_def wait_for_replication_quorum_def split: if_splits)
  then have "wait_loop ?obs (\<lambda>m. commit_watermark m n \<ge> t) (qc_timeout (qo_config (ce_call env))) 0 = Some True"
    using assms(3-5) by (auto simp: wait_for_quorum_def is_async_def wait_for_commit_watermark_def Let_def split: sum.splits if_splits)
  from wait_loop_reached [OF this] show ?thesis by auto
qed

text \<open>C34: A commit at a position other than 0 that has to wait for \<open>n\<close> replicas, by the policy \<open>ack_n\<close> with \<open>n\<close> at most 65535 or
  by a quorum of \<open>n\<close>, and is told that they were reached, was acknowledged at or past its position by at least \<open>n\<close> different replicas, whatever registrations, pulls, prunes,
  unregistrations, repeated and stale acknowledgements were interleaved with the wait.\<close>

theorem commit_acked_by_quorum:
  assumes "\<forall>i. \<exists>ops. acks_of ops \<subseteq> A \<and> qo_primary (snd (ce_obs env i)) = primary_run crc authority ops p0"
    and "pr_waiter p0 = []" and "0 < t"
    and "(policy = PolicyAckN n \<and> n \<le> 65535) \<or>
      (policy = PolicyQuorum \<and> ce_has_quorum env \<and> qc_mode (qo_config (ce_call env)) = QSync n \<and> n < 2 ^ 32)"
    and "0 < n" and "enforce_commit_policy_for_policy env t policy = Some (Inr (AwaitReached k), w)"
  shows "\<exists>R. finite R \<and> n \<le> card R \<and> (\<forall>r \<in> R. \<exists>l \<ge> t. (r, l) \<in> A)"
proof -
  obtain j where j: "t \<le> commit_watermark (pr_waiter (qo_primary (snd (ce_obs env j)))) n"
    using assms(4-6) enforce_ack_n enforce_quorum by metis
  obtain ops where ops: "acks_of ops \<subseteq> A" "qo_primary (snd (ce_obs env j)) = primary_run crc authority ops p0" using assms(1) by blast
  have "acked_only {} (pr_waiter p0)" using assms(2) by (simp add: acked_only_def hmap_wf_def)
  from acked_only_mono [OF acked_only_run [OF this, of ops crc authority]] ops have "acked_only A (pr_waiter (qo_primary (snd (ce_obs env j))))" by simp
  from acked_quorum [OF this assms(3,5) j] show ?thesis .
qed

definition demo_acks :: "primary_op list" where
  "demo_acks = [PAckLsn 1 ''a'' 5 5 0 0, PAck 2 ''b'' 7, PAck 3 ''b'' 2]"

definition demo_env :: commit_env where
  "demo_env =
     (let q = quorum_coordinator_new (primary_run (\<lambda>_. 0) (\<lambda>_. None) demo_acks demo_primary) (quorum_sync 2) in
      \<lparr>ce_obs = (\<lambda>i. (i, q)), ce_fin = (0, q), ce_call = q, ce_has_quorum = True, ce_has_replication = True,
       ce_fail_on_timeout = True, ce_ack_timeout_ms = 1, ce_event_error = None, ce_metrics = \<lparr>reached_total = 0, timed_out_total = 0,
       not_required_total = 0, last_wait_micros = 0\<rparr>\<rparr>)"

lemma demo_waiter: "pr_waiter (primary_run (\<lambda>_. 0) (\<lambda>_. None) demo_acks demo_primary) = [(''a'', 5), (''b'', 7)]"
  by (simp add: demo_acks_def demo_primary_defs ack_replica_def primary_run_def)

theorem commit_acked_by_quorum_witness:
  "\<exists>R. finite R \<and> 2 \<le> card R \<and> (\<forall>r \<in> R. \<exists>l \<ge> 4. (r, l) \<in> {(''a'', 5 :: u64), (''b'', 7), (''b'', 2)})"
proof -
  let ?w = "record_outcome_metrics True 0 (ce_metrics demo_env)"
  have obs: "\<forall>i. \<exists>ops. acks_of ops \<subseteq> {(''a'', 5), (''b'', 7), (''b'', 2)} \<and>
      qo_primary (snd (ce_obs demo_env i)) = primary_run (\<lambda>_. 0) (\<lambda>_. None) ops demo_primary"
    by (intro allI exI [of _ demo_acks]) (simp add: demo_env_def quorum_coordinator_new_def acks_of_def demo_acks_def Let_def)
  have "commit_watermark [(''a'', 5), (''b'', 7)] 2 = (5 :: u64)" by (simp add: commit_watermark_def)
  then have "enforce_commit_policy_for_policy demo_env 4 (PolicyAckN 2) = Some (Inr (AwaitReached 2), ?w)"
    by (simp add: enforce_commit_policy_for_policy_def primary_replica_durability_for_policy_def required_quorum_def await_replica_acks_def
        await_acks_def await_loop_step demo_env_def quorum_coordinator_new_def demo_waiter count_at_or_past_def Let_def)
  with obs show ?thesis
    by (intro commit_acked_by_quorum [of _ demo_env "\<lambda>_. 0" "\<lambda>_. None" demo_primary 4 "PolicyAckN 2" 2 2 ?w])
      (simp_all add: demo_primary_def primary_new_def)
qed

lemma await_replica_acks_ends:
  assumes "\<forall>limit. \<exists>i. limit \<le> fst (ce_obs env i)"
  shows "await_replica_acks env t n timeout \<noteq> None"
proof -
  obtain k where "timeout \<le> fst (ce_obs env k)" using assms by blast
  then show ?thesis using await_loop_ends [of timeout "\<lambda>i. (fst (ce_obs env i), pr_waiter (qo_primary (snd (ce_obs env i))))" k 0]
    by (simp add: await_replica_acks_def await_acks_def)
qed

lemma wait_loop_timed_ends: "limit \<le> fst (obs k) \<Longrightarrow> \<exists>b. wait_loop obs P (Some limit) 0 = Some b"
  using wait_loop_ends [of P obs k "Some limit" 0] by auto

lemma wait_for_replication_quorum_ends:
  assumes "\<forall>limit. \<exists>i. limit \<le> fst (ce_obs env i)" and "ce_has_quorum env \<longrightarrow> qc_timeout (qo_config (ce_call env)) \<noteq> None"
  shows "\<exists>r. wait_for_replication_quorum env t = Some r"
proof (cases "ce_has_quorum env")
  case True
  then obtain limit k where limit: "qc_timeout (qo_config (ce_call env)) = Some limit" "limit \<le> fst (ce_obs env k)" using assms by blast
  have "\<exists>b. wait_loop (\<lambda>i. (fst (ce_obs env i), pr_waiter (qo_primary (snd (ce_obs env i))))) P (Some limit) 0 = Some b" for P
    using limit(2) by (intro wait_loop_timed_ends [of _ _ k]) simp
  with True limit wait_loop_timed_ends [of limit "ce_obs env" k] show ?thesis
    by (auto simp: wait_for_replication_quorum_def wait_for_quorum_def wait_for_commit_watermark_def wait_for_change_until_def Let_def
        split: sum.split quorum_mode.split)
qed (simp add: wait_for_replication_quorum_def)

text \<open>C38: Enforcing a commit policy ends: when the clock runs on and the coordinator has a deadline, the call returns, however the table changes meanwhile.
  A local or remote-log policy returns at once with nothing required, and when the process is set to fail on a timeout no timed-out wait is
  reported as a success.\<close>

theorem commit_policy_returns:
  assumes "\<forall>limit. \<exists>i. limit \<le> fst (ce_obs env i)"
    and "ce_has_quorum env \<longrightarrow> qc_timeout (qo_config (ce_call env)) \<noteq> None"
  shows "\<exists>r w. enforce_commit_policy_for_policy env t policy = Some (r, w) \<and>
    (policy \<in> {PolicyLocal, PolicyRemoteWal, PolicyAckN 0} \<longrightarrow> r = Inr NotRequired) \<and>
    (ce_fail_on_timeout env \<longrightarrow> (\<forall>observed required. r \<noteq> Inr (AwaitTimedOut observed required)))"
proof -
  show ?thesis
  proof (cases "policy = PolicyQuorum")
    case True
    obtain r where "wait_for_replication_quorum env t = Some r" using wait_for_replication_quorum_ends [OF assms] by blast
    with True show ?thesis by (auto simp: enforce_commit_policy_for_policy_def split: sum.split)
  next
    case False
    let ?n = "required_quorum (primary_replica_durability_for_policy policy)"
    have local_zero: "policy \<in> {PolicyLocal, PolicyRemoteWal, PolicyAckN 0} \<longrightarrow> ?n = 0"
      by (auto simp: primary_replica_durability_for_policy_def required_quorum_def)
    obtain outcome w where "await_replica_acks env t ?n (ce_ack_timeout_ms env * 10 ^ 6) = Some (outcome, w)"
      using await_replica_acks_ends [OF assms(1)] by (metis not_None_eq surj_pair)
    with False local_zero show ?thesis
      by (cases outcome; cases "?n = 0") (auto simp: enforce_commit_policy_for_policy_def Let_def)
  qed
qed

theorem commit_policy_returns_witness:
  "\<exists>r w. enforce_commit_policy_for_policy demo_env 9 PolicyQuorum = Some (r, w) \<and> r \<noteq> Inr (AwaitTimedOut 0 1)"
proof -
  have "\<forall>limit. \<exists>i. limit \<le> fst (ce_obs demo_env i)" "ce_has_quorum demo_env \<longrightarrow> qc_timeout (qo_config (ce_call demo_env)) \<noteq> None"
    "ce_fail_on_timeout demo_env"
    by (auto simp: demo_env_def Let_def quorum_coordinator_new_def quorum_sync_def)
  with commit_policy_returns [of demo_env 9 PolicyQuorum] show ?thesis by blast
qed

subsection \<open>Quorums of regions\<close>

definition region_acked :: "u64 \<Rightarrow> quorum_coordinator \<Rightarrow> string \<Rightarrow> bool" where
  "region_acked t q region \<longleftrightarrow>
     (\<exists>r \<in> set (pr_replicas (qo_primary q)). hget (qo_regions q) (rs_id r) = Some region \<and> t \<le> rs_last_durable_lsn r)"

lemma acked_regions_iff: "region \<in> acked_regions t q \<longleftrightarrow> region_acked t q region"
  by (force simp: acked_regions_def region_acked_def List.map_filter_def)

lemma le_fold_max: "t \<le> fold max ls (l :: 'a :: linorder) \<longleftrightarrow> (\<exists>x \<in> set (l # ls). t \<le> x)"
  by (induction ls arbitrary: l) (auto simp: le_max_iff_disj)

lemma region_watermark_iff:
  "0 < t \<Longrightarrow> t \<le> region_watermark_loop q m regions \<longleftrightarrow> t \<le> m \<and> (\<forall>region \<in> set regions. region_acked t q region)"
proof (induction regions arbitrary: m)
  case (Cons region regions)
  let ?ls = "map rs_last_durable_lsn (filter (\<lambda>r. hget (qo_regions q) (rs_id r) = Some region) (pr_replicas (qo_primary q)))"
  have acked: "region_acked t q region \<longleftrightarrow> (\<exists>l \<in> set ?ls. t \<le> l)" by (auto simp: region_acked_def)
  show ?case
  proof (cases ?ls)
    case Nil
    then have "\<not> region_acked t q region" using acked by simp
    with Nil Cons.prems show ?thesis by simp
  next
    case (Cons l ls)
    with acked have "region_acked t q region \<longleftrightarrow> t \<le> fold max ls l" by (simp only: le_fold_max)
    with Cons Cons.IH [OF Cons.prems] show ?thesis by auto
  qed
qed simp

text \<open>C39: The two ways of deciding a quorum agree: with a quorum mode that counts replicas or names at least one region, a position
  other than 0 has its quorum, by that many replicas or by an acknowledgement in every required region, exactly when the
  coordinator's commit watermark has reached it. For counted quorums both ways compare the same count; the substance is in the regions.\<close>

theorem quorum_watermark_agrees:
  assumes "0 < t" and "qc_mode (qo_config q) \<notin> {QAsync, QRegions []}"
  shows "t \<le> quorum_commit_watermark q \<longleftrightarrow> has_quorum t q"
  using assms region_watermark_iff [OF assms(1), of q "- 1"]
  by (auto simp: quorum_commit_watermark_def has_quorum_def region_commit_watermark_def acked_regions_iff list_all_iff
      word_order.extremum split: quorum_mode.split)

theorem quorum_watermark_agrees_witness:
  "(2 :: u64) \<le> quorum_commit_watermark (bind_replica_region ''r'' ''eu'' (quorum_coordinator_new
     (snd (register_replica_with_region_at 5 ''r'' None 2 demo_primary)) (quorum_regions [''eu''])))"
proof -
  let ?q = "bind_replica_region ''r'' ''eu'' (quorum_coordinator_new
     (snd (register_replica_with_region_at 5 ''r'' None 2 demo_primary)) (quorum_regions [''eu'']))"
  have "has_quorum 2 ?q"
    by (simp add: has_quorum_def bind_replica_region_def quorum_coordinator_new_def quorum_regions_def acked_regions_iff region_acked_def
        demo_primary_defs)
  then show ?thesis
    by (subst quorum_watermark_agrees) (simp_all add: bind_replica_region_def quorum_coordinator_new_def quorum_regions_def)
qed

text \<open>A quorum of regions is refused by every coordinator that has been built but told of no region: the region a replica
  registers with does not count, because the coordinator looks only at the regions bound to it by hand. The wait fails at once
  with every required region reported missing, even when a replica of the region has acknowledged every position.\<close>

lemma region_quorum_refused:
  "wait_for_quorum obs fin t (quorum_coordinator_new
     (ack_replica now ''r'' (- 1) (snd (register_replica_with_region now ''r'' (Some region) p))) (quorum_regions (region # others))) =
   Some (Inl (MissingRegions (region # others)))"
  by (simp add: wait_for_quorum_def quorum_coordinator_new_def quorum_regions_def is_async_def validate_preconditions_def connected_regions_def)

end
