(* ===== verification/Page_Store.thy ===== *)
theory Page_Store
  imports Slotted_Page
begin

section \<open>Page stores and the pager\<close>

text \<open>
  The trait \<open>PageStore\<close> of \<open>src/crates/reddb-engine/src/storage/page_store.rs\<close>, through which the B-tree and the overflow chains
  reach their pages, the free list of \<open>storage/freelist.rs\<close> and the pager of \<open>storage/pager.rs\<close> that implements
  the trait. The trait is a record of operations over a state; its contract is the locale \<open>paging\<close>,
  which follows from \<open>page_keeping\<close>, the contract that also speaks of allocated pages that were not written; both
  are interpreted on the pager. The pager's file is a map from page numbers to pages and its operations do not fail; the
  host's log barrier accepts every call and keeps no ownership journal, as the trait's defaults. Which cached
  page an insertion evicts is decided by the sieve of \<open>page_cache.rs\<close>; here the sequence of victims is part
  of the state and can be anything.
\<close>

subsection \<open>Calls on a state that may fail\<close>

type_synonym ('s, 'e, 'a) act = "'s \<Rightarrow> ('e + 'a) \<times> 's"

definition act_return :: "'a \<Rightarrow> ('s, 'e, 'a) act" where
  "act_return x s = (Inr x, s)"

definition act_fail :: "'e \<Rightarrow> ('s, 'e, 'a) act" where
  "act_fail e s = (Inl e, s)"

definition act_lift :: "'e + 'a \<Rightarrow> ('s, 'e, 'a) act" where
  "act_lift r s = (r, s)"

definition act_bind :: "('s, 'e, 'a) act \<Rightarrow> ('a \<Rightarrow> ('s, 'e, 'b) act) \<Rightarrow> ('s, 'e, 'b) act" where
  "act_bind m f s = (case m s of (Inl e, s') \<Rightarrow> (Inl e, s') | (Inr x, s') \<Rightarrow> f x s')"

definition act_map_err :: "('e \<Rightarrow> 'f) \<Rightarrow> ('s, 'e, 'a) act \<Rightarrow> ('s, 'f, 'a) act" where
  "act_map_err f m s = (case m s of (r, s') \<Rightarrow> (map_err f r, s'))"

named_theorems act_simps "running calls on a state"

lemma act_run [simp, act_simps]:
  "act_return x s = (Inr x, s)" "act_fail e s = (Inl e, s)" "act_lift r s = (r, s)"
  by (simp_all add: act_return_def act_fail_def act_lift_def)

lemma act_bind_ok [act_simps]: "m s = (Inr x, s') \<Longrightarrow> act_bind m f s = f x s'"
  by (simp add: act_bind_def)

lemma act_bind_err [act_simps]: "m s = (Inl e, s') \<Longrightarrow> act_bind m f s = (Inl e, s')"
  by (simp add: act_bind_def)

lemma act_bind_return [simp, act_simps]: "act_bind (act_return x) f = f x" "act_bind (act_lift (Inr x)) f = f x"
  by (simp_all add: act_bind_def fun_eq_iff)

lemma act_bind_lift_err [simp, act_simps]: "act_bind (act_lift (Inl e)) f = act_fail e"
  by (simp add: act_bind_def fun_eq_iff)

lemma act_map_err_ok [act_simps]: "m s = (Inr x, s') \<Longrightarrow> act_map_err f m s = (Inr x, s')"
  by (simp add: act_map_err_def)

lemma act_map_err_err [act_simps]: "m s = (Inl e, s') \<Longrightarrow> act_map_err f m s = (Inl (f e), s')"
  by (simp add: act_map_err_def)

subsection \<open>The trait\<close>

datatype pager_error =
    PgIo string | PgPage page_error | PgInvalidDatabase string | PgReadOnly | PgPageNotFound u32 | PgLocked | PgLockPoisoned
  | PgEncryptionRequired | PgPlainDatabaseRefusesKey | PgInvalidKey | PgSuperblockZoneUnrecoverable string
  | PgManifestZoneCorrupt string | PgDwbZoneCorrupt string | PgLegacySidecarStore string | PgLegacyPagedStore string

record 's page_store =
  ps_read_page :: "u32 \<Rightarrow> ('s, pager_error, bytes) act"
  ps_write_page :: "u32 \<Rightarrow> bytes \<Rightarrow> ('s, pager_error, unit) act"
  ps_allocate_page :: "page_type \<Rightarrow> ('s, pager_error, bytes) act"
  ps_free_page :: "u32 \<Rightarrow> ('s, pager_error, unit) act"

subsection \<open>Header fields\<close>

definition paged_page_type :: "bytes \<Rightarrow> byte" where
  "paged_page_type page = page ! 0"

definition paged_page_id :: "bytes \<Rightarrow> u32" where
  "paged_page_id page = u32_of_le (window 8 4 page)"

definition page_get_type :: "bytes \<Rightarrow> page_error + page_type" where
  "page_get_type page = ok_or (page_type_from_u8 (paged_page_type page)) (InvalidPageType (paged_page_type page))"

subsection \<open>The free list\<close>

datatype free_list_error = FlEmpty | FlCorrupted string | FlInvalidTrunk u32

record free_list =
  fl_trunk_head :: u32
  fl_free_pages :: "u32 list"
  fl_total_free :: u32
  fl_dirty :: bool

definition free_ids_per_trunk :: nat where
  "free_ids_per_trunk = (paged_page_size - paged_page_header_size - 8) div 4"

definition free_list_new :: free_list where
  "free_list_new = \<lparr>fl_trunk_head = 0, fl_free_pages = [], fl_total_free = 0, fl_dirty = False\<rparr>"

definition fl_allocate :: "free_list \<Rightarrow> u32 option \<times> free_list" where
  "fl_allocate f =
     (if fl_free_pages f = [] then (None, f)
      else (Some (last (fl_free_pages f)),
            f\<lparr>fl_free_pages := butlast (fl_free_pages f),
              fl_total_free := (if fl_total_free f = 0 then 0 else fl_total_free f - 1), fl_dirty := True\<rparr>))"

definition fl_free :: "u32 \<Rightarrow> free_list \<Rightarrow> free_list" where
  "fl_free page_id f = f\<lparr>fl_free_pages := fl_free_pages f @ [page_id], fl_total_free := fl_total_free f + 1, fl_dirty := True\<rparr>"

definition note_durable_trunk_allocation :: "u32 \<Rightarrow> free_list \<Rightarrow> free_list" where
  "note_durable_trunk_allocation remaining f =
     f\<lparr>fl_total_free := max (if fl_total_free f = 0 then 0 else fl_total_free f - 1) remaining\<rparr>"

definition load_from_trunk :: "bytes \<Rightarrow> free_list \<Rightarrow> free_list_error + free_list" where
  "load_from_trunk trunk f =
     (if page_get_type trunk \<noteq> Inr FreelistTrunk then Inl (FlInvalidTrunk (paged_page_id trunk))
      else
        let next_trunk = u32_of_le (window 32 4 trunk);
            count = unat (u32_of_le (window 36 4 trunk)) in
        if next_trunk = paged_page_id trunk then Inl (FlCorrupted ''trunk points to itself'')
        else if count > free_ids_per_trunk then Inl (FlCorrupted ''too many trunk entries'')
        else
          let pages = fl_free_pages f @ paged_page_id trunk # map (\<lambda>i. u32_of_le (window (40 + i * 4) 4 trunk)) [0..<count] in
          Inr (f\<lparr>fl_free_pages := pages,
                 fl_total_free := max (if fl_total_free f = - 1 then - 1 else fl_total_free f + 1) (word_of_nat (length pages)),
                 fl_dirty := True, fl_trunk_head := next_trunk\<rparr>))"

subsection \<open>The pager\<close>

record pager =
  pg_file :: "u32 \<Rightarrow> bytes option"
  pg_cache :: "(u32, bytes \<times> bool) hmap"
  pg_victims :: "u32 option list"
  pg_freelist :: free_list
  pg_page_count :: u32
  pg_header_freelist_head :: u32
  pg_deferred :: bool
  pg_pending :: "u32 list"
  pg_recovery :: "(u32, bytes) hmap"
  pg_read_only :: bool
  pg_verify_checksums :: bool
  pg_writeback_failed :: bool

definition first_allocatable_page :: u32 where
  "first_allocatable_page = 67"

definition dwb_max_pages_per_frame :: nat where
  "dwb_max_pages_per_frame = (64 * paged_page_size - 12) div (4 + paged_page_size)"

definition cache_evict :: "u32 option \<Rightarrow> (u32, bytes \<times> bool) hmap \<Rightarrow> bytes option \<times> (u32, bytes \<times> bool) hmap" where
  "cache_evict victim c =
     (case victim of
        None \<Rightarrow> (None, c)
      | Some v \<Rightarrow>
          (case hget c v of
             None \<Rightarrow> (None, c)
           | Some (page, dirty) \<Rightarrow> (if dirty then Some page else None, hdel v c)))"

definition cache_insert :: "u32 \<Rightarrow> bytes \<Rightarrow> bool \<Rightarrow> bool \<Rightarrow> pager \<Rightarrow> bytes option \<times> pager" where
  "cache_insert page_id page dirty replace_existing p =
     (case hget (pg_cache p) page_id of
        Some (old, was_dirty) \<Rightarrow>
          (None, if replace_existing then p\<lparr>pg_cache := hput page_id (page, was_dirty \<or> dirty) (pg_cache p)\<rparr> else p)
      | None \<Rightarrow>
          (let (evicted, c) = cache_evict (case pg_victims p of [] \<Rightarrow> None | v # _ \<Rightarrow> v) (pg_cache p) in
           (evicted, p\<lparr>pg_cache := hput page_id (page, dirty) c, pg_victims := tl (pg_victims p)\<rparr>)))"

definition dirty_page_ids :: "pager \<Rightarrow> u32 list" where
  "dirty_page_ids p = map fst (filter (\<lambda>(_, _, dirty). dirty) (pg_cache p))"

definition mark_clean :: "u32 list \<Rightarrow> (u32, bytes \<times> bool) hmap \<Rightarrow> (u32, bytes \<times> bool) hmap" where
  "mark_clean ids c = hmap_values (\<lambda>i (page, dirty). (page, dirty \<and> i \<notin> set ids)) c"

definition flush_dirty_pages :: "u32 list \<Rightarrow> pager \<Rightarrow> (u32 \<times> bytes) list \<times> pager" where
  "flush_dirty_pages ids p =
     (List.map_filter (\<lambda>i. case hget (pg_cache p) i of Some (page, True) \<Rightarrow> Some (i, page) | _ \<Rightarrow> None) ids,
      p\<lparr>pg_cache := mark_clean ids (pg_cache p)\<rparr>)"

definition ensure_writeback_available :: "pager \<Rightarrow> pager_error + unit" where
  "ensure_writeback_available p = ensure (\<not> pg_writeback_failed p) (PgIo ''page writeback failed'')"

definition write_pages_through_dwb :: "(u32 \<times> bytes) list \<Rightarrow> (pager, pager_error, unit) act" where
  "write_pages_through_dwb pages p =
     (if pg_read_only p then (Inl PgReadOnly, p)
      else case ensure_writeback_available p of
          Inl e \<Rightarrow> (Inl e, p)
        | Inr _ \<Rightarrow> (Inr (), p\<lparr>pg_file := fold (\<lambda>(i, page) f. f(i := Some page)) pages (pg_file p)\<rparr>))"

definition write_dirty_page_batch :: "(u32 \<times> bytes) list \<Rightarrow> (pager, pager_error, unit) act" where
  "write_dirty_page_batch pages p =
     (if pages = [] then (Inr (), p)
      else case write_pages_through_dwb pages p of
          (Inr _, p') \<Rightarrow> (Inr (), p')
        | (Inl e, p') \<Rightarrow>
            (Inl e, p'\<lparr>pg_writeback_failed := True,
                       pg_cache := hmap_values (\<lambda>i (page, dirty). (page, dirty \<or> i \<in> fst ` set pages)) (pg_cache p')\<rparr>))"

definition write_evicted_dirty_page :: "bytes \<Rightarrow> u32 option \<Rightarrow> (pager, pager_error, unit) act" where
  "write_evicted_dirty_page page pending_page p =
     (let ids = take dwb_max_pages_per_frame (dirty_page_ids p);
          ids = take (dwb_max_pages_per_frame - 1) (filter (\<lambda>i. Some i \<noteq> pending_page) ids);
          (pages, p1) = flush_dirty_pages (sort ids) p in
      write_dirty_page_batch (sort_key fst (pages @ [(paged_page_id page, page)])) p1)"

definition admit_page :: "u32 \<Rightarrow> bytes \<Rightarrow> bool \<Rightarrow> bool \<Rightarrow> u32 option \<Rightarrow> (pager, pager_error, unit) act" where
  "admit_page page_id page dirty replace_existing pending_page p =
     (case cache_insert page_id page dirty replace_existing p of
        (None, p') \<Rightarrow> (Inr (), p')
      | (Some evicted, p') \<Rightarrow> write_evicted_dirty_page evicted pending_page p')"

definition read_page_raw :: "(bytes \<Rightarrow> u32) \<Rightarrow> u32 \<Rightarrow> pager \<Rightarrow> pager_error + bytes" where
  "read_page_raw crc page_id p =
     (case pg_file p page_id of
        None \<Rightarrow> Inl (PgIo ''failed to fill whole buffer'')
      | Some page \<Rightarrow>
          if pg_verify_checksums p \<and> page_id \<noteq> 0
          then and_then (map_err PgPage (verify_checksum crc page)) (\<lambda>_. Inr page) else Inr page)"

definition pager_read_page :: "(bytes \<Rightarrow> u32) \<Rightarrow> u32 \<Rightarrow> (pager, pager_error, bytes) act" where
  "pager_read_page crc page_id p =
     (case (if pg_read_only p then hget (pg_recovery p) page_id else None) of
        Some page \<Rightarrow>
          ((if pg_verify_checksums p then and_then (map_err PgPage (verify_checksum crc page)) (\<lambda>_. Inr page) else Inr page), p)
      | None \<Rightarrow>
          (case hget (pg_cache p) page_id of
             Some (page, _) \<Rightarrow> (Inr page, p)
           | None \<Rightarrow>
               (case read_page_raw crc page_id p of
                  Inl e \<Rightarrow> (Inl e, p)
                | Inr page \<Rightarrow> act_bind (admit_page page_id page False False None) (\<lambda>_. act_return page) p)))"

definition pager_write_page :: "(bytes \<Rightarrow> u32) \<Rightarrow> u32 \<Rightarrow> bytes \<Rightarrow> (pager, pager_error, unit) act" where
  "pager_write_page crc page_id page p =
     (case ensure_writeback_available p of
        Inl e \<Rightarrow> (Inl e, p)
      | Inr _ \<Rightarrow>
          if pg_read_only p then (Inl PgReadOnly, p)
          else admit_page page_id (update_checksum crc page) True True (Some page_id) p)"

text \<open>Taking the last number out of the first trunk on disk, for a host without an ownership journal.\<close>

definition allocate_unjournaled_trunk :: "(bytes \<Rightarrow> u32) \<Rightarrow> bytes \<Rightarrow> u32 list \<Rightarrow> (pager, pager_error, u32) act" where
  "allocate_unjournaled_trunk crc trunk pages p =
     (let page_id = hd pages in
      if length pages > 1 then
        let remaining = word_of_nat (length pages - 2);
            trunk' = update_checksum crc (overwrite 36 (u32_le remaining) trunk);
            p1 = p\<lparr>pg_cache := hdel (paged_page_id trunk') (pg_cache p)\<rparr> in
        act_bind (write_pages_through_dwb [(paged_page_id trunk', trunk')]) (\<lambda>_ p2.
          (Inr page_id, p2\<lparr>pg_freelist := note_durable_trunk_allocation remaining (pg_freelist p2)\<rparr>)) p1
      else
        case load_from_trunk trunk (pg_freelist p) of
          Inl e \<Rightarrow> (Inl (PgInvalidDatabase ''Freelist''), p)
        | Inr f \<Rightarrow>
            (Inr page_id, p\<lparr>pg_freelist := snd (fl_allocate f), pg_header_freelist_head := fl_trunk_head f\<rparr>))"

definition trunk_pages_valid :: "u32 \<Rightarrow> u32 list \<Rightarrow> bool" where
  "trunk_pages_valid page_count pages \<longleftrightarrow>
     list_all (\<lambda>i. first_allocatable_page \<le> i \<and> i < page_count) pages \<and> distinct pages"

definition allocate_page_id :: "(bytes \<Rightarrow> u32) \<Rightarrow> (pager, pager_error, u32) act" where
  "allocate_page_id crc p =
     (if fl_free_pages (pg_freelist p) \<noteq> [] then
        (let (page_id, f) = fl_allocate (pg_freelist p) in (Inr (the page_id), p\<lparr>pg_freelist := f\<rparr>))
      else if fl_trunk_head (pg_freelist p) \<noteq> 0 then
        let trunk_id = fl_trunk_head (pg_freelist p) in
        act_bind (act_map_err (\<lambda>e. case e of PgPageNotFound _ \<Rightarrow> PgInvalidDatabase ''Freelist trunk missing'' | other \<Rightarrow> other)
          (pager_read_page crc trunk_id)) (\<lambda>trunk.
          if paged_page_id trunk \<noteq> trunk_id then act_fail (PgInvalidDatabase ''misdirected freelist trunk'')
          else case load_from_trunk trunk free_list_new of
              Inl e \<Rightarrow> act_fail (PgInvalidDatabase ''Freelist'')
            | Inr detached \<Rightarrow> (\<lambda>p1.
                let pages = rev (fl_free_pages detached) in
                if \<not> trunk_pages_valid (pg_page_count p1) pages then (Inl (PgInvalidDatabase ''invalid freelist trunk page''), p1)
                else allocate_unjournaled_trunk crc trunk pages p1)) p
      else if pg_page_count p = - 1 then (Inl (PgInvalidDatabase ''page count overflow''), p)
      else (Inr (pg_page_count p), p\<lparr>pg_page_count := pg_page_count p + 1\<rparr>))"

definition pager_allocate_page :: "(bytes \<Rightarrow> u32) \<Rightarrow> page_type \<Rightarrow> (pager, pager_error, bytes) act" where
  "pager_allocate_page crc ty p =
     (case ensure_writeback_available p of
        Inl e \<Rightarrow> (Inl e, p)
      | Inr _ \<Rightarrow>
          if pg_read_only p then (Inl PgReadOnly, p)
          else act_bind (allocate_page_id crc) (\<lambda>page_id.
            act_bind (admit_page page_id (page_new ty page_id) True True (Some page_id)) (\<lambda>_. act_return (page_new ty page_id))) p)"

definition pager_free_page :: "u32 \<Rightarrow> (pager, pager_error, unit) act" where
  "pager_free_page page_id p =
     (case ensure_writeback_available p of
        Inl e \<Rightarrow> (Inl e, p)
      | Inr _ \<Rightarrow>
          if pg_read_only p then (Inl PgReadOnly, p)
          else if pg_deferred p then
            (if page_id < first_allocatable_page \<or> pg_page_count p \<le> page_id then (Inl (PgInvalidDatabase ''invalid deferred free page''), p)
             else (Inr (), p\<lparr>pg_pending := List.insert page_id (pg_pending p)\<rparr>))
          else (Inr (), p\<lparr>pg_cache := hdel page_id (pg_cache p), pg_freelist := fl_free page_id (pg_freelist p)\<rparr>))"

definition pager_store :: "(bytes \<Rightarrow> u32) \<Rightarrow> pager page_store" where
  "pager_store crc =
     \<lparr>ps_read_page = pager_read_page crc, ps_write_page = pager_write_page crc,
      ps_allocate_page = pager_allocate_page crc, ps_free_page = pager_free_page\<rparr>"

subsection \<open>The contract\<close>

text \<open>
  \<open>holds s U V n\<close>: in state \<open>s\<close> the client owns the pages \<open>U\<close>, those in the domain of \<open>V\<close> have been written and read as
  \<open>V\<close> says, and \<open>n\<close> more pages can be allocated.
\<close>

locale paging =
  fixes ps :: "'s page_store"
    and crc :: "bytes \<Rightarrow> u32"
    and holds :: "'s \<Rightarrow> u32 set \<Rightarrow> (u32 \<Rightarrow> bytes option) \<Rightarrow> nat \<Rightarrow> bool"
  assumes holds_dom: "holds s U V n \<Longrightarrow> dom V \<subseteq> U"
    and holds_pos: "holds s U V n \<Longrightarrow> 0 \<notin> U"
    and read_law: "holds s U V n \<Longrightarrow> V i = Some page \<Longrightarrow> \<exists>s'. ps_read_page ps i s = (Inr page, s') \<and> holds s' U V n"
    and write_law: "holds s U V n \<Longrightarrow> i \<in> U \<Longrightarrow> length page = paged_page_size \<Longrightarrow> paged_page_id page = i \<Longrightarrow>
      \<exists>s'. ps_write_page ps i page s = (Inr (), s') \<and> holds s' U (V(i \<mapsto> update_checksum crc page)) n"
    and allocate_law: "holds s U V (Suc n) \<Longrightarrow>
      \<exists>i s'. ps_allocate_page ps ty s = (Inr (page_new ty i), s') \<and> i \<notin> U \<and> holds s' (insert i U) V n"
    and free_law: "holds s U V n \<Longrightarrow> i \<in> U \<Longrightarrow>
      \<exists>s'. ps_free_page ps i s = (Inr (), s') \<and> holds s' (U - {i}) (V(i := None)) n"

text \<open>
  What a store keeps besides: \<open>keeps s U A V n\<close> says in addition that the pages in the domain of \<open>A\<close> were allocated
  with that type, and read as the fresh page until they are written, unless the store finds them unsealed. A
  store that keeps this satisfies the contract.
\<close>

definition unsealed :: "pager_error \<Rightarrow> bool" where
  "unsealed e = (case e of PgPage (ChecksumMismatch _ _) \<Rightarrow> True | _ \<Rightarrow> False)"

locale page_keeping =
  fixes ps :: "'s page_store"
    and crc :: "bytes \<Rightarrow> u32"
    and keeps :: "'s \<Rightarrow> u32 set \<Rightarrow> (u32 \<Rightarrow> page_type option) \<Rightarrow> (u32 \<Rightarrow> bytes option) \<Rightarrow> nat \<Rightarrow> bool"
  assumes keeps_dom: "keeps s U A V n \<Longrightarrow> dom V \<subseteq> U"
    and keeps_pos: "keeps s U A V n \<Longrightarrow> 0 \<notin> U"
    and keeps_read: "keeps s U A V n \<Longrightarrow> V i = Some page \<Longrightarrow> \<exists>s'. ps_read_page ps i s = (Inr page, s') \<and> keeps s' U A V n"
    and keeps_unwritten: "keeps s U A V n \<Longrightarrow> V i = None \<Longrightarrow> A i = Some ty \<Longrightarrow>
      \<exists>r s'. ps_read_page ps i s = (r, s') \<and> (case r of Inr page \<Rightarrow> page = page_new ty i | Inl e \<Rightarrow> unsealed e) \<and> keeps s' U A V n"
    and keeps_write: "keeps s U A V n \<Longrightarrow> i \<in> U \<Longrightarrow> length page = paged_page_size \<Longrightarrow> paged_page_id page = i \<Longrightarrow>
      \<exists>s'. ps_write_page ps i page s = (Inr (), s') \<and> keeps s' U A (V(i \<mapsto> update_checksum crc page)) n"
    and keeps_allocate: "keeps s U A V (Suc n) \<Longrightarrow>
      \<exists>i s'. ps_allocate_page ps ty s = (Inr (page_new ty i), s') \<and> i \<notin> U \<and> keeps s' (insert i U) (A(i \<mapsto> ty)) V n"
    and keeps_free: "keeps s U A V n \<Longrightarrow> i \<in> U \<Longrightarrow>
      \<exists>s'. ps_free_page ps i s = (Inr (), s') \<and> keeps s' (U - {i}) (A(i := None)) (V(i := None)) n"

sublocale page_keeping \<subseteq> paging ps crc "\<lambda>s U V n. \<exists>A. keeps s U A V n"
proof
  show "dom V \<subseteq> U" if "\<exists>A. keeps s U A V n" for s U V n using that keeps_dom by blast
  show "0 \<notin> U" if "\<exists>A. keeps s U A V n" for s U V n using that keeps_pos by blast
  show "\<exists>s'. ps_read_page ps i s = (Inr page, s') \<and> (\<exists>A. keeps s' U A V n)" if "\<exists>A. keeps s U A V n" "V i = Some page" for s U V n i page
    using that keeps_read by metis
  show "\<exists>s'. ps_write_page ps i page s = (Inr (), s') \<and> (\<exists>A. keeps s' U A (V(i \<mapsto> update_checksum crc page)) n)"
    if "\<exists>A. keeps s U A V n" "i \<in> U" "length page = paged_page_size" "paged_page_id page = i" for s U V n i page
    using that keeps_write by metis
  show "\<exists>i s'. ps_allocate_page ps ty s = (Inr (page_new ty i), s') \<and> i \<notin> U \<and> (\<exists>A. keeps s' (insert i U) A V n)"
    if "\<exists>A. keeps s U A V (Suc n)" for s U V n ty using that keeps_allocate by metis
  show "\<exists>s'. ps_free_page ps i s = (Inr (), s') \<and> (\<exists>A. keeps s' (U - {i}) A (V(i := None)) n)" if "\<exists>A. keeps s U A V n" "i \<in> U" for s U V n i
    using that keeps_free by metis
qed

text \<open>
  A client of a page store, which reads, writes and frees pages it owns, with what it expects of each call;
  a call on a page it does not own is skipped.
\<close>

datatype page_call = CallRead u32 | CallWrite u32 bytes | CallAllocate page_type | CallFree u32

fun served ::
  "'s page_store \<Rightarrow> (bytes \<Rightarrow> u32) \<Rightarrow> page_call list \<Rightarrow> 's \<Rightarrow> u32 set \<Rightarrow> (u32 \<Rightarrow> page_type option) \<Rightarrow> (u32 \<Rightarrow> bytes option) \<Rightarrow> bool" where
  "served ps crc [] s U A V = True"
| "served ps crc (CallRead i # calls) s U A V =
     (if i \<in> U then
        (case V i of
           Some page \<Rightarrow>
             (case ps_read_page ps i s of (Inr page', s') \<Rightarrow> page' = page \<and> served ps crc calls s' U A V | (Inl e, s') \<Rightarrow> False)
         | None \<Rightarrow>
             (case ps_read_page ps i s of
                (Inr page', s') \<Rightarrow> map_option (\<lambda>ty. page_new ty i) (A i) = Some page' \<and> served ps crc calls s' U A V
              | (Inl e, s') \<Rightarrow> unsealed e \<and> served ps crc calls s' U A V))
      else served ps crc calls s U A V)"
| "served ps crc (CallWrite i page # calls) s U A V =
     (if i \<in> U \<and> length page = paged_page_size \<and> paged_page_id page = i then
        (case ps_write_page ps i page s of
           (Inr _, s') \<Rightarrow> served ps crc calls s' U A (V(i \<mapsto> update_checksum crc page)) | (Inl e, s') \<Rightarrow> False)
      else served ps crc calls s U A V)"
| "served ps crc (CallAllocate ty # calls) s U A V =
     (case ps_allocate_page ps ty s of
        (Inr page, s') \<Rightarrow>
          (let i = paged_page_id page in
           page = page_new ty i \<and> i \<noteq> 0 \<and> i \<notin> U \<and> served ps crc calls s' (insert i U) (A(i \<mapsto> ty)) V)
      | (Inl e, s') \<Rightarrow> False)"
| "served ps crc (CallFree i # calls) s U A V =
     (if i \<in> U
      then (case ps_free_page ps i s of
          (Inr _, s') \<Rightarrow> served ps crc calls s' (U - {i}) (A(i := None)) (V(i := None)) | (Inl e, s') \<Rightarrow> False)
      else served ps crc calls s U A V)"

fun allocations :: "page_call list \<Rightarrow> nat" where
  "allocations [] = 0"
| "allocations (CallAllocate ty # calls) = Suc (allocations calls)"
| "allocations (_ # calls) = allocations calls"

subsection \<open>The pager keeps what it was given\<close>

definition current :: "pager \<Rightarrow> u32 \<Rightarrow> bytes option" where
  "current p i = (case hget (pg_cache p) i of Some (page, _) \<Rightarrow> Some page | None \<Rightarrow> pg_file p i)"

definition cache_ok :: "pager \<Rightarrow> bool" where
  "cache_ok p \<longleftrightarrow> hmap_wf (pg_cache p) \<and>
     (\<forall>i page dirty. hget (pg_cache p) i = Some (page, dirty) \<longrightarrow> paged_page_id page = i \<and> (\<not> dirty \<longrightarrow> pg_file p i = Some page))"

definition writable :: "pager \<Rightarrow> bool" where
  "writable p \<longleftrightarrow> \<not> pg_read_only p \<and> \<not> pg_writeback_failed p"

definition same_pager :: "pager \<Rightarrow> pager \<Rightarrow> bool" where
  "same_pager p p' \<longleftrightarrow> pg_freelist p' = pg_freelist p \<and> pg_page_count p' = pg_page_count p \<and> pg_deferred p' = pg_deferred p \<and>
     pg_pending p' = pg_pending p \<and> pg_read_only p' = pg_read_only p \<and> pg_verify_checksums p' = pg_verify_checksums p \<and>
     pg_writeback_failed p' = pg_writeback_failed p"

lemma current_upd [simp]:
  "current (p\<lparr>pg_freelist := f\<rparr>) = current p" "current (p\<lparr>pg_page_count := c\<rparr>) = current p"
  "current (p\<lparr>pg_pending := is\<rparr>) = current p" "current (p\<lparr>pg_header_freelist_head := h\<rparr>) = current p"
  by (simp_all add: current_def fun_eq_iff split: option.split)

lemma cache_ok_upd [simp]:
  "cache_ok (p\<lparr>pg_freelist := f\<rparr>) = cache_ok p" "cache_ok (p\<lparr>pg_page_count := c\<rparr>) = cache_ok p"
  "cache_ok (p\<lparr>pg_pending := is\<rparr>) = cache_ok p" "cache_ok (p\<lparr>pg_header_freelist_head := h\<rparr>) = cache_ok p"
  by (simp_all add: cache_ok_def)

lemma writable_upd [simp]:
  "writable (p\<lparr>pg_freelist := f\<rparr>) = writable p" "writable (p\<lparr>pg_page_count := c\<rparr>) = writable p"
  "writable (p\<lparr>pg_pending := is\<rparr>) = writable p" "writable (p\<lparr>pg_header_freelist_head := h\<rparr>) = writable p"
  "writable (p\<lparr>pg_cache := cs\<rparr>) = writable p" "writable (p\<lparr>pg_file := fs\<rparr>) = writable p"
  by (simp_all add: writable_def)

lemma same_pager_refl [simp]: "same_pager p p" by (simp add: same_pager_def)

lemma same_pager_trans: "same_pager p q \<Longrightarrow> same_pager q r \<Longrightarrow> same_pager p r" by (simp add: same_pager_def)

lemma fold_file:
  "distinct (map fst pages) \<Longrightarrow> fold (\<lambda>(i, page) f. f(i := Some page)) pages f j = (case map_of pages j of Some page \<Rightarrow> Some page | None \<Rightarrow> f j)"
proof (induction pages arbitrary: f)
  case (Cons a pages)
  have "map_of pages (fst a) = None" using Cons.prems by (simp add: map_of_eq_None_iff)
  with Cons show ?case by (cases a) (auto split: option.split)
qed simp

lemma write_batch:
  assumes "writable p" and "distinct (map fst pages)"
  shows "\<exists>p'. write_dirty_page_batch pages p = (Inr (), p') \<and>
    p' = p\<lparr>pg_file := (\<lambda>j. case map_of pages j of Some page \<Rightarrow> Some page | None \<Rightarrow> pg_file p j)\<rparr>"
  using assms fold_file [OF assms(2), of "pg_file p"]
  by (cases "pages = []") (simp_all add: write_dirty_page_batch_def write_pages_through_dwb_def writable_def ensure_writeback_available_def fun_eq_iff)

lemma hget_mark_clean: "hget (mark_clean ids c) i = map_option (\<lambda>(page, dirty). (page, dirty \<and> i \<notin> set ids)) (hget c i)"
  by (simp add: mark_clean_def)

lemma map_filter_pages:
  assumes "distinct ids"
  shows "distinct (map fst (List.map_filter (\<lambda>i. map_option (Pair i) (g i)) ids))"
    and "map_of (List.map_filter (\<lambda>i. map_option (Pair i) (g i)) ids) j = (if j \<in> set ids then g j else None)"
  using assms by (induction ids) (auto simp: List.map_filter_def map_of_eq_None_iff split: if_splits)

lemma flush_dirty_pages_result:
  assumes "distinct ids"
  obtains pages where "flush_dirty_pages ids p = (pages, p\<lparr>pg_cache := mark_clean ids (pg_cache p)\<rparr>)" and "distinct (map fst pages)"
    and "\<And>j. map_of pages j = (if j \<in> set ids then (case hget (pg_cache p) j of Some (page, True) \<Rightarrow> Some page | _ \<Rightarrow> None) else None)"
proof -
  let ?g = "\<lambda>i. case hget (pg_cache p) i of Some (page, True) \<Rightarrow> Some page | _ \<Rightarrow> None"
  have "(\<lambda>i. case hget (pg_cache p) i of Some (page, True) \<Rightarrow> Some (i, page) | _ \<Rightarrow> None) = (\<lambda>i. map_option (Pair i) (?g i))"
    by (auto simp: fun_eq_iff split: option.split bool.split)
  then show ?thesis using that [of "fst (flush_dirty_pages ids p)"] map_filter_pages [OF assms, of ?g]
    by (simp add: flush_dirty_pages_def)
qed

lemma mark_clean_wf: "hmap_wf c \<Longrightarrow> hmap_wf (mark_clean ids c)"
  by (simp add: mark_clean_def hmap_wf_def hmap_values_def comp_def case_prod_unfold)

lemma dirty_ids_distinct: "hmap_wf (pg_cache p) \<Longrightarrow> distinct (dirty_page_ids p)"
  by (simp add: dirty_page_ids_def hmap_wf_def distinct_map_filter)

lemma map_of_sort_key: "distinct (map fst xs) \<Longrightarrow> map_of (sort_key fst xs) = map_of xs"
  by (rule map_of_eqI) (auto intro!: map_of_inject_set [THEN iffD2] simp: distinct_map)

lemma write_evicted:
  assumes ok: "cache_ok p" and wr: "writable p" and id: "paged_page_id page = v" and out: "hget (pg_cache p) v = None"
  shows "\<exists>p'. write_evicted_dirty_page page pending p = (Inr (), p') \<and> cache_ok p' \<and> same_pager p p' \<and> current p' = (current p)(v \<mapsto> page)"
proof -
  define ids where "ids = sort (take (dwb_max_pages_per_frame - 1) (filter (\<lambda>i. Some i \<noteq> pending) (take dwb_max_pages_per_frame (dirty_page_ids p))))"
  have ids: "distinct ids" using ok by (simp add: ids_def cache_ok_def dirty_ids_distinct)
  obtain pages where flush: "flush_dirty_pages ids p = (pages, p\<lparr>pg_cache := mark_clean ids (pg_cache p)\<rparr>)" and dist: "distinct (map fst pages)"
    and get: "\<And>j. map_of pages j = (if j \<in> set ids then (case hget (pg_cache p) j of Some (page, True) \<Rightarrow> Some page | _ \<Rightarrow> None) else None)"
    by (rule flush_dirty_pages_result [OF ids, where p = p]) (rule that)
  let ?all = "pages @ [(v, page)]"
  have "map_of pages v = None" using get out by simp
  then have all: "distinct (map fst ?all)" using dist by (simp add: map_of_eq_None_iff)
  then have sorted: "distinct (map fst (sort_key fst ?all))" by (simp add: distinct_map) force
  let ?p1 = "p\<lparr>pg_cache := mark_clean ids (pg_cache p)\<rparr>"
  let ?p2 = "?p1\<lparr>pg_file := (\<lambda>j. case map_of ?all j of Some page \<Rightarrow> Some page | None \<Rightarrow> pg_file p j)\<rparr>"
  have "write_evicted_dirty_page page pending p = (Inr (), ?p2)"
    using write_batch [of ?p1 "sort_key fst ?all"] wr sorted map_of_sort_key [OF all] flush [unfolded ids_def] id
    by (simp add: write_evicted_dirty_page_def ids_def writable_def Let_def cong: option.case_cong)
  moreover have "cache_ok ?p2"
    using ok out by (auto simp: cache_ok_def mark_clean_wf hget_mark_clean get map_add_def split: option.splits if_splits bool.splits)
  moreover have "current ?p2 = (current p)(v \<mapsto> page)"
    using out by (auto simp: fun_eq_iff current_def hget_mark_clean get map_add_def split: option.splits if_splits bool.splits)
  ultimately show ?thesis by (intro exI [of _ ?p2]) (simp add: same_pager_def)
qed

lemma cache_insert_new:
  assumes ok: "cache_ok p" and new: "hget (pg_cache p) i = None" and id: "paged_page_id page = i"
    and clean: "\<not> dirty \<longrightarrow> pg_file p i = Some page" and ins: "cache_insert i page dirty replace p = (evicted, p1)"
  shows "cache_ok p1 \<and> same_pager p p1 \<and> pg_file p1 = pg_file p \<and>
    (case evicted of
       None \<Rightarrow> current p1 = (current p)(i \<mapsto> page)
     | Some pg \<Rightarrow> \<exists>v. paged_page_id pg = v \<and> hget (pg_cache p1) v = None \<and> v \<noteq> i \<and> current p v = Some pg \<and>
         (\<forall>j. j \<noteq> v \<longrightarrow> current p1 j = ((current p)(i \<mapsto> page)) j))"
proof (cases "case pg_victims p of [] \<Rightarrow> None | v # _ \<Rightarrow> v")
  case None
  with new ins have p1: "evicted = None" "p1 = p\<lparr>pg_cache := hput i (page, dirty) (pg_cache p), pg_victims := tl (pg_victims p)\<rparr>"
    by (simp_all add: cache_insert_def cache_evict_def)
  then show ?thesis using ok id clean by (auto simp: cache_ok_def same_pager_def current_def fun_eq_iff split: option.split)
next
  case (Some v)
  show ?thesis
  proof (cases "hget (pg_cache p) v")
    case None
    with Some new ins have p1: "evicted = None" "p1 = p\<lparr>pg_cache := hput i (page, dirty) (pg_cache p), pg_victims := tl (pg_victims p)\<rparr>"
      by (simp_all add: cache_insert_def cache_evict_def)
    then show ?thesis using ok id clean by (auto simp: cache_ok_def same_pager_def current_def fun_eq_iff split: option.split)
  next
    case (Some entry)
    obtain pg d where entry: "entry = (pg, d)" by (cases entry)
    with \<open>(case pg_victims p of [] \<Rightarrow> None | v # _ \<Rightarrow> v) = Some v\<close> Some new ins
    have p1: "evicted = (if d then Some pg else None)"
      "p1 = p\<lparr>pg_cache := hput i (page, dirty) (hdel v (pg_cache p)), pg_victims := tl (pg_victims p)\<rparr>"
      by (simp_all add: cache_insert_def cache_evict_def)
    have v: "v \<noteq> i" "paged_page_id pg = v" "\<not> d \<longrightarrow> pg_file p v = Some pg" using ok new Some entry by (auto simp: cache_ok_def)
    show ?thesis using ok id clean v Some entry unfolding p1
      by (cases d) (auto simp: cache_ok_def same_pager_def current_def fun_eq_iff split: option.split)
  qed
qed

lemma admit_page_ok:
  assumes ok: "cache_ok p" and wr: "writable p" and id: "paged_page_id page = i"
    and clean: "\<not> dirty \<longrightarrow> pg_file p i = Some page" and new: "hget (pg_cache p) i = None \<or> dirty \<and> replace"
  shows "\<exists>p'. admit_page i page dirty replace pending p = (Inr (), p') \<and> cache_ok p' \<and> same_pager p p' \<and> current p' = (current p)(i \<mapsto> page)"
proof (cases "hget (pg_cache p) i")
  case (Some entry)
  obtain pg d where entry: "entry = (pg, d)" by (cases entry)
  let ?p' = "p\<lparr>pg_cache := hput i (page, True) (pg_cache p)\<rparr>"
  have "admit_page i page dirty replace pending p = (Inr (), ?p')"
    using Some entry new by (simp add: admit_page_def cache_insert_def)
  moreover have "cache_ok ?p'" "same_pager p ?p'" "current ?p' = (current p)(i \<mapsto> page)"
    using ok id by (auto simp: cache_ok_def same_pager_def current_def fun_eq_iff split: option.split)
  ultimately show ?thesis by blast
next
  case None
  obtain evicted p1 where ins: "cache_insert i page dirty replace p = (evicted, p1)" by fastforce
  note res = cache_insert_new [OF ok None id clean ins]
  have wr1: "writable p1" using res wr by (simp add: same_pager_def writable_def)
  show ?thesis
  proof (cases evicted)
    case None
    with res ins show ?thesis by (intro exI [of _ p1]) (simp add: admit_page_def)
  next
    case (Some pg)
    then have v: "hget (pg_cache p1) (paged_page_id pg) = None" "paged_page_id pg \<noteq> i" "current p (paged_page_id pg) = Some pg"
      "\<forall>j. j \<noteq> paged_page_id pg \<longrightarrow> current p1 j = ((current p)(i \<mapsto> page)) j" using res by auto
    obtain p2 where p2: "write_evicted_dirty_page pg pending p1 = (Inr (), p2)" "cache_ok p2" "same_pager p1 p2"
      "current p2 = (current p1)(paged_page_id pg \<mapsto> pg)"
      using write_evicted [of p1 pg "paged_page_id pg" pending] res wr1 v by blast
    have "current p2 = (current p)(i \<mapsto> page)" using p2(4) v by (auto simp: fun_eq_iff)
    with p2 res Some ins show ?thesis by (intro exI [of _ p2]) (auto simp: admit_page_def intro: same_pager_trans)
  qed
qed

subsection \<open>Trunks\<close>

definition trunk_page :: "(bytes \<Rightarrow> u32) \<Rightarrow> bytes \<Rightarrow> u32 \<Rightarrow> u32 \<Rightarrow> u32 list \<Rightarrow> bool" where
  "trunk_page crc page t nxt ids \<longleftrightarrow>
     length page = paged_page_size \<and> page_get_type page = Inr FreelistTrunk \<and> paged_page_id page = t \<and> verify_checksum crc page = Inr () \<and>
     window 32 4 page = u32_le nxt \<and> nxt \<noteq> t \<and> length ids \<le> free_ids_per_trunk \<and> window 36 4 page = u32_le (word_of_nat (length ids)) \<and>
     (\<forall>i < length ids. window (40 + i * 4) 4 page = u32_le (ids ! i))"

fun trunk_chain :: "(bytes \<Rightarrow> u32) \<Rightarrow> (u32 \<Rightarrow> bytes option) \<Rightarrow> u32 \<Rightarrow> (u32 \<times> u32 list) list \<Rightarrow> bool" where
  "trunk_chain crc C h [] \<longleftrightarrow> h = 0"
| "trunk_chain crc C h ((t, ids) # ts) \<longleftrightarrow>
     h = t \<and> t \<noteq> 0 \<and> (\<exists>page nxt. C t = Some page \<and> trunk_page crc page t nxt ids \<and> trunk_chain crc C nxt ts)"

definition trunk_ids :: "(u32 \<times> u32 list) list \<Rightarrow> u32 list" where
  "trunk_ids ts = concat (map (\<lambda>(t, ids). t # ids) ts)"

lemma trunk_ids_simps [simp]: "trunk_ids [] = []" "trunk_ids ((t, ids) # ts) = t # ids @ trunk_ids ts"
  by (simp_all add: trunk_ids_def)

lemma trunk_chain_cong: "(\<And>i. i \<in> fst ` set ts \<Longrightarrow> C' i = C i) \<Longrightarrow> trunk_chain crc C' h ts = trunk_chain crc C h ts"
proof (induction ts arbitrary: h)
  case (Cons a ts)
  from Cons.prems have "C' (fst a) = C (fst a)" by simp
  with Cons show ?case by (cases a) simp
qed simp

lemma fst_trunk_ids: "fst ` set ts \<subseteq> set (trunk_ids ts)"
  by (induction ts) auto

lemma trunk_chain_upd:
  assumes "t \<notin> set (trunk_ids ts)" and "\<And>j. j \<noteq> t \<Longrightarrow> C' j = C j"
  shows "trunk_chain crc C' h ts = trunk_chain crc C h ts"
proof (rule trunk_chain_cong)
  fix i assume "i \<in> fst ` set ts"
  then have "i \<noteq> t" using fst_trunk_ids [of ts] assms(1) by auto
  then show "C' i = C i" by (rule assms(2))
qed

lemma load_from_trunk_page:
  assumes "trunk_page crc page t nxt ids"
  shows "load_from_trunk page f = Inr (f\<lparr>fl_free_pages := fl_free_pages f @ t # ids,
      fl_total_free := max (if fl_total_free f = - 1 then - 1 else fl_total_free f + 1) (word_of_nat (length (fl_free_pages f @ t # ids))),
      fl_dirty := True, fl_trunk_head := nxt\<rparr>)"
proof -
  have small: "length ids < 2 ^ 32" using assms by (simp add: trunk_page_def free_ids_per_trunk_def page_sizes)
  then have "unat (word_of_nat (length ids) :: u32) = length ids" by (simp add: unat_of_nat)
  moreover have "map (\<lambda>i. u32_of_le (window (40 + i * 4) 4 page)) [0..<length ids] = ids"
    using assms by (intro nth_equalityI) (simp_all add: trunk_page_def)
  ultimately show ?thesis using assms by (simp add: load_from_trunk_def trunk_page_def Let_def)
qed

subsection \<open>The pager implements the trait\<close>

definition free_ids :: "pager \<Rightarrow> (u32 \<times> u32 list) list \<Rightarrow> u32 list" where
  "free_ids p ts = fl_free_pages (pg_freelist p) @ trunk_ids ts"

definition pager_inv :: "(bytes \<Rightarrow> u32) \<Rightarrow> pager \<Rightarrow> u32 set \<Rightarrow> (u32 \<Rightarrow> page_type option) \<Rightarrow> (u32 \<Rightarrow> bytes option) \<Rightarrow> (u32 \<times> u32 list) list \<Rightarrow> nat \<Rightarrow> bool" where
  "pager_inv crc p U A V ts n \<longleftrightarrow>
     cache_ok p \<and> writable p \<and> trunk_chain crc (current p) (fl_trunk_head (pg_freelist p)) ts \<and> first_allocatable_page \<le> pg_page_count p \<and>
     distinct (free_ids p ts) \<and> set (free_ids p ts) \<inter> U = {} \<and>
     (\<forall>i \<in> set (free_ids p ts) \<union> U. first_allocatable_page \<le> i \<and> i < pg_page_count p) \<and>
     n \<le> length (free_ids p ts) + (2 ^ 32 - 1 - unat (pg_page_count p)) \<and>
     dom V \<subseteq> U \<and> (\<forall>i page. V i = Some page \<longrightarrow> current p i = Some page \<and> paged_page_id page = i \<and> verify_checksum crc page = Inr ()) \<and>
     dom A \<subseteq> U \<and> (\<forall>i ty. A i = Some ty \<longrightarrow> V i = None \<longrightarrow> current p i = Some (page_new ty i))"

definition pager_keeps :: "(bytes \<Rightarrow> u32) \<Rightarrow> pager \<Rightarrow> u32 set \<Rightarrow> (u32 \<Rightarrow> page_type option) \<Rightarrow> (u32 \<Rightarrow> bytes option) \<Rightarrow> nat \<Rightarrow> bool" where
  "pager_keeps crc p U A V n \<longleftrightarrow> (\<exists>ts. pager_inv crc p U A V ts n)"

definition pager_holds :: "(bytes \<Rightarrow> u32) \<Rightarrow> pager \<Rightarrow> u32 set \<Rightarrow> (u32 \<Rightarrow> bytes option) \<Rightarrow> nat \<Rightarrow> bool" where
  "pager_holds crc p U V n \<longleftrightarrow> (\<exists>A. pager_keeps crc p U A V n)"

lemma verify_update [simp]: "length page = paged_page_size \<Longrightarrow> verify_checksum crc (update_checksum crc page) = Inr ()"
  by (simp add: verify_checksum_def update_checksum_def Let_def clear_set_checksum clear_idem)

lemma page_id_update [simp]: "length page = paged_page_size \<Longrightarrow> paged_page_id (update_checksum crc page) = paged_page_id page"
  by (simp add: paged_page_id_def update_checksum_def Let_def set_paged_page_checksum_def clear_paged_page_checksum_def page_sizes)

lemma length_page_new [simp]: "length (page_new ty i) = paged_page_size"
  by (simp add: page_new_def page_set_header_def page_sizes)

lemma page_id_new [simp]: "paged_page_id (page_new ty i) = i"
  by (simp add: paged_page_id_def page_new_def page_set_header_def page_header_new_def page_header_to_bytes_def
      encode_paged_page_header_def overwrite_def window_skip window_Cons page_sizes)

lemma pager_read_ok:
  assumes ok: "cache_ok p" and wr: "writable p" and cur: "current p i = Some page" and id: "paged_page_id page = i"
    and sum: "hget (pg_cache p) i = None \<Longrightarrow> read_page_raw crc i p = Inr page"
  shows "\<exists>p'. pager_read_page crc i p = (Inr page, p') \<and> cache_ok p' \<and> same_pager p p' \<and> current p' = current p"
proof (cases "hget (pg_cache p) i")
  case (Some entry)
  then show ?thesis using ok wr cur by (cases entry) (auto simp: pager_read_page_def writable_def current_def)
next
  case None
  then have stored: "pg_file p i = Some page" using cur by (simp add: current_def)
  have raw: "read_page_raw crc i p = Inr page" using sum None by simp
  obtain p' where "admit_page i page False False None p = (Inr (), p')" "cache_ok p'" "same_pager p p'" "current p' = (current p)(i \<mapsto> page)"
    using admit_page_ok [OF ok wr id, of False False None] stored None by blast
  with None raw wr cur show ?thesis by (auto simp: pager_read_page_def writable_def act_bind_ok fun_upd_idem)
qed

lemma pager_read_sealed:
  assumes "cache_ok p" and "writable p" and "current p i = Some page" and "paged_page_id page = i" and "verify_checksum crc page = Inr ()"
  shows "\<exists>p'. pager_read_page crc i p = (Inr page, p') \<and> cache_ok p' \<and> same_pager p p' \<and> current p' = current p"
  using assms by (intro pager_read_ok) (simp_all add: current_def read_page_raw_def)

lemma same_writable: "same_pager p p' \<Longrightarrow> writable p' = writable p"
  by (simp add: same_pager_def writable_def)

lemma pager_inv_same:
  assumes "pager_inv crc p U A V ts n" and "cache_ok p'" and "same_pager p p'" and "\<And>i. i \<in> set (free_ids p ts) \<union> U \<Longrightarrow> current p' i = current p i"
  shows "pager_inv crc p' U A V ts n"
proof -
  have "free_ids p' ts = free_ids p ts" using assms(3) by (simp add: free_ids_def same_pager_def)
  moreover have "trunk_chain crc (current p') (fl_trunk_head (pg_freelist p)) ts = trunk_chain crc (current p) (fl_trunk_head (pg_freelist p)) ts"
    using assms(4) fst_trunk_ids [of ts] by (intro trunk_chain_cong) (auto simp: free_ids_def)
  ultimately show ?thesis using assms same_writable [OF assms(3)]
    by (auto simp: pager_inv_def same_pager_def dest: subsetD [OF _ domI])
qed

lemma pager_read_law:
  assumes "pager_keeps crc p U A V n" and "V i = Some page"
  shows "\<exists>p'. ps_read_page (pager_store crc) i p = (Inr page, p') \<and> pager_keeps crc p' U A V n"
proof -
  obtain ts where inv: "pager_inv crc p U A V ts n" using assms(1) by (auto simp: pager_keeps_def)
  then obtain p' where "pager_read_page crc i p = (Inr page, p')" "cache_ok p'" "same_pager p p'" "current p' = current p"
    using pager_read_sealed [of p i page crc] assms(2) by (auto simp: pager_inv_def)
  moreover from this(2-4) have "pager_inv crc p' U A V ts n" by (intro pager_inv_same [OF inv]) auto
  ultimately show ?thesis by (auto simp: pager_store_def pager_keeps_def)
qed

lemma pager_unwritten_law:
  assumes "pager_keeps crc p U A V n" and "V i = None" and "A i = Some ty"
  shows "\<exists>r p'. ps_read_page (pager_store crc) i p = (r, p') \<and> (case r of Inr page \<Rightarrow> page = page_new ty i | Inl e \<Rightarrow> unsealed e) \<and>
    pager_keeps crc p' U A V n"
proof -
  obtain ts where inv: "pager_inv crc p U A V ts n" using assms(1) by (auto simp: pager_keeps_def)
  have cur: "current p i = Some (page_new ty i)" and ok: "cache_ok p" "writable p" using inv assms(2,3) by (simp_all add: pager_inv_def)
  show ?thesis
  proof (cases "hget (pg_cache p) i = None \<and> read_page_raw crc i p \<noteq> Inr (page_new ty i)")
    case True
    then obtain e where "read_page_raw crc i p = Inl e" "unsealed e" using cur
      by (auto simp: current_def read_page_raw_def verify_checksum_def unsealed_def Let_def split: if_splits)
    with True ok(2) inv show ?thesis
      by (auto simp: pager_store_def pager_read_page_def writable_def pager_keeps_def)
  next
    case False
    then obtain p' where "pager_read_page crc i p = (Inr (page_new ty i), p')" "cache_ok p'" "same_pager p p'" "current p' = current p"
      using pager_read_ok [OF ok cur, of crc] by auto
    moreover from this(2-4) have "pager_inv crc p' U A V ts n" by (intro pager_inv_same [OF inv]) auto
    ultimately show ?thesis by (auto simp: pager_store_def pager_keeps_def)
  qed
qed

lemma pager_write_law:
  assumes "pager_keeps crc p U A V n" and "i \<in> U" and "length page = paged_page_size" and "paged_page_id page = i"
  shows "\<exists>p'. ps_write_page (pager_store crc) i page p = (Inr (), p') \<and> pager_keeps crc p' U A (V(i \<mapsto> update_checksum crc page)) n"
proof -
  obtain ts where inv: "pager_inv crc p U A V ts n" using assms(1) by (auto simp: pager_keeps_def)
  then have ok: "cache_ok p" "writable p" by (simp_all add: pager_inv_def)
  obtain p' where adm: "admit_page i (update_checksum crc page) True True (Some i) p = (Inr (), p')" "cache_ok p'" "same_pager p p'"
    and cur: "current p' = (current p)(i \<mapsto> update_checksum crc page)"
    using admit_page_ok [OF ok, of "update_checksum crc page" i True True "Some i"] assms(3,4) by auto
  have "i \<notin> set (free_ids p ts)" using inv assms(2) by (auto simp: pager_inv_def)
  then have "trunk_chain crc (current p') (fl_trunk_head (pg_freelist p)) ts = trunk_chain crc (current p) (fl_trunk_head (pg_freelist p)) ts"
    using cur by (intro trunk_chain_upd [where t = i]) (auto simp: free_ids_def)
  moreover have "free_ids p' ts = free_ids p ts" using adm(3) by (simp add: free_ids_def same_pager_def)
  ultimately have "pager_inv crc p' U A (V(i \<mapsto> update_checksum crc page)) ts n"
    using inv adm(2,3) same_writable [OF adm(3)] cur assms(2-4) by (auto simp: pager_inv_def same_pager_def)
  moreover have "pager_write_page crc i page p = (Inr (), p')"
    using adm(1) ok(2) by (simp add: pager_write_page_def writable_def ensure_writeback_available_def)
  ultimately show ?thesis by (auto simp: pager_store_def pager_keeps_def)
qed

lemma trunk_page_shrink:
  assumes "trunk_page crc page t nxt (ids @ [i])"
  shows "trunk_page crc (update_checksum crc (overwrite 36 (u32_le (word_of_nat (length ids))) page)) t nxt ids"
proof -
  let ?p = "overwrite 36 (u32_le (word_of_nat (length ids))) page"
  have len: "length page = 16384" "length ids < 4086" using assms by (simp_all add: trunk_page_def page_sizes free_ids_per_trunk_def)
  have same: "window off n (update_checksum crc ?p) = window off n ?p" if "32 \<le> off" "off + n \<le> 16384" for off n
    using that len by (simp add: update_checksum_def Let_def set_paged_page_checksum_def clear_paged_page_checksum_def)
  have type: "update_checksum crc ?p ! 0 = page ! 0"
    using len by (simp add: update_checksum_def Let_def set_paged_page_checksum_def clear_paged_page_checksum_def nth_overwrite)
  have keep: "window (40 + k * 4) 4 ?p = window (40 + k * 4) 4 page" if "k < length ids" for k using that len by simp
  have "paged_page_id ?p = paged_page_id page" using len by (simp add: paged_page_id_def)
  then show ?thesis using assms len type keep
    by (auto simp: trunk_page_def page_sizes same page_get_type_def paged_page_type_def nth_append free_ids_per_trunk_def)
qed

lemma allocate_from_memory:
  assumes inv: "pager_inv crc p U A V ts (Suc n)" and some: "fl_free_pages (pg_freelist p) \<noteq> []"
  shows "\<exists>i p1 ts1. allocate_page_id crc p = (Inr i, p1) \<and> i \<notin> U \<and> i \<notin> set (free_ids p1 ts1) \<and> first_allocatable_page \<le> i \<and>
    i < pg_page_count p1 \<and> pager_inv crc p1 U A V ts1 n"
proof -
  obtain xs i where xs: "fl_free_pages (pg_freelist p) = xs @ [i]" using some by (cases "fl_free_pages (pg_freelist p)" rule: rev_cases) auto
  let ?f = "snd (fl_allocate (pg_freelist p))"
  let ?p1 = "p\<lparr>pg_freelist := ?f\<rparr>"
  have "allocate_page_id crc p = (Inr i, ?p1)" using xs by (simp add: allocate_page_id_def fl_allocate_def)
  moreover have "pager_inv crc ?p1 U A V ts n" "i \<notin> U" "i \<notin> set (free_ids ?p1 ts)" "first_allocatable_page \<le> i" "i < pg_page_count ?p1"
    using inv xs by (auto simp: pager_inv_def free_ids_def fl_allocate_def)
  ultimately show ?thesis by blast
qed

lemma allocate_by_extending:
  assumes inv: "pager_inv crc p U A V ts (Suc n)" and none: "fl_free_pages (pg_freelist p) = []" and head: "fl_trunk_head (pg_freelist p) = 0"
  shows "\<exists>i p1 ts1. allocate_page_id crc p = (Inr i, p1) \<and> i \<notin> U \<and> i \<notin> set (free_ids p1 ts1) \<and> first_allocatable_page \<le> i \<and>
    i < pg_page_count p1 \<and> pager_inv crc p1 U A V ts1 n"
proof -
  let ?p1 = "p\<lparr>pg_page_count := pg_page_count p + 1\<rparr>"
  have ts: "ts = []" using inv head by (cases ts) (auto simp: pager_inv_def)
  have room: "Suc n \<le> 2 ^ 32 - 1 - unat (pg_page_count p)" using inv ts none by (simp add: pager_inv_def free_ids_def)
  then have small: "unat (pg_page_count p) < 2 ^ 32 - 1" by simp
  moreover have "unat (- 1 :: u32) = 2 ^ 32 - 1" by (simp add: unsigned_minus_1_eq_mask mask_eq_exp_minus_1)
  ultimately have notmax: "pg_page_count p \<noteq> - 1" by auto
  have succ: "unat (pg_page_count p + 1) = Suc (unat (pg_page_count p))" using small by (simp add: unat_word_ariths)
  have grow: "i < pg_page_count p + 1" if "i < pg_page_count p" for i using that succ by (simp add: word_less_nat_alt)
  have last: "pg_page_count p < pg_page_count p + 1" using succ by (simp add: word_less_nat_alt)
  have base: "first_allocatable_page \<le> pg_page_count p" using inv by (simp add: pager_inv_def)
  have "allocate_page_id crc p = (Inr (pg_page_count p), ?p1)" using none head notmax by (simp add: allocate_page_id_def)
  moreover have "pager_inv crc ?p1 U A V ts n"
    using inv room grow base last ts none unfolding pager_inv_def
    by (auto simp: free_ids_def succ intro: order.trans [OF _ less_imp_le])
  moreover have "pg_page_count p \<notin> U" "pg_page_count p \<notin> set (free_ids ?p1 ts)" using inv none ts by (auto simp: pager_inv_def free_ids_def)
  ultimately show ?thesis using base last by (intro exI [of _ "pg_page_count p"] exI [of _ ?p1] exI [of _ ts]) simp
qed

lemma allocate_from_trunk:
  assumes inv: "pager_inv crc p U A V ts (Suc n)" and none: "fl_free_pages (pg_freelist p) = []" and head: "fl_trunk_head (pg_freelist p) \<noteq> 0"
  shows "\<exists>i p1 ts1. allocate_page_id crc p = (Inr i, p1) \<and> i \<notin> U \<and> i \<notin> set (free_ids p1 ts1) \<and> first_allocatable_page \<le> i \<and>
    i < pg_page_count p1 \<and> pager_inv crc p1 U A V ts1 n"
proof -
  obtain t ids ts' where ts: "ts = (t, ids) # ts'" using inv head by (cases ts) (auto simp: pager_inv_def)
  obtain trunk nxt where t: "fl_trunk_head (pg_freelist p) = t" "current p t = Some trunk" "trunk_page crc trunk t nxt ids"
    "trunk_chain crc (current p) nxt ts'" using inv ts by (auto simp: pager_inv_def)
  have trunk: "paged_page_id trunk = t" "verify_checksum crc trunk = Inr ()" "length trunk = paged_page_size"
    using t(3) by (auto simp: trunk_page_def)
  obtain p1 where rd: "pager_read_page crc t p = (Inr trunk, p1)" "cache_ok p1" "same_pager p p1" "current p1 = current p"
    using pager_read_sealed [of p t trunk crc] inv t(2) trunk by (auto simp: pager_inv_def)
  have inv1: "pager_inv crc p1 U A V ts (Suc n)" by (rule pager_inv_same [OF inv rd(2,3)]) (simp add: rd(4))
  have fl1: "pg_freelist p1 = pg_freelist p" "pg_page_count p1 = pg_page_count p" using rd(3) by (simp_all add: same_pager_def)
  have valid: "trunk_pages_valid (pg_page_count p1) (rev (t # ids))"
    using inv1 ts none by (auto simp: trunk_pages_valid_def pager_inv_def free_ids_def list_all_iff)
  have run: "allocate_page_id crc p = allocate_unjournaled_trunk crc trunk (rev (t # ids)) p1"
    using none head t(1) rd(1) trunk(1) load_from_trunk_page [OF t(3), of free_list_new] valid
    by (simp add: allocate_page_id_def act_bind_ok act_map_err_ok free_list_new_def)
  show ?thesis
  proof (cases ids rule: rev_cases)
    case Nil
    let ?f = "(pg_freelist p1)\<lparr>fl_free_pages := [], fl_trunk_head := nxt\<rparr>"
    let ?p2 = "p1\<lparr>pg_freelist := snd (fl_allocate ((pg_freelist p1)\<lparr>fl_free_pages := [t],
      fl_total_free := max (if fl_total_free (pg_freelist p1) = - 1 then - 1 else fl_total_free (pg_freelist p1) + 1) 1,
      fl_dirty := True, fl_trunk_head := nxt\<rparr>)), pg_header_freelist_head := nxt\<rparr>"
    have "allocate_page_id crc p = (Inr t, ?p2)"
      using run Nil none fl1 load_from_trunk_page [OF t(3), of "pg_freelist p1"] by (simp add: allocate_unjournaled_trunk_def)
    moreover have "pager_inv crc ?p2 U A V ts' n" "t \<notin> U" "t \<notin> set (free_ids ?p2 ts')" "first_allocatable_page \<le> t" "t < pg_page_count ?p2"
      using inv1 ts Nil t(4) rd(4) none fl1 by (auto simp: pager_inv_def free_ids_def fl_allocate_def)
    ultimately show ?thesis by blast
  next
    case (snoc ys i)
    let ?trunk = "update_checksum crc (overwrite 36 (u32_le (word_of_nat (length ys))) trunk)"
    let ?p2 = "p1\<lparr>pg_cache := hdel t (pg_cache p1), pg_file := (pg_file p1)(t \<mapsto> ?trunk),
      pg_freelist := note_durable_trunk_allocation (word_of_nat (length ys)) (pg_freelist p1)\<rparr>"
    have shrunk: "trunk_page crc ?trunk t nxt ys" using trunk_page_shrink t(3) snoc by simp
    have cur: "current ?p2 = (current p)(t \<mapsto> ?trunk)" unfolding rd(4) [symmetric] by (auto simp: current_def fun_eq_iff split: option.split)
    have "allocate_page_id crc p = (Inr i, ?p2)"
      using run snoc shrunk inv1 by (simp add: allocate_unjournaled_trunk_def Let_def act_bind_ok write_pages_through_dwb_def
          ensure_writeback_available_def pager_inv_def writable_def trunk_page_def)
    moreover have "trunk_chain crc (current ?p2) nxt ts'"
    proof (subst trunk_chain_upd [where t = t and C = "current p"])
      show "t \<notin> set (trunk_ids ts')" using inv ts by (auto simp: pager_inv_def free_ids_def)
    qed (use cur t(4) in auto)
    moreover have "cache_ok ?p2" using rd(2) by (auto simp: cache_ok_def note_durable_trunk_allocation_def)
    moreover have "t \<notin> U" "i \<notin> U" "i \<notin> set (free_ids ?p2 ((t, ys) # ts'))" "first_allocatable_page \<le> i" "i < pg_page_count ?p2"
      using inv1 ts snoc none fl1 by (auto simp: pager_inv_def free_ids_def note_durable_trunk_allocation_def)
    ultimately show ?thesis
      using inv1 ts snoc none fl1 shrunk cur t(1) head rd(4)
      by (intro exI [of _ i] exI [of _ ?p2] exI [of _ "(t, ys) # ts'"])
        (auto simp: pager_inv_def free_ids_def note_durable_trunk_allocation_def)
  qed
qed

lemma pager_allocate_law:
  assumes "pager_keeps crc p U A V (Suc n)"
  shows "\<exists>i p'. ps_allocate_page (pager_store crc) ty p = (Inr (page_new ty i), p') \<and> i \<notin> U \<and> pager_keeps crc p' (insert i U) (A(i \<mapsto> ty)) V n"
proof -
  obtain ts where inv: "pager_inv crc p U A V ts (Suc n)" using assms by (auto simp: pager_keeps_def)
  obtain i p1 ts1 where al: "allocate_page_id crc p = (Inr i, p1)" and i: "i \<notin> U" "i \<notin> set (free_ids p1 ts1)" "first_allocatable_page \<le> i"
      "i < pg_page_count p1" and inv1: "pager_inv crc p1 U A V ts1 n"
    using allocate_from_memory [OF inv] allocate_by_extending [OF inv] allocate_from_trunk [OF inv] by blast
  have ok1: "cache_ok p1" "writable p1" using inv1 by (simp_all add: pager_inv_def)
  obtain p2 where adm: "admit_page i (page_new ty i) True True (Some i) p1 = (Inr (), p2)" "cache_ok p2" "same_pager p1 p2"
    "current p2 = (current p1)(i \<mapsto> page_new ty i)"
    using admit_page_ok [OF ok1, of "page_new ty i" i True True "Some i"] by auto
  have "pager_inv crc p2 U A V ts1 n" using i adm(4) by (intro pager_inv_same [OF inv1 adm(2,3)]) auto
  moreover have "free_ids p2 ts1 = free_ids p1 ts1" "pg_page_count p2 = pg_page_count p1" using adm(3) by (simp_all add: free_ids_def same_pager_def)
  ultimately have "pager_inv crc p2 (insert i U) (A(i \<mapsto> ty)) V ts1 n"
    using i adm(4) by (auto simp: pager_inv_def split: if_splits)
  moreover have "pager_allocate_page crc ty p = (Inr (page_new ty i), p2)"
    using inv al adm(1) by (simp add: pager_allocate_page_def pager_inv_def writable_def ensure_writeback_available_def act_bind_ok)
  ultimately show ?thesis using i(1) by (auto simp: pager_store_def pager_keeps_def)
qed

lemma pager_free_law:
  assumes "pager_keeps crc p U A V n" and "i \<in> U"
  shows "\<exists>p'. ps_free_page (pager_store crc) i p = (Inr (), p') \<and> pager_keeps crc p' (U - {i}) (A(i := None)) (V(i := None)) n"
proof -
  obtain ts where inv: "pager_inv crc p U A V ts n" using assms(1) by (auto simp: pager_keeps_def)
  have i: "i \<notin> set (free_ids p ts)" "first_allocatable_page \<le> i" "i < pg_page_count p" "writable p" using inv assms(2) by (auto simp: pager_inv_def)
  show ?thesis
  proof (cases "pg_deferred p")
    case True
    let ?p' = "p\<lparr>pg_pending := List.insert i (pg_pending p)\<rparr>"
    have "pager_inv crc ?p' (U - {i}) (A(i := None)) (V(i := None)) ts n" using inv by (auto simp: pager_inv_def free_ids_def)
    then show ?thesis using True i by (auto simp: pager_store_def pager_free_page_def pager_keeps_def writable_def ensure_writeback_available_def)
  next
    case False
    let ?p' = "p\<lparr>pg_cache := hdel i (pg_cache p), pg_freelist := fl_free i (pg_freelist p)\<rparr>"
    have cur: "current ?p' j = current p j" if "j \<noteq> i" for j using that by (simp add: current_def split: option.split)
    have "trunk_chain crc (current ?p') (fl_trunk_head (pg_freelist p)) ts = trunk_chain crc (current p) (fl_trunk_head (pg_freelist p)) ts"
      using i cur by (intro trunk_chain_upd [where t = i]) (auto simp: free_ids_def)
    moreover have "cache_ok ?p'" using inv by (auto simp: pager_inv_def cache_ok_def)
    ultimately have "pager_inv crc ?p' (U - {i}) (A(i := None)) (V(i := None)) ts n"
      using inv i cur assms(2) by (auto simp: pager_inv_def free_ids_def fl_free_def)
    then show ?thesis using False i by (auto simp: pager_store_def pager_free_page_def pager_keeps_def writable_def ensure_writeback_available_def)
  qed
qed

context page_keeping
begin

lemma client_served: "keeps s U A V n \<Longrightarrow> dom A = U \<Longrightarrow> allocations calls \<le> n \<Longrightarrow> served ps crc calls s U A V"
proof (induction calls arbitrary: s U A V n)
  case (Cons call calls)
  show ?case
  proof (cases call)
    case (CallRead i)
    show ?thesis
    proof (cases "V i")
      case None
      show ?thesis
      proof (cases "A i")
        case (Some ty)
        from keeps_unwritten [OF Cons.prems(1) None Some] obtain r s' where read: "ps_read_page ps i s = (r, s')"
          "case r of Inr page \<Rightarrow> page = page_new ty i | Inl e \<Rightarrow> unsealed e" "keeps s' U A V n" by blast
        from Cons.IH [OF read(3) Cons.prems(2)] Cons.prems(3) CallRead have "served ps crc calls s' U A V" by simp
        with CallRead None Some read(1,2) Cons.prems(2) show ?thesis by (cases r) auto
      next
        case None
        then have "i \<notin> U" using Cons.prems(2) by blast
        with CallRead Cons.IH [OF Cons.prems(1,2)] Cons.prems(3) show ?thesis by simp
      qed
    next
      case (Some page)
      then show ?thesis using CallRead Cons keeps_read [OF Cons.prems(1), of i] by fastforce
    qed
  next
    case (CallWrite i page)
    show ?thesis
    proof (cases "i \<in> U \<and> length page = paged_page_size \<and> paged_page_id page = i")
      case True
      with keeps_write [OF Cons.prems(1), of i page] obtain s' where "ps_write_page ps i page s = (Inr (), s')"
        "keeps s' U A (V(i \<mapsto> update_checksum crc page)) n" by blast
      with True CallWrite Cons.IH [OF this(2) Cons.prems(2)] Cons.prems(3) show ?thesis by (simp del: fun_upd_apply)
    qed (use CallWrite Cons.IH [OF Cons.prems(1,2)] Cons.prems(3) in auto)
  next
    case (CallAllocate ty)
    then obtain m where n: "n = Suc m" "allocations calls \<le> m" using Cons.prems(3) by (cases n) auto
    then obtain i s' where al: "ps_allocate_page ps ty s = (Inr (page_new ty i), s')" "i \<notin> U" "keeps s' (insert i U) (A(i \<mapsto> ty)) V m"
      using keeps_allocate Cons.prems(1) by blast
    then have "i \<noteq> 0" using keeps_pos by blast
    then show ?thesis using CallAllocate al Cons.IH [OF al(3) _ n(2)] Cons.prems(2) by (simp del: fun_upd_apply)
  next
    case (CallFree i)
    show ?thesis
    proof (cases "i \<in> U")
      case True
      with keeps_free [OF Cons.prems(1)] obtain s' where "ps_free_page ps i s = (Inr (), s')" "keeps s' (U - {i}) (A(i := None)) (V(i := None)) n" by blast
      with True CallFree Cons.IH [OF this(2)] Cons.prems(2,3) show ?thesis by (simp del: fun_upd_apply)
    qed (use CallFree Cons.IH [OF Cons.prems(1,2)] Cons.prems(3) in simp)
  qed
qed simp

end

interpretation keeping: page_keeping "pager_store crc" crc "pager_keeps crc" for crc
proof
  show "dom V \<subseteq> U" if "pager_keeps crc s U A V n" for s U A V n using that by (auto simp: pager_keeps_def pager_inv_def)
  show "0 \<notin> U" if "pager_keeps crc s U A V n" for s U A V n using that by (auto simp: pager_keeps_def pager_inv_def first_allocatable_page_def dest: bspec [where x = 0])
qed (rule pager_read_law pager_unwritten_law pager_write_law pager_allocate_law pager_free_law; assumption)+

interpretation pages: paging "pager_store crc" crc "pager_holds crc" for crc
  unfolding pager_holds_def [abs_def] by (rule keeping.paging_axioms)

text \<open>A pager that was opened on a new database: nothing cached, nothing free.\<close>

definition fresh_pager :: "pager \<Rightarrow> bool" where
  "fresh_pager p \<longleftrightarrow> pg_cache p = [] \<and> pg_freelist p = free_list_new \<and> pg_page_count p = first_allocatable_page \<and>
     \<not> pg_read_only p \<and> \<not> pg_writeback_failed p"

lemma fresh_pager_keeps:
  assumes "fresh_pager p" and "n \<le> 2 ^ 32 - 1 - 67"
  shows "pager_keeps crc p {} Map.empty Map.empty n"
  using assms unfolding pager_keeps_def
  by (intro exI [of _ "[]"]) (auto simp: pager_inv_def fresh_pager_def cache_ok_def hmap_wf_def writable_def free_ids_def free_list_new_def first_allocatable_page_def)

lemma fresh_pager_holds: "fresh_pager p \<Longrightarrow> n \<le> 2 ^ 32 - 1 - 67 \<Longrightarrow> pager_holds crc p {} Map.empty n"
  using fresh_pager_keeps pager_holds_def by blast

text \<open>
  C22: On a new database the pager serves every client: whatever sequence of reads, writes, allocations and
  frees it issues on pages it owns, and whichever pages the cache evicts meanwhile, an allocation returns a
  fresh page under a number that is not in use, a read of a page that was written returns what was last written
  under that number, with its checksum, and none of these calls fails while the numbers last. Reading an
  allocated page that was not written yet returns the fresh page or fails with a checksum mismatch, and changes nothing
  for the other pages.
\<close>

theorem pager_serves_client:
  assumes "fresh_pager p" and "allocations calls \<le> 2 ^ 32 - 1 - 67"
  shows "served (pager_store crc) crc calls p {} Map.empty Map.empty"
  by (rule keeping.client_served [OF fresh_pager_keeps [OF assms(1) order_refl] _ assms(2)]) simp

theorem pager_serves_client_witness:
  "served (pager_store (\<lambda>_. 7)) (\<lambda>_. 7)
     [CallAllocate BTreeLeaf, CallWrite 67 (page_new BTreeLeaf 67), CallAllocate BTreeInterior, CallRead 68, CallRead 67, CallFree 67, CallAllocate BTreeLeaf]
     \<lparr>pg_file = Map.empty, pg_cache = [], pg_victims = [None, Some 67], pg_freelist = free_list_new, pg_page_count = first_allocatable_page,
      pg_header_freelist_head = 0, pg_deferred = False, pg_pending = [], pg_recovery = [], pg_read_only = False, pg_verify_checksums = True,
      pg_writeback_failed = False\<rparr> {} Map.empty Map.empty"
  by (rule pager_serves_client) (simp_all add: fresh_pager_def)

text \<open>
  The failure takes place: allocate a page, let the cache evict it when the next one is allocated, and read it
  back. The fresh page went to the file without a checksum.
\<close>

lemma unsealed_new:
  "crc (clear_paged_page_checksum (page_new ty i)) \<noteq> 0 \<Longrightarrow> \<exists>e. verify_checksum crc (page_new ty i) = Inl e \<and> unsealed (PgPage e)"
  by (simp add: verify_checksum_def unsealed_def paged_page_checksum_def page_new_def page_set_header_def page_header_new_def page_header_to_bytes_def
      encode_paged_page_header_def overwrite_def window_skip window_Cons page_sizes)

lemma unwritten_page_unreadable:
  assumes "fresh_pager p" and "pg_verify_checksums p" and "pg_victims p = None # Some 67 # vs" and "crc (clear_paged_page_checksum (page_new ty 67)) \<noteq> 0"
  shows "\<exists>p1 p2 e. ps_allocate_page (pager_store crc) ty p = (Inr (page_new ty 67), p1) \<and>
    ps_allocate_page (pager_store crc) ty p1 = (Inr (page_new ty 68), p2) \<and> ps_read_page (pager_store crc) 67 p2 = (Inl e, p2) \<and> unsealed e"
proof -
  let ?p1 = "p\<lparr>pg_page_count := 68, pg_cache := [(67, page_new ty 67, True)], pg_victims := Some 67 # vs\<rparr>"
  let ?p2 = "?p1\<lparr>pg_page_count := 69, pg_cache := [(68, page_new ty 68, True)], pg_victims := vs, pg_file := (pg_file p)(67 \<mapsto> page_new ty 67)\<rparr>"
  note p = assms(1,3) [unfolded fresh_pager_def free_list_new_def first_allocatable_page_def]
  note defs = pager_store_def pager_allocate_page_def ensure_writeback_available_def allocate_page_id_def act_bind_def act_return_def
    admit_page_def cache_insert_def cache_evict_def AList.delete_eq
  have "write_evicted_dirty_page (page_new ty 67) (Some 68) (?p2\<lparr>pg_file := pg_file p\<rparr>) = (Inr (), ?p2)"
    using p by (simp add: write_evicted_dirty_page_def dirty_page_ids_def flush_dirty_pages_def mark_clean_def hmap_values_def List.map_filter_def
        write_dirty_page_batch_def write_pages_through_dwb_def ensure_writeback_available_def dwb_max_pages_per_frame_def page_sizes)
  then have "ps_allocate_page (pager_store crc) ty ?p1 = (Inr (page_new ty 68), ?p2)" using p by (simp add: defs)
  moreover have "ps_allocate_page (pager_store crc) ty p = (Inr (page_new ty 67), ?p1)" using p by (simp add: defs)
  moreover have "\<exists>e. ps_read_page (pager_store crc) 67 ?p2 = (Inl e, ?p2) \<and> unsealed e"
    using p assms(2,4) unsealed_new [of crc ty 67]
    by (auto simp: pager_store_def pager_read_page_def read_page_raw_def)
  ultimately show ?thesis by blast
qed

end
