(* ===== verification/Overflow_Chain.thy ===== *)
theory Overflow_Chain
  imports Page_Store
begin

section \<open>Large values\<close>

text \<open>
  How a B-tree keeps a value: the chains of overflow pages of \<open>src/crates/reddb-engine/src/storage/overflow.rs\<close>, the codec of
  \<open>reddb-file/src/vector_value_codec.rs\<close>, the cell format of \<open>reddb-file/src/btree_value_layout.rs\<close>, and \<open>encode\<close> and \<open>decode\<close>
  of \<open>storage/btree/value_layout.rs\<close>, which choose between them. The LZ4 block functions are arguments. The walk over
  a chain follows page numbers found on disk and need not end on a damaged file: a call of this
  theory has the result \<open>None\<close> when it does not return.
\<close>

subsection \<open>Calls that may not return\<close>

type_synonym ('s, 'e, 'a) run = "'s \<Rightarrow> (('e + 'a) \<times> 's) option"

definition run_return :: "'a \<Rightarrow> ('s, 'e, 'a) run" where
  "run_return x s = Some (Inr x, s)"

definition run_fail :: "'e \<Rightarrow> ('s, 'e, 'a) run" where
  "run_fail e s = Some (Inl e, s)"

definition run_lift :: "'e + 'a \<Rightarrow> ('s, 'e, 'a) run" where
  "run_lift r s = Some (r, s)"

definition run_call :: "('e \<Rightarrow> 'f) \<Rightarrow> ('s, 'e, 'a) act \<Rightarrow> ('s, 'f, 'a) run" where
  "run_call f m s = (case m s of (r, s') \<Rightarrow> Some (map_err f r, s'))"

definition run_bind :: "('s, 'e, 'a) run \<Rightarrow> ('a \<Rightarrow> ('s, 'e, 'b) run) \<Rightarrow> ('s, 'e, 'b) run" where
  "run_bind m f s = Option.bind (m s) (\<lambda>(r, s'). case r of Inl e \<Rightarrow> Some (Inl e, s') | Inr x \<Rightarrow> f x s')"

definition run_map_err :: "('e \<Rightarrow> 'f) \<Rightarrow> ('s, 'e, 'a) run \<Rightarrow> ('s, 'f, 'a) run" where
  "run_map_err f m s = map_option (\<lambda>(r, s'). (map_err f r, s')) (m s)"

text \<open>The call returns, without an error, with a value and a state as the predicate says; or it returns an error.\<close>

definition returns :: "('s, 'e, 'a) run \<Rightarrow> 's \<Rightarrow> ('a \<Rightarrow> 's \<Rightarrow> bool) \<Rightarrow> bool" where
  "returns m s Q \<longleftrightarrow> (\<exists>x s'. m s = Some (Inr x, s') \<and> Q x s')"

definition fails :: "('s, 'e, 'a) run \<Rightarrow> 's \<Rightarrow> ('e \<Rightarrow> 's \<Rightarrow> bool) \<Rightarrow> bool" where
  "fails m s Q \<longleftrightarrow> (\<exists>e s'. m s = Some (Inl e, s') \<and> Q e s')"

named_theorems run_simps "stepping through calls"

lemma returns_steps [simp, run_simps]:
  "returns (run_return x) s Q = Q x s" "returns (run_lift (Inr x)) s Q = Q x s" "\<not> returns (run_lift (Inl e)) s Q" "\<not> returns (run_fail e) s Q"
  "returns (run_bind m f) s Q = returns m s (\<lambda>x s'. returns (f x) s' Q)"
  by (auto simp: returns_def run_return_def run_lift_def run_fail_def run_bind_def split: Option.bind_splits sum.splits)

lemma returns_map_err [simp, run_simps]: "returns (run_map_err g m) s Q = returns m s Q"
  by (auto simp: returns_def run_map_err_def map_err_Inr)

lemma fails_steps [simp, run_simps]:
  "fails (run_fail e) s Q = Q e s" "fails (run_lift (Inl e)) s Q = Q e s" "\<not> fails (run_return x) s Q" "\<not> fails (run_lift (Inr x)) s Q"
  "fails (run_bind m f) s Q \<longleftrightarrow> fails m s Q \<or> returns m s (\<lambda>x s'. fails (f x) s' Q)"
  by (auto simp: returns_def fails_def run_return_def run_lift_def run_fail_def run_bind_def split: Option.bind_splits sum.splits)

lemma returns_mono: "returns m s Q \<Longrightarrow> (\<And>x s'. Q x s' \<Longrightarrow> R x s') \<Longrightarrow> returns m s R"
  by (auto simp: returns_def)

lemma returns_call: "m s = (Inr x, s') \<Longrightarrow> returns (run_call f m) s Q = Q x s'"
  by (simp add: returns_def run_call_def map_err_def)

subsection \<open>Chains of overflow pages\<close>

definition overflow_payload_per_page :: nat where
  "overflow_payload_per_page = paged_page_size - paged_page_header_size - 8"

datatype overflow_error =
    OvPager pager_error | NotOverflowPage u32 | PayloadTooLarge u32 u32 | LengthMismatch u64 u64 | InvalidHead u32

definition pages_needed :: "nat \<Rightarrow> nat" where
  "pages_needed len = (if len = 0 then 1 else (len + overflow_payload_per_page - 1) div overflow_payload_per_page)"

definition read_chain_header :: "bytes \<Rightarrow> overflow_error + (u32 \<times> u32)" where
  "read_chain_header page =
     and_then (map_err (\<lambda>e. OvPager (PgPage e)) (page_get_type page)) (\<lambda>ty.
       if ty \<noteq> PtOverflow then Inl (NotOverflowPage (paged_page_id page))
       else
         let nxt = u32_of_le (window 32 4 page); len = u32_of_le (window 36 4 page) in
         if unat len > overflow_payload_per_page then Inl (PayloadTooLarge (paged_page_id page) len) else Inr (nxt, len))"

definition write_chain_header :: "u32 \<Rightarrow> u32 \<Rightarrow> bytes \<Rightarrow> bytes" where
  "write_chain_header nxt payload_len page = overwrite 36 (u32_le payload_len) (overwrite 32 (u32_le nxt) page)"

fun allocate_pages :: "'s page_store \<Rightarrow> nat \<Rightarrow> ('s, overflow_error, u32 list) run" where
  "allocate_pages ps 0 = run_return []"
| "allocate_pages ps (Suc n) = run_bind (run_call OvPager (ps_allocate_page ps PtOverflow)) (\<lambda>page.
     run_bind (allocate_pages ps n) (\<lambda>ids. run_return (paged_page_id page # ids)))"

fun write_chain :: "'s page_store \<Rightarrow> u32 list \<Rightarrow> bytes \<Rightarrow> ('s, overflow_error, unit) run" where
  "write_chain ps [] bs = run_return ()"
| "write_chain ps (pid # ids) bs =
     (let nxt = (case ids of [] \<Rightarrow> 0 | i # _ \<Rightarrow> i);
          chunk = take overflow_payload_per_page bs;
          page = overwrite 40 chunk (write_chain_header nxt (word_of_nat (length chunk)) (page_new PtOverflow pid)) in
      run_bind (run_call OvPager (ps_write_page ps pid page)) (\<lambda>_. write_chain ps ids (drop overflow_payload_per_page bs)))"

definition chain_store :: "'s page_store \<Rightarrow> bytes \<Rightarrow> ('s, overflow_error, u32 \<times> u64) run" where
  "chain_store ps bs = run_bind (allocate_pages ps (pages_needed (length bs))) (\<lambda>page_ids.
     run_bind (write_chain ps page_ids bs) (\<lambda>_. run_return (hd page_ids, word_of_nat (length bs))))"

partial_function (option) chain_read ::
  "'s page_store \<Rightarrow> u64 \<Rightarrow> u32 \<Rightarrow> u64 \<Rightarrow> bytes \<Rightarrow> 's \<Rightarrow> ((overflow_error + bytes) \<times> 's) option" where
  "chain_read ps total_len cur collected out s =
     (if cur = 0 then
        Some (if collected \<noteq> total_len then Inl (LengthMismatch total_len collected) else Inr out, s)
      else case ps_read_page ps cur s of
          (Inl e, s') \<Rightarrow> Some (Inl (OvPager e), s')
        | (Inr page, s') \<Rightarrow>
            (case read_chain_header page of
               Inl e \<Rightarrow> Some (Inl e, s')
             | Inr (nxt, len) \<Rightarrow>
                 let collected' = collected + ucast len in
                 if collected' > total_len then Some (Inl (LengthMismatch total_len collected'), s')
                 else chain_read ps total_len nxt collected' (out @ window 40 (unat len) page) s'))"

partial_function (option) chain_free ::
  "'s page_store \<Rightarrow> u32 \<Rightarrow> bool \<Rightarrow> 's \<Rightarrow> ((overflow_error + unit) \<times> 's) option" where
  "chain_free ps cur is_first s =
     (if cur = 0 then Some (Inr (), s)
      else case ps_read_page ps cur s of
          (Inl e, s') \<Rightarrow> Some (Inl (OvPager e), s')
        | (Inr page, s') \<Rightarrow>
            (case page_get_type page of
               Inl e \<Rightarrow> Some (Inl (OvPager (PgPage e)), s')
             | Inr ty \<Rightarrow>
                 if ty \<noteq> PtOverflow then Some (Inl (if is_first then InvalidHead cur else NotOverflowPage cur), s')
                 else
                   (case read_chain_header page of
                      Inl e \<Rightarrow> Some (Inl e, s')
                    | Inr (nxt, _) \<Rightarrow>
                        (case ps_free_page ps cur s' of
                           (Inl e, s'') \<Rightarrow> Some (Inl (OvPager e), s'')
                         | (Inr _, s'') \<Rightarrow> chain_free ps nxt False s''))))"

subsection \<open>The value codec\<close>

datatype value_flag = FlagRaw | FlagLz4

datatype value_codec_error = CodecUnknownFlag byte | TruncatedHeader | Lz4Decode string

definition value_encode :: "(bytes \<Rightarrow> bytes) \<Rightarrow> bytes \<Rightarrow> value_flag \<times> bytes" where
  "value_encode compress input =
     (if input = [] then (FlagRaw, [])
      else
        let compressed = compress input in
        if length compressed + 4 < length input then (FlagLz4, u32_le (word_of_nat (length input)) @ compressed)
        else (FlagRaw, input))"

definition decoded_length :: "value_flag \<Rightarrow> bytes \<Rightarrow> value_codec_error + nat" where
  "decoded_length flag bs =
     (case flag of
        FlagRaw \<Rightarrow> Inr (length bs)
      | FlagLz4 \<Rightarrow> if length bs < 4 then Inl TruncatedHeader else Inr (unat (u32_of_le (take 4 bs))))"

definition value_decode :: "(bytes \<Rightarrow> nat \<Rightarrow> string + bytes) \<Rightarrow> value_flag \<Rightarrow> bytes \<Rightarrow> value_codec_error + bytes" where
  "value_decode decompress flag bs =
     (case flag of
        FlagRaw \<Rightarrow> Inr bs
      | FlagLz4 \<Rightarrow> and_then (decoded_length flag bs) (\<lambda>raw_len. map_err Lz4Decode (decompress (drop 4 bs) raw_len)))"

subsection \<open>Value cells\<close>

datatype btree_value_cell = InlineCell bool bytes | PointerCell bool u32 u64

datatype btree_value_cell_error = UnknownFlag byte | TruncatedPointer nat

definition encode_btree_inline_raw :: "bytes \<Rightarrow> bytes" where
  "encode_btree_inline_raw val = 0 # val"

definition encode_btree_inline_compressed :: "bytes \<Rightarrow> bytes" where
  "encode_btree_inline_compressed codec_bytes = 2 # codec_bytes"

definition encode_btree_pointer :: "u32 \<Rightarrow> u64 \<Rightarrow> bool \<Rightarrow> bytes" where
  "encode_btree_pointer head_page_id total_len is_compressed =
     (if is_compressed then or 1 2 else 1) # u32_le head_page_id @ u64_le total_len"

definition decode_btree_value_cell :: "bytes \<Rightarrow> btree_value_cell_error + btree_value_cell" where
  "decode_btree_value_cell stored =
     (case stored of
        [] \<Rightarrow> Inr (InlineCell False [])
      | flag # payload \<Rightarrow>
          if and flag (not (or 1 2)) \<noteq> 0 then Inl (UnknownFlag flag)
          else
            let is_pointer = and flag 1 \<noteq> 0; is_compressed = and flag 2 \<noteq> 0 in
            if \<not> is_pointer then Inr (InlineCell is_compressed payload)
            else if length payload \<noteq> 12 then Inl (TruncatedPointer (length payload))
            else Inr (PointerCell is_compressed (u32_of_le (window 0 4 payload)) (u64_of_le (window 4 8 payload))))"

definition pointer_head :: "bytes \<Rightarrow> u32 option" where
  "pointer_head stored =
     (case decode_btree_value_cell stored of Inr (PointerCell _ head_page_id _) \<Rightarrow> Some head_page_id | _ \<Rightarrow> None)"

subsection \<open>Choosing a layout\<close>

datatype value_layout_error =
    ValueTooLarge nat | LayoutCell btree_value_cell_error | LayoutCodec value_codec_error | LayoutOverflow overflow_error
  | ReadLimitExceeded nat nat

abbreviation btree_value_max_size :: nat where "btree_value_max_size \<equiv> 268435456"
abbreviation compression_threshold :: nat where "compression_threshold \<equiv> 1024"
abbreviation overflow_threshold :: nat where "overflow_threshold \<equiv> 4096"

definition layout_encode :: "'s page_store \<Rightarrow> (bytes \<Rightarrow> bytes) \<Rightarrow> bytes \<Rightarrow> ('s, value_layout_error, bytes) run" where
  "layout_encode ps compress val =
     (if length val > btree_value_max_size then run_fail (ValueTooLarge (length val))
      else if length val \<le> compression_threshold then run_return (encode_btree_inline_raw val)
      else
        let (codec_flag, codec_bytes) = value_encode compress val in
        if length codec_bytes \<le> overflow_threshold then
          run_return (case codec_flag of FlagRaw \<Rightarrow> encode_btree_inline_raw codec_bytes | FlagLz4 \<Rightarrow> encode_btree_inline_compressed codec_bytes)
        else
          run_bind (run_map_err LayoutOverflow (chain_store ps codec_bytes)) (\<lambda>(head_page_id, total_len).
            run_return (encode_btree_pointer head_page_id total_len (codec_flag = FlagLz4))))"

definition check_read_budget :: "nat \<Rightarrow> nat \<Rightarrow> value_layout_error + unit" where
  "check_read_budget required_bytes limit_bytes = ensure (required_bytes \<le> limit_bytes) (ReadLimitExceeded required_bytes limit_bytes)"

definition layout_decode ::
  "'s page_store \<Rightarrow> (bytes \<Rightarrow> nat \<Rightarrow> string + bytes) \<Rightarrow> bytes \<Rightarrow> nat \<Rightarrow> ('s, value_layout_error, bytes) run" where
  "layout_decode ps decompress stored limit_bytes =
     run_bind (run_lift (map_err LayoutCell (decode_btree_value_cell stored))) (\<lambda>cell.
       case cell of
         PointerCell is_compressed head_page_id total_len \<Rightarrow>
           run_bind (run_lift (check_read_budget (unat total_len) limit_bytes)) (\<lambda>_.
           run_bind (run_map_err LayoutOverflow (chain_read ps total_len head_page_id 0 [])) (\<lambda>chain_bytes.
             if is_compressed then
               run_bind (run_lift (map_err LayoutCodec (decoded_length FlagLz4 chain_bytes))) (\<lambda>decoded_bytes.
               run_bind (run_lift (check_read_budget (saturating_add64 (unat total_len) decoded_bytes) limit_bytes)) (\<lambda>_.
                 run_lift (map_err LayoutCodec (value_decode decompress FlagLz4 chain_bytes))))
             else run_return chain_bytes))
       | InlineCell is_compressed payload \<Rightarrow>
           run_bind (run_lift (if is_compressed then map_err LayoutCodec (decoded_length FlagLz4 payload) else Inr (length payload))) (\<lambda>decoded_bytes.
           run_bind (run_lift (check_read_budget decoded_bytes limit_bytes)) (\<lambda>_.
             run_lift (map_err LayoutCodec (value_decode decompress (if is_compressed then FlagLz4 else FlagRaw) payload)))))"

definition free_chain_if_pointer :: "'s page_store \<Rightarrow> bytes \<Rightarrow> ('s, value_layout_error, unit) run" where
  "free_chain_if_pointer ps stored =
     (case pointer_head stored of Some head_page_id \<Rightarrow> run_map_err LayoutOverflow (chain_free ps head_page_id True) | None \<Rightarrow> run_return ())"

subsection \<open>What a chain holds\<close>

abbreviation next_id :: "u32 list \<Rightarrow> u32" where
  "next_id ids \<equiv> (case ids of [] \<Rightarrow> 0 | i # _ \<Rightarrow> i)"

definition overflow_page :: "u32 \<Rightarrow> bytes \<Rightarrow> bytes \<Rightarrow> bool" where
  "overflow_page nxt chunk page \<longleftrightarrow> page_get_type page = Inr PtOverflow \<and>
     read_chain_header page = Inr (nxt, word_of_nat (length chunk)) \<and> length chunk \<le> overflow_payload_per_page \<and> window 40 (length chunk) page = chunk"

fun chain_holds :: "(u32 \<Rightarrow> bytes option) \<Rightarrow> u32 list \<Rightarrow> bytes \<Rightarrow> bool" where
  "chain_holds V [] bs \<longleftrightarrow> bs = []"
| "chain_holds V (i # ids) bs \<longleftrightarrow> i \<noteq> 0 \<and> (\<exists>page. V i = Some page \<and> overflow_page (next_id ids) (take overflow_payload_per_page bs) page) \<and>
     chain_holds V ids (drop overflow_payload_per_page bs)"

lemma chain_holds_cong: "(\<And>i. i \<in> set ids \<Longrightarrow> V i = W i) \<Longrightarrow> chain_holds V ids bs = chain_holds W ids bs"
  by (induction ids arbitrary: bs) auto

lemma overflow_page_written:
  fixes i nxt :: u32
  assumes "length chunk \<le> overflow_payload_per_page"
  defines "page \<equiv> overwrite 40 chunk (write_chain_header nxt (word_of_nat (length chunk)) (page_new PtOverflow i))"
  shows "overflow_page nxt chunk (update_checksum crc page)" "length page = paged_page_size" "paged_page_id page = i"
proof -
  let ?page1 = "write_chain_header nxt (word_of_nat (length chunk)) (page_new PtOverflow i)"
  have len1: "length ?page1 = paged_page_size" by (simp add: write_chain_header_def page_sizes)
  have fits: "40 + length chunk \<le> paged_page_size" using assms(1) by (simp add: overflow_payload_per_page_def page_sizes)
  show len: "length page = paged_page_size" using len1 fits by (simp add: page_def)
  have low: "window a m page = window a m ?page1" if "a + m \<le> 40" for a m using that len1 fits by (simp add: page_def)
  show "paged_page_id page = i" using low [of 8 4] page_id_new [of PtOverflow i]
    by (simp add: paged_page_id_def write_chain_header_def page_sizes)
  have type0: "paged_page_type (update_checksum crc page) = page_type_byte PtOverflow"
    using low [of 0 1] len fits by (simp add: paged_page_type_def update_checksum_def Let_def set_paged_page_checksum_def clear_paged_page_checksum_def
        page_def write_chain_header_def overwrite_def page_new_def page_set_header_def page_header_new_def page_header_to_bytes_def
        encode_paged_page_header_def page_sizes nth_append)
  have keep: "window a m (update_checksum crc page) = window a m page" if "32 \<le> a" "a + m \<le> paged_page_size" for a m
    using that len by (simp add: update_checksum_def Let_def set_paged_page_checksum_def clear_paged_page_checksum_def page_sizes)
  have chunk: "window 40 (length chunk) page = chunk" using len1 fits by (simp add: page_def)
  have "window 32 4 page = u32_le nxt" "window 36 4 page = u32_le (word_of_nat (length chunk))"
    using low [of 32 4] low [of 36 4] by (simp_all add: write_chain_header_def page_sizes)
  moreover have "unat (word_of_nat (length chunk) :: u32) = length chunk" using fits by (simp add: page_sizes u32_max_def)
  ultimately show "overflow_page nxt chunk (update_checksum crc page)"
    using chunk keep [of 32 4] keep [of 36 4] keep [of 40 "length chunk"] fits type0 assms(1)
    by (simp add: overflow_page_def read_chain_header_def page_get_type_def page_type_from_u8_def overflow_payload_per_page_def page_sizes Let_def)
qed

context paging
begin

lemma read_returns: "holds s U V n \<Longrightarrow> V i = Some page \<Longrightarrow> (\<And>s'. holds s' U V n \<Longrightarrow> Q page s') \<Longrightarrow> returns (run_call f (ps_read_page ps i)) s Q"
  using read_law [of s U V n i page] by (auto simp: returns_def run_call_def)

lemma write_returns: "holds s U V n \<Longrightarrow> i \<in> U \<Longrightarrow> length page = paged_page_size \<Longrightarrow> paged_page_id page = i \<Longrightarrow>
    (\<And>s'. holds s' U (V(i \<mapsto> update_checksum crc page)) n \<Longrightarrow> Q () s') \<Longrightarrow> returns (run_call f (ps_write_page ps i page)) s Q"
  using write_law [of s U V n i page] by (auto simp: returns_def run_call_def)

lemma allocate_returns: "holds s U V (Suc n) \<Longrightarrow> (\<And>i s'. holds s' (insert i U) V n \<Longrightarrow> i \<notin> U \<Longrightarrow> Q (page_new ty i) s') \<Longrightarrow>
    returns (run_call f (ps_allocate_page ps ty)) s Q"
  using allocate_law [of s U V n ty] by (auto simp: returns_def run_call_def)

lemma free_returns: "holds s U V n \<Longrightarrow> i \<in> U \<Longrightarrow> (\<And>s'. holds s' (U - {i}) (V(i := None)) n \<Longrightarrow> Q () s') \<Longrightarrow> returns (run_call f (ps_free_page ps i)) s Q"
  using free_law [of s U V n i] by (auto simp: returns_def run_call_def)

lemma allocate_pages_holds:
  "holds s U V (k + n) \<Longrightarrow> returns (allocate_pages ps k) s (\<lambda>ids s'. holds s' (U \<union> set ids) V n \<and> distinct ids \<and> set ids \<inter> U = {} \<and> length ids = k)"
proof (induction k arbitrary: s U)
  case (Suc k)
  show ?case unfolding allocate_pages.simps returns_steps
  proof (rule allocate_returns)
    show "holds s U V (Suc (k + n))" using Suc.prems by simp
    fix i s' assume h: "holds s' (insert i U) V (k + n)" and i: "i \<notin> U"
    show "returns (allocate_pages ps k) s' (\<lambda>ids s''. holds s'' (U \<union> set (paged_page_id (page_new PtOverflow i) # ids)) V n \<and>
        distinct (paged_page_id (page_new PtOverflow i) # ids) \<and> set (paged_page_id (page_new PtOverflow i) # ids) \<inter> U = {} \<and>
        length (paged_page_id (page_new PtOverflow i) # ids) = Suc k)"
      using i by (intro returns_mono [OF Suc.IH [OF h]]) auto
  qed
qed simp

lemma write_chain_holds:
  assumes "holds s U V n" and "set ids \<subseteq> U" and "distinct ids" and "length bs \<le> length ids * overflow_payload_per_page"
  shows "returns (write_chain ps ids bs) s (\<lambda>_ s'. \<exists>W. holds s' U W n \<and> chain_holds W ids bs \<and> (\<forall>i. i \<notin> set ids \<longrightarrow> W i = V i))"
  using assms
proof (induction ids arbitrary: s V bs)
  case (Cons i ids)
  let ?P = overflow_payload_per_page
  let ?page = "overwrite 40 (take ?P bs) (write_chain_header (next_id ids) (word_of_nat (length (take ?P bs))) (page_new PtOverflow i))"
  have pg: "overflow_page (next_id ids) (take ?P bs) (update_checksum crc ?page)" "length ?page = paged_page_size" "paged_page_id ?page = i"
    by (rule overflow_page_written, simp)+
  have i: "i \<noteq> 0" "i \<notin> set ids" "i \<in> U" using holds_pos [OF Cons.prems(1)] Cons.prems by auto
  show ?case unfolding write_chain.simps Let_def returns_steps
  proof (rule write_returns [OF Cons.prems(1) i(3) pg(2,3)])
    fix s1 assume h1: "holds s1 U (V(i \<mapsto> update_checksum crc ?page)) n"
    have "returns (write_chain ps ids (drop ?P bs)) s1
        (\<lambda>_ s'. \<exists>W. holds s' U W n \<and> chain_holds W ids (drop ?P bs) \<and> (\<forall>j. j \<notin> set ids \<longrightarrow> W j = (V(i \<mapsto> update_checksum crc ?page)) j))"
      using Cons.prems by (intro Cons.IH [OF h1]) auto
    then show "returns (write_chain ps ids (drop ?P bs)) s1
        (\<lambda>_ s'. \<exists>W. holds s' U W n \<and> chain_holds W (i # ids) bs \<and> (\<forall>j. j \<notin> set (i # ids) \<longrightarrow> W j = V j))"
      using i pg(1) by (elim returns_mono) auto
  qed
qed auto

lemma pages_needed_fits: "0 < pages_needed n" "n \<le> pages_needed n * overflow_payload_per_page"
proof -
  have "n + 16343 = 16344 * ((n + 16343) div 16344) + (n + 16343) mod 16344" by simp
  moreover have "(n + 16343) mod 16344 \<le> 16343" by (simp add: less_Suc_eq_le [symmetric])
  ultimately have "n \<le> 16344 * ((n + 16343) div 16344)" by linarith
  then show "0 < pages_needed n" "n \<le> pages_needed n * overflow_payload_per_page"
    by (auto simp: pages_needed_def overflow_payload_per_page_def page_sizes mult.commute)
qed

lemma chain_store_holds:
  assumes "holds s U V (pages_needed (length bs) + n)"
  shows "returns (chain_store ps bs) s (\<lambda>(h, len) s'. \<exists>ids W. ids \<noteq> [] \<and> h = hd ids \<and> len = word_of_nat (length bs) \<and> holds s' (U \<union> set ids) W n \<and>
    set ids \<inter> U = {} \<and> distinct ids \<and> chain_holds W ids bs \<and> (\<forall>i. i \<notin> set ids \<longrightarrow> W i = V i))"
  unfolding chain_store_def returns_steps
proof (rule returns_mono [OF allocate_pages_holds [OF assms]], goal_cases)
  case (1 ids s')
  then have "ids \<noteq> []" using pages_needed_fits(1) [of "length bs"] by auto
  moreover have "returns (write_chain ps ids bs) s' (\<lambda>_ s''. \<exists>W. holds s'' (U \<union> set ids) W n \<and> chain_holds W ids bs \<and> (\<forall>i. i \<notin> set ids \<longrightarrow> W i = V i))"
    using 1 pages_needed_fits(2) [of "length bs"] by (intro write_chain_holds) auto
  ultimately show ?case using 1 by (elim returns_mono) auto
qed

lemma chain_read_holds:
  assumes "holds s U V n" and "chain_holds V ids bs" and "length out + length bs < 2 ^ 64"
  shows "returns (chain_read ps (word_of_nat (length out + length bs)) (next_id ids) (word_of_nat (length out)) out) s (\<lambda>r s'. r = out @ bs \<and> holds s' U V n)"
  using assms
proof (induction ids arbitrary: s bs out)
  case Nil
  then show ?case by (subst chain_read.simps) (simp add: returns_def)
next
  case (Cons i ids)
  let ?P = overflow_payload_per_page and ?total = "word_of_nat (length out + length bs) :: u64"
  obtain page where page: "V i = Some page" "overflow_page (next_id ids) (take ?P bs) page" and i: "i \<noteq> 0" using Cons.prems(2) by auto
  obtain s1 where rd: "ps_read_page ps i s = (Inr page, s1)" and h1: "holds s1 U V n" using read_law [OF Cons.prems(1) page(1)] by blast
  let ?chunk = "take ?P bs"
  have len: "unat (word_of_nat (length ?chunk) :: u32) = length ?chunk"
    using page(2) by (intro unat_u32_len) (simp add: overflow_page_def overflow_payload_per_page_def page_sizes u32_max_def)
  have col: "word_of_nat (length out) + ucast (word_of_nat (length ?chunk) :: u32) = (word_of_nat (length (out @ ?chunk)) :: u64)"
    using len by (metis length_append of_nat_add of_nat_unat)
  have le: "\<not> ?total < word_of_nat (length (out @ ?chunk))" using Cons.prems(3) by (simp add: word_less_nat_alt unat_of_nat flip: of_nat_add)
  have total: "length (out @ ?chunk) + length (drop ?P bs) = length out + length bs" by simp
  have "returns (chain_read ps ?total (next_id ids) (word_of_nat (length (out @ ?chunk))) (out @ ?chunk)) s1 (\<lambda>r s'. r = (out @ ?chunk) @ drop ?P bs \<and> holds s' U V n)"
    using Cons.IH [OF h1, of "drop ?P bs" "out @ ?chunk", unfolded total] Cons.prems(2,3) by auto
  moreover have "chain_read ps ?total (next_id (i # ids)) (word_of_nat (length out)) out s =
      chain_read ps ?total (next_id ids) (word_of_nat (length (out @ ?chunk))) (out @ ?chunk) s1"
    using i rd page(2) col le len by (subst chain_read.simps) (simp add: overflow_page_def Let_def)
  ultimately show ?case by (simp add: returns_def)
qed

lemma chain_free_holds:
  assumes "holds s U V n" and "chain_holds V ids bs" and "set ids \<subseteq> U" and "distinct ids"
  shows "returns (chain_free ps (next_id ids) is_first) s (\<lambda>_ s'. holds s' (U - set ids) (V |` (- set ids)) n)"
  using assms
proof (induction ids arbitrary: s U V bs is_first)
  case Nil
  then show ?case by (subst chain_free.simps) (simp add: returns_def restrict_map_def)
next
  case (Cons i ids)
  obtain page where page: "V i = Some page" "overflow_page (next_id ids) (take overflow_payload_per_page bs) page" and i: "i \<noteq> 0" using Cons.prems(2) by auto
  obtain s1 where rd: "ps_read_page ps i s = (Inr page, s1)" and h1: "holds s1 U V n" using read_law [OF Cons.prems(1) page(1)] by blast
  obtain s2 where fr: "ps_free_page ps i s1 = (Inr (), s2)" and h2: "holds s2 (U - {i}) (V(i := None)) n" using free_law [OF h1] Cons.prems(3) by auto
  have rest: "chain_holds (V(i := None)) ids (drop overflow_payload_per_page bs)"
    using Cons.prems(2,4) by (subst chain_holds_cong [of ids "V(i := None)" V]) auto
  have "returns (chain_free ps (next_id ids) False) s2 (\<lambda>_ s'. holds s' (U - {i} - set ids) (V(i := None) |` (- set ids)) n)"
    using Cons.prems(3,4) by (intro Cons.IH [OF h2 rest]) auto
  moreover have "chain_free ps (next_id (i # ids)) is_first s = chain_free ps (next_id ids) False s2"
    using i rd fr page(2) by (subst chain_free.simps) (simp add: overflow_page_def)
  moreover have "V(i := None) |` (- set ids) = V |` (- set (i # ids))" by (auto simp: restrict_map_def)
  moreover have "U - {i} - set ids = U - set (i # ids)" by auto
  ultimately show ?case by (simp add: returns_def)
qed

end

subsection \<open>What a stored value stands for\<close>

abbreviation flag_of :: "bool \<Rightarrow> value_flag" where
  "flag_of is_compressed \<equiv> (if is_compressed then FlagLz4 else FlagRaw)"

text \<open>\<open>stores decompress V stored v ids\<close>: the cell stands for the value \<open>v\<close>, and its overflow pages are \<open>ids\<close>.\<close>

definition stores :: "(bytes \<Rightarrow> nat \<Rightarrow> string + bytes) \<Rightarrow> (u32 \<Rightarrow> bytes option) \<Rightarrow> bytes \<Rightarrow> bytes \<Rightarrow> u32 list \<Rightarrow> bool" where
  "stores decompress V stored v ids \<longleftrightarrow>
     (case decode_btree_value_cell stored of
        Inl _ \<Rightarrow> False
      | Inr (InlineCell c payload) \<Rightarrow> ids = [] \<and> length payload \<le> u64_max \<and> value_decode decompress (flag_of c) payload = Inr v
      | Inr (PointerCell c h len) \<Rightarrow> ids \<noteq> [] \<and> h = hd ids \<and>
          (\<exists>bs. unat len = length bs \<and> chain_holds V ids bs \<and> value_decode decompress (flag_of c) bs = Inr v))"

lemma stores_cong: "(\<And>i. i \<in> set ids \<Longrightarrow> V i = W i) \<Longrightarrow> stores decompress V stored v ids = stores decompress W stored v ids"
  using chain_holds_cong [of ids V W] by (auto simp: stores_def split: sum.split btree_value_cell.split)

lemma stores_head: "stores decompress V stored v ids \<Longrightarrow> pointer_head stored = (case ids of [] \<Rightarrow> None | i # _ \<Rightarrow> Some i)"
  by (auto simp: stores_def pointer_head_def split: sum.splits btree_value_cell.splits list.split)

definition lz4 :: "(bytes \<Rightarrow> bytes) \<Rightarrow> (bytes \<Rightarrow> nat \<Rightarrow> string + bytes) \<Rightarrow> bool" where
  "lz4 compress decompress \<longleftrightarrow> (\<forall>bs. decompress (compress bs) (length bs) = Inr bs)"

lemma value_decode_raw [simp]: "value_decode decompress FlagRaw bs = Inr bs"
  by (simp add: value_decode_def)

lemma value_codec:
  assumes "lz4 compress decompress" and "length v \<le> btree_value_max_size" and "value_encode compress v = (flag, bs)"
  shows "value_decode decompress flag bs = Inr v" "length bs \<le> length v" "flag = FlagLz4 \<Longrightarrow> 4 \<le> length bs"
proof -
  have "unat (word_of_nat (length v) :: u32) = length v" using assms(2) by (intro unat_u32_len) (simp add: u32_max_def)
  then show "value_decode decompress flag bs = Inr v" "length bs \<le> length v" "flag = FlagLz4 \<Longrightarrow> 4 \<le> length bs"
    using assms by (auto simp: value_encode_def value_decode_def decoded_length_def lz4_def Let_def split: if_splits)
qed

lemma decoded_length_max: "decoded_length FlagLz4 bs = Inr n \<Longrightarrow> n \<le> u64_max"
  using unsigned_less [of "u32_of_le (take 4 bs)", where 'a = nat] by (auto simp: decoded_length_def u64_max_def split: if_splits)

lemma value_decode_length: "value_decode decompress FlagLz4 bs = Inr v \<Longrightarrow> \<exists>n. decoded_length FlagLz4 bs = Inr n \<and> n \<le> u64_max"
  using decoded_length_max by (auto simp: value_decode_def and_then_Inr)

context paging
begin

lemma layout_encode_holds:
  assumes h: "holds s U V (pages_needed (length v) + n)" and lz: "lz4 compress decompress" and v: "length v \<le> btree_value_max_size"
  shows "returns (layout_encode ps compress v) s (\<lambda>stored s'. \<exists>ids W m. holds s' (U \<union> set ids) W m \<and> n \<le> m \<and> set ids \<inter> U = {} \<and> distinct ids \<and>
    stores decompress W stored v ids \<and> length stored \<le> overflow_threshold + 1 \<and> (\<forall>i. i \<notin> set ids \<longrightarrow> W i = V i))"
proof -
  obtain flag bs where enc: "value_encode compress v = (flag, bs)" by (cases "value_encode compress v")
  note codec = value_codec [OF lz v enc]
  consider "length v \<le> compression_threshold" | "compression_threshold < length v" "length bs \<le> overflow_threshold"
    | "compression_threshold < length v" "overflow_threshold < length bs" by linarith
  then show ?thesis
  proof cases
    case 1
    then have "stores decompress V (encode_btree_inline_raw v) v []"
      by (simp add: stores_def encode_btree_inline_raw_def decode_btree_value_cell_def value_decode_def u64_max_def)
    then show ?thesis using 1 h v by (auto simp: layout_encode_def encode_btree_inline_raw_def intro!: exI [of _ "[]"] exI [of _ V])
  next
    case 2
    let ?stored = "case flag of FlagRaw \<Rightarrow> encode_btree_inline_raw bs | FlagLz4 \<Rightarrow> encode_btree_inline_compressed bs"
    have "stores decompress V ?stored v [] \<and> length ?stored \<le> overflow_threshold + 1"
      using 2(2) codec by (cases flag) (simp_all add: stores_def encode_btree_inline_raw_def encode_btree_inline_compressed_def decode_btree_value_cell_def u64_max_def)
    then show ?thesis using 2 h v enc by (auto simp: layout_encode_def intro!: exI [of _ "[]"] exI [of _ V])
  next
    case 3
    have "pages_needed (length bs) \<le> pages_needed (length v)" using codec(2) 3 by (auto simp: pages_needed_def intro!: div_le_mono)
    then obtain m where m: "holds s U V (pages_needed (length bs) + m)" "n \<le> m" using h by (metis add.assoc le_Suc_ex le_add2)
    have "unat (word_of_nat (length bs) :: u64) = length bs" using codec(2) v by (simp add: unat_of_nat)
    then have ptr: "stores decompress W (encode_btree_pointer (hd ids) (word_of_nat (length bs)) (flag = FlagLz4)) v ids"
      if "ids \<noteq> []" "chain_holds W ids bs" for W ids
      using that codec by (cases flag) (auto simp: stores_def encode_btree_pointer_def decode_btree_value_cell_def window_skip)
    have enc3: "layout_encode ps compress v = run_bind (run_map_err LayoutOverflow (chain_store ps bs)) (\<lambda>(head_page_id, total_len).
        run_return (encode_btree_pointer head_page_id total_len (flag = FlagLz4)))" using 3 v enc by (simp add: layout_encode_def)
    show ?thesis unfolding enc3 returns_steps returns_map_err
    proof (rule returns_mono [OF chain_store_holds [OF m(1)]], goal_cases)
      case (1 x s')
      then obtain ids W where x: "x = (hd ids, word_of_nat (length bs))" and w: "ids \<noteq> []" "holds s' (U \<union> set ids) W m" "set ids \<inter> U = {}" "distinct ids"
        "chain_holds W ids bs" "\<forall>i. i \<notin> set ids \<longrightarrow> W i = V i" by (cases x) auto
      have "length (encode_btree_pointer (hd ids) (word_of_nat (length bs)) (flag = FlagLz4)) \<le> overflow_threshold + 1" by (simp add: encode_btree_pointer_def)
      then show ?case using x w ptr [OF w(1,5)] m(2) by (auto intro!: exI [of _ ids] exI [of _ W])
    qed
  qed
qed

lemma layout_decode_holds:
  assumes h: "holds s U V n" and st: "stores decompress V stored v ids"
  shows "returns (layout_decode ps decompress stored u64_max) s (\<lambda>r s'. r = v \<and> holds s' U V n)"
proof (cases "decode_btree_value_cell stored")
  case (Inr cell)
  show ?thesis
  proof (cases cell)
    case (InlineCell c payload)
    then show ?thesis using Inr st h value_decode_length [of decompress payload v]
      by (auto simp: layout_decode_def stores_def check_read_budget_def ensure_def)
  next
    case (PointerCell c hd_id len)
    then obtain i rest bs where ids: "ids = i # rest" "hd_id = i" and bs: "unat len = length bs" "chain_holds V ids bs" "value_decode decompress (flag_of c) bs = Inr v"
      using Inr st by (cases ids) (auto simp: stores_def)
    have len: "len = word_of_nat (length bs)" "length bs < 2 ^ 64" using bs(1) [symmetric] unsigned_less [of len, where 'a = nat] by simp_all
    show ?thesis using PointerCell Inr bs ids chain_read_holds [OF h bs(2), of "[]"] len value_decode_length [of decompress bs v]
      by (auto simp: layout_decode_def check_read_budget_def ensure_def saturating_add64_def u64_max_def elim!: returns_mono)
  qed
qed (use st in \<open>simp add: stores_def\<close>)

lemma free_chain_holds:
  assumes h: "holds s U V n" and st: "stores decompress V stored v ids" and ids: "set ids \<subseteq> U" "distinct ids"
  shows "returns (free_chain_if_pointer ps stored) s (\<lambda>_ s'. holds s' (U - set ids) (V |` (- set ids)) n)"
proof (cases ids)
  case Nil
  then show ?thesis using h stores_head [OF st] by (simp add: free_chain_if_pointer_def restrict_map_def)
next
  case (Cons i rest)
  then obtain bs where "chain_holds V ids bs" using st by (auto simp: stores_def split: sum.splits btree_value_cell.splits)
  then show ?thesis using chain_free_holds [OF h _ ids, of bs True] stores_head [OF st] Cons by (simp add: free_chain_if_pointer_def)
qed

lemma two_values:
  assumes h: "holds s U V (pages_needed (length v) + pages_needed (length w))" and lz: "lz4 compress decompress"
    and len: "length v \<le> btree_value_max_size" "length w \<le> btree_value_max_size"
  shows "returns (run_bind (layout_encode ps compress v) (\<lambda>a. run_bind (layout_encode ps compress w) (\<lambda>b.
      run_bind (layout_decode ps decompress a u64_max) (\<lambda>v'. run_bind (free_chain_if_pointer ps a) (\<lambda>_.
      run_bind (layout_decode ps decompress b u64_max) (\<lambda>w'. run_return (v', w'))))))) s (\<lambda>r s'. r = (v, w))"
  unfolding returns_steps
proof (rule returns_mono [OF layout_encode_holds [OF h lz len(1)]], elim exE conjE, goal_cases)
  case (1 a s1 ids1 W1 m)
  then obtain k where h1: "holds s1 (U \<union> set ids1) W1 (pages_needed (length w) + k)" by (metis le_Suc_ex)
  show ?case
  proof (rule returns_mono [OF layout_encode_holds [OF h1 lz len(2)]], elim exE conjE, goal_cases)
    case (1 b s2 ids2 W2 m2)
    have st1: "stores decompress W2 a v ids1" using 1 \<open>stores decompress W1 a v ids1\<close> by (subst stores_cong [of ids1 W2 W1]) auto
    show ?case
    proof (rule returns_mono [OF layout_decode_holds [OF 1(1) st1]], elim conjE, goal_cases)
      case (1 v' s3)
      have ids1: "set ids1 \<subseteq> U \<union> set ids1 \<union> set ids2" by auto
      have st2: "stores decompress (W2 |` (- set ids1)) b w ids2"
        using \<open>stores decompress W2 b w ids2\<close> \<open>set ids2 \<inter> (U \<union> set ids1) = {}\<close> by (subst stores_cong [of ids2 _ W2]) auto
      show ?case
        by (rule returns_mono [OF free_chain_holds [OF 1(2) st1 ids1 \<open>distinct ids1\<close>]], rule returns_mono [OF layout_decode_holds [OF _ st2]])
          (use 1 in auto)
    qed
  qed
qed

end

text \<open>
  C23: Values of up to 256 MiB survive their layout. On a new database, two values are encoded one after the
  other, each inline, compressed or spilled to a chain of overflow pages as the size decides; both decode to
  themselves, and the second one still does after the chain of the first was freed. Compression is any pair of
  functions of which the second undoes the first.
\<close>

theorem values_round_trip:
  assumes "fresh_pager p" and "lz4 compress decompress" and "length v \<le> btree_value_max_size" and "length w \<le> btree_value_max_size"
  shows "returns (run_bind (layout_encode (pager_store crc) compress v) (\<lambda>a. run_bind (layout_encode (pager_store crc) compress w) (\<lambda>b.
      run_bind (layout_decode (pager_store crc) decompress a u64_max) (\<lambda>v'. run_bind (free_chain_if_pointer (pager_store crc) a) (\<lambda>_.
      run_bind (layout_decode (pager_store crc) decompress b u64_max) (\<lambda>w'. run_return (v', w'))))))) p (\<lambda>r p'. r = (v, w))"
proof -
  have "pages_needed n \<le> 16426" if "n \<le> btree_value_max_size" for n
    using that div_le_mono [of "16343 + n" "268435456 + 16343" 16344] by (simp add: pages_needed_def overflow_payload_per_page_def page_sizes)
  from this [OF assms(3)] this [OF assms(4)] have "pages_needed (length v) + pages_needed (length w) \<le> 2 ^ 32 - 1 - 67" by simp
  from pages.two_values [OF fresh_pager_holds [OF assms(1) this] assms(2-4)] show ?thesis .
qed

theorem values_round_trip_witness:
  "returns (run_bind (layout_encode (pager_store (\<lambda>_. 7)) (\<lambda>bs. bs) [1, 2, 3]) (\<lambda>a.
      run_bind (layout_encode (pager_store (\<lambda>_. 7)) (\<lambda>bs. bs) (replicate 5000 9)) (\<lambda>b.
      run_bind (layout_decode (pager_store (\<lambda>_. 7)) (\<lambda>bs n. Inr bs) a u64_max) (\<lambda>v'.
      run_bind (free_chain_if_pointer (pager_store (\<lambda>_. 7)) a) (\<lambda>_.
      run_bind (layout_decode (pager_store (\<lambda>_. 7)) (\<lambda>bs n. Inr bs) b u64_max) (\<lambda>w'. run_return (v', w')))))))
     \<lparr>pg_file = Map.empty, pg_cache = [], pg_victims = [], pg_freelist = free_list_new, pg_page_count = first_allocatable_page,
      pg_header_freelist_head = 0, pg_deferred = False, pg_pending = [], pg_recovery = [], pg_read_only = False, pg_verify_checksums = True,
      pg_writeback_failed = False\<rparr> (\<lambda>r p'. r = ([1, 2, 3], replicate 5000 9))"
  by (rule values_round_trip) (simp_all add: fresh_pager_def lz4_def)

end
