(* ===== verification/Btree_Page.thy ===== *)
theory Btree_Page
  imports Overflow_Chain
begin

section \<open>Pages of the B-tree\<close>

text \<open>
  The page helpers of \<open>src/crates/reddb-engine/src/storage/btree.rs\<close>: leaf pages with an array of slots after the links of the leaf
  chain, interior pages with an array of slots after the header, cells stacked downwards from the end of the
  page. \<open>leaf_page\<close> and \<open>interior_page\<close> say which entries, separators and children a page holds; every helper is shown to act on
  them as on lists. Deleting an entry leaves its cell behind, so the cells of a page need not be contiguous.
  The rebuilding helpers return the error alone where the source has also filled part of the page it was given: that
  page is a local copy, and every caller returns the error without writing it.
\<close>

datatype btree_error =
    BNotFound | BDuplicateKey | BKeyTooLarge nat | BValueTooLarge nat | BCorrupted string | BPager pager_error
  | BLockPoisoned string | BValueLayout value_layout_error | BReadLimitExceeded nat nat

datatype search_result = Found nat | NotFound nat

abbreviation leaf_slot_array_offset :: nat where "leaf_slot_array_offset \<equiv> 40"
abbreviation interior_data_offset :: nat where "interior_data_offset \<equiv> 32"
abbreviation max_key_size :: nat where "max_key_size \<equiv> 1024"

subsection \<open>Header fields\<close>

definition paged_page_free_end :: "bytes \<Rightarrow> u16" where
  "paged_page_free_end page = u16_of_le (window 6 2 page)"

definition set_paged_page_free_end :: "u16 \<Rightarrow> bytes \<Rightarrow> bytes" where
  "set_paged_page_free_end offset page = overwrite 6 (u16_le offset) page"

definition set_paged_page_free_start :: "u16 \<Rightarrow> bytes \<Rightarrow> bytes" where
  "set_paged_page_free_start offset page = overwrite 4 (u16_le offset) page"

definition set_paged_page_cell_count :: "u16 \<Rightarrow> bytes \<Rightarrow> bytes" where
  "set_paged_page_cell_count count page = overwrite 2 (u16_le count) page"

definition paged_page_right_child :: "bytes \<Rightarrow> u32" where
  "paged_page_right_child page = u32_of_le (window 16 4 page)"

definition set_paged_page_right_child :: "u32 \<Rightarrow> bytes \<Rightarrow> bytes" where
  "set_paged_page_right_child child_id page = overwrite 16 (u32_le child_id) page"

abbreviation page_cell_count :: "bytes \<Rightarrow> nat" where
  "page_cell_count page \<equiv> unat (paged_page_cell_count page)"

subsection \<open>Slots\<close>

definition leaf_read_slot :: "bytes \<Rightarrow> nat \<Rightarrow> btree_error + nat" where
  "leaf_read_slot page index =
     (let slot_pos = leaf_slot_array_offset + index * 2 in
      if slot_pos + 2 > paged_page_size then Inl (BCorrupted ''slot array overflows page'')
      else Inr (unat (u16_of_le (window slot_pos 2 page))))"

definition leaf_write_slot :: "nat \<Rightarrow> u16 \<Rightarrow> bytes \<Rightarrow> btree_error + bytes" where
  "leaf_write_slot index cell_offset page =
     (let slot_pos = leaf_slot_array_offset + index * 2 in
      if slot_pos + 2 > paged_page_size then Inl (BCorrupted ''slot array overflows page'')
      else Inr (overwrite slot_pos (u16_le cell_offset) page))"

definition interior_read_slot :: "bytes \<Rightarrow> nat \<Rightarrow> btree_error + nat" where
  "interior_read_slot page index =
     (let slot_pos = interior_data_offset + index * 2 in
      if slot_pos + 2 > paged_page_size then Inl (BCorrupted ''interior slot array overflows page'')
      else Inr (unat (u16_of_le (window slot_pos 2 page))))"

definition interior_write_slot :: "nat \<Rightarrow> u16 \<Rightarrow> bytes \<Rightarrow> btree_error + bytes" where
  "interior_write_slot index cell_offset page =
     (let slot_pos = interior_data_offset + index * 2 in
      if slot_pos + 2 > paged_page_size then Inl (BCorrupted ''interior slot array overflows page'')
      else Inr (overwrite slot_pos (u16_le cell_offset) page))"

text \<open>\<open>leaf_cells_start\<close> and \<open>interior_cells_start\<close> are the same function.\<close>

definition cells_start :: "bytes \<Rightarrow> nat" where
  "cells_start page = (let off = unat (paged_page_free_end page) in if off = 0 then paged_page_size else off)"

definition leaf_free_bytes :: "bytes \<Rightarrow> nat" where
  "leaf_free_bytes page = cells_start page - (leaf_slot_array_offset + page_cell_count page * 2)"

definition interior_free_bytes :: "bytes \<Rightarrow> nat" where
  "interior_free_bytes page = cells_start page - (interior_data_offset + page_cell_count page * 2)"

subsection \<open>Sizes\<close>

definition leaf_min_bytes :: nat where
  "leaf_min_bytes = (paged_page_size - leaf_slot_array_offset) * 25 div 100"

definition interior_min_bytes :: nat where
  "interior_min_bytes = (paged_page_size - interior_data_offset) * 25 div 100"

definition leaf_entries_size :: "(bytes \<times> bytes) list \<Rightarrow> nat" where
  "leaf_entries_size entries = sum_list (map (\<lambda>(k, v). 2 + 4 + length k + length v) entries)"

definition interior_entries_size :: "bytes list \<Rightarrow> nat" where
  "interior_entries_size keys = sum_list (map (\<lambda>k. 2 + length k + 4) keys)"

subsection \<open>Leaf pages\<close>

definition read_leaf_cell :: "bytes \<Rightarrow> nat \<Rightarrow> btree_error + (bytes \<times> bytes)" where
  "read_leaf_cell page index =
     (if index \<ge> page_cell_count page then Inl (BCorrupted ''Cell index out of range'')
      else and_then (leaf_read_slot page index) (\<lambda>offset.
        if offset + 4 > paged_page_size then Inl (BCorrupted ''cell header out of range'')
        else
          let key_len = unat (u16_of_le (window offset 2 page)); val_len = unat (u16_of_le (window (offset + 2) 2 page)) in
          if offset + 4 + key_len + val_len > paged_page_size then Inl (BCorrupted ''cell body out of range'')
          else Inr (window (offset + 4) key_len page, window (offset + 4 + key_len) val_len page)))"

fun read_all :: "(nat \<Rightarrow> 'e + 'a) \<Rightarrow> nat list \<Rightarrow> 'e + 'a list" where
  "read_all rd [] = Inr []"
| "read_all rd (i # is) = and_then (rd i) (\<lambda>x. and_then (read_all rd is) (\<lambda>xs. Inr (x # xs)))"

definition read_leaf_entries :: "bytes \<Rightarrow> btree_error + (bytes \<times> bytes) list" where
  "read_leaf_entries page = read_all (read_leaf_cell page) [0..<page_cell_count page]"

function tree_search :: "(nat \<Rightarrow> 'e + (bytes \<times> 'v)) \<Rightarrow> bytes \<Rightarrow> nat \<Rightarrow> nat \<Rightarrow> 'e + search_result" where
  "tree_search rd key low high =
     (if low < high then
        let mid = (low + high) div 2 in
        and_then (rd mid) (\<lambda>(cell_key, _).
          if cell_key < key then tree_search rd key (mid + 1) high
          else if key < cell_key then tree_search rd key low mid
          else Inr (Found mid))
      else Inr (NotFound low))"
  by pat_completeness auto
termination
  by (relation "measure (\<lambda>(_, _, low, high). high - low)") auto

declare tree_search.simps [simp del]

definition search_leaf :: "bytes \<Rightarrow> bytes \<Rightarrow> btree_error + search_result" where
  "search_leaf page key = tree_search (read_leaf_cell page) key 0 (page_cell_count page)"

definition clear_leaf_cells :: "bytes \<Rightarrow> bytes" where
  "clear_leaf_cells page =
     set_paged_page_free_end (word_of_nat paged_page_size) (set_paged_page_free_start (word_of_nat leaf_slot_array_offset)
       (set_paged_page_cell_count 0 (overwrite leaf_slot_array_offset (replicate (length page - leaf_slot_array_offset) 0) page)))"

definition write_leaf_cell :: "nat \<Rightarrow> bytes \<Rightarrow> bytes \<Rightarrow> bytes \<Rightarrow> bytes" where
  "write_leaf_cell off k v page =
     overwrite (off + 4 + length k) v (overwrite (off + 4) k
       (overwrite (off + 2) (u16_le (word_of_nat (length v))) (overwrite off (u16_le (word_of_nat (length k))) page)))"

fun write_leaf_loop :: "nat \<Rightarrow> (bytes \<times> bytes) list \<Rightarrow> bytes \<Rightarrow> btree_error + bytes" where
  "write_leaf_loop i [] page = Inr page"
| "write_leaf_loop i ((k, v) # entries) page =
     (let cell_size = 4 + length k + length v; start = cells_start page in
      if leaf_slot_array_offset + (i + 1) * 2 + cell_size > start then Inl (BCorrupted ''leaf rebuild overflowed page'')
      else
        let off = start - cell_size in
        and_then (leaf_write_slot i (word_of_nat off) (set_paged_page_free_end (word_of_nat off) (write_leaf_cell off k v page)))
          (write_leaf_loop (i + 1) entries))"

definition write_leaf_entries :: "(bytes \<times> bytes) list \<Rightarrow> bytes \<Rightarrow> btree_error + bytes" where
  "write_leaf_entries entries page =
     and_then (write_leaf_loop 0 entries (clear_leaf_cells page)) (\<lambda>page'.
       Inr (set_paged_page_free_start (word_of_nat (leaf_slot_array_offset + length entries * 2))
         (set_paged_page_cell_count (word_of_nat (length entries)) page')))"

definition can_insert_leaf :: "bytes \<Rightarrow> bytes \<Rightarrow> bytes \<Rightarrow> bool" where
  "can_insert_leaf page key val \<longleftrightarrow> leaf_free_bytes page \<ge> 2 + 4 + length key + length val"

definition copy_within :: "nat \<Rightarrow> nat \<Rightarrow> nat \<Rightarrow> bytes \<Rightarrow> bytes" where
  "copy_within src n dst page = overwrite dst (window src n page) page"

definition insert_into_leaf :: "bytes \<Rightarrow> bytes \<Rightarrow> bytes \<Rightarrow> btree_error + bytes" where
  "insert_into_leaf key val page =
     (let count = page_cell_count page in
      and_then (tree_search (read_leaf_cell page) key 0 count) (\<lambda>found.
        let insert_pos = (case found of Found mid \<Rightarrow> mid + 1 | NotFound low \<Rightarrow> low);
            cell_size = 4 + length key + length val; start = cells_start page in
        if leaf_slot_array_offset + (count + 1) * 2 + cell_size > start then Inl (BCorrupted ''leaf page full'')
        else
          let off = start - cell_size;
              page1 = set_paged_page_free_end (word_of_nat off) (write_leaf_cell off key val page);
              from_pos = leaf_slot_array_offset + insert_pos * 2;
              page2 = copy_within from_pos ((count - insert_pos) * 2) (from_pos + 2) page1 in
          and_then (leaf_write_slot insert_pos (word_of_nat off) page2) (\<lambda>page3.
            Inr (set_paged_page_free_start (word_of_nat (leaf_slot_array_offset + (count + 1) * 2))
              (set_paged_page_cell_count (word_of_nat (count + 1)) page3)))))"

definition delete_from_leaf :: "nat \<Rightarrow> bytes \<Rightarrow> btree_error + bytes" where
  "delete_from_leaf index page =
     (let count = page_cell_count page in
      if index \<ge> count then Inl (BCorrupted ''delete index out of range'')
      else
        let to_pos = leaf_slot_array_offset + index * 2;
            page1 = (if index + 1 < count then copy_within (to_pos + 2) ((count - index - 1) * 2) to_pos page else page) in
        Inr (set_paged_page_free_start (word_of_nat (leaf_slot_array_offset + (count - 1) * 2))
          (set_paged_page_cell_count (word_of_nat (count - 1)) page1)))"

definition overwrite_leaf_value :: "nat \<Rightarrow> bytes \<Rightarrow> bytes \<Rightarrow> btree_error + bytes" where
  "overwrite_leaf_value index new_value page =
     and_then (leaf_read_slot page index) (\<lambda>off.
       if off + 4 > length page then Inl (BCorrupted ''leaf cell header out of bounds'')
       else
         let k_len = unat (u16_of_le (window off 2 page)); old_v_len = unat (u16_of_le (window (off + 2) 2 page)) in
         if length new_value > old_v_len then Inl (BCorrupted ''overwrite_leaf_value: new value larger than slot'')
         else if off + 4 + k_len + length new_value > length page then Inl (BCorrupted ''leaf cell value out of bounds'')
         else
           Inr (overwrite (off + 4 + k_len) new_value
             (if length new_value \<noteq> old_v_len then overwrite (off + 2) (u16_le (word_of_nat (length new_value))) page else page)))"

definition init_leaf_links :: "u32 \<Rightarrow> u32 \<Rightarrow> bytes \<Rightarrow> bytes" where
  "init_leaf_links prev nxt page = overwrite 36 (u32_le nxt) (overwrite 32 (u32_le prev) page)"

definition read_next_leaf :: "bytes \<Rightarrow> u32" where
  "read_next_leaf page = u32_of_le (window 36 4 page)"

definition leaf_high_key :: "bytes \<Rightarrow> btree_error + bytes option" where
  "leaf_high_key page =
     (let count = page_cell_count page in
      if count = 0 then Inr None else and_then (read_leaf_cell page (count - 1)) (\<lambda>(key, _). Inr (Some key)))"

definition set_prev_leaf :: "u32 \<Rightarrow> bytes \<Rightarrow> bytes" where
  "set_prev_leaf prev page = overwrite 32 (u32_le prev) page"

definition set_next_leaf :: "u32 \<Rightarrow> bytes \<Rightarrow> bytes" where
  "set_next_leaf nxt page = overwrite 36 (u32_le nxt) page"

subsection \<open>Interior pages\<close>

definition read_interior_cell :: "bytes \<Rightarrow> nat \<Rightarrow> btree_error + (bytes \<times> u32)" where
  "read_interior_cell page index =
     (if index \<ge> page_cell_count page then Inl (BCorrupted ''Cell index out of range'')
      else and_then (interior_read_slot page index) (\<lambda>offset.
        if offset + 2 > paged_page_size then Inl (BCorrupted ''interior cell header out of range'')
        else
          let key_len = unat (u16_of_le (window offset 2 page)) in
          if offset + 2 + key_len + 4 > paged_page_size then Inl (BCorrupted ''interior cell body out of range'')
          else Inr (window (offset + 2) key_len page, u32_of_le (window (offset + 2 + key_len) 4 page))))"

fun find_child_loop :: "(nat \<Rightarrow> 'e + (bytes \<times> u32)) \<Rightarrow> bytes \<Rightarrow> nat list \<Rightarrow> u32 \<Rightarrow> 'e + u32" where
  "find_child_loop rd key [] right = Inr right"
| "find_child_loop rd key (i # is) right =
     and_then (rd i) (\<lambda>(cell_key, child). if key < cell_key then Inr child else find_child_loop rd key is right)"

definition find_child :: "bytes \<Rightarrow> bytes \<Rightarrow> btree_error + u32" where
  "find_child page key = find_child_loop (read_interior_cell page) key [0..<page_cell_count page] (paged_page_right_child page)"

definition find_first_child :: "bytes \<Rightarrow> btree_error + u32" where
  "find_first_child page =
     (if page_cell_count page = 0 then Inr (paged_page_right_child page)
      else and_then (read_interior_cell page 0) (\<lambda>(_, child). Inr child))"

definition read_interior_keys_children :: "bytes \<Rightarrow> btree_error + (bytes list \<times> u32 list)" where
  "read_interior_keys_children page =
     and_then (read_all (read_interior_cell page) [0..<page_cell_count page]) (\<lambda>cells.
       let right = paged_page_right_child page in
       Inr (map fst cells,
            map snd cells @ (if page_cell_count page = 0 then (if right \<noteq> 0 then [right] else []) else [right])))"

definition clear_interior_cells :: "bytes \<Rightarrow> bytes" where
  "clear_interior_cells page =
     set_paged_page_free_end (word_of_nat paged_page_size) (set_paged_page_free_start (word_of_nat interior_data_offset)
       (set_paged_page_cell_count 0 (overwrite interior_data_offset (replicate (length page - interior_data_offset) 0) page)))"

definition write_interior_cell :: "nat \<Rightarrow> bytes \<Rightarrow> u32 \<Rightarrow> bytes \<Rightarrow> bytes" where
  "write_interior_cell off k child page =
     overwrite (off + 2 + length k) (u32_le child) (overwrite (off + 2) k (overwrite off (u16_le (word_of_nat (length k))) page))"

fun write_interior_loop :: "nat \<Rightarrow> (bytes \<times> u32) list \<Rightarrow> bytes \<Rightarrow> btree_error + bytes" where
  "write_interior_loop i [] page = Inr page"
| "write_interior_loop i ((key, child) # cells) page =
     (let cell_size = 2 + length key + 4; start = cells_start page in
      if interior_data_offset + (i + 1) * 2 + cell_size > start then Inl (BCorrupted ''interior rebuild overflowed page'')
      else
        let off = start - cell_size in
        and_then (interior_write_slot i (word_of_nat off) (set_paged_page_free_end (word_of_nat off) (write_interior_cell off key child page)))
          (write_interior_loop (i + 1) cells))"

definition write_interior_entries :: "bytes list \<Rightarrow> u32 list \<Rightarrow> bytes \<Rightarrow> btree_error + bytes" where
  "write_interior_entries keys children page =
     (if keys \<noteq> [] \<and> length children \<noteq> length keys + 1 then Inl (BCorrupted ''Interior keys/children length mismatch'')
      else
        let page1 = clear_interior_cells page in
        if keys = [] then Inr (set_paged_page_right_child (case children of [] \<Rightarrow> 0 | c # _ \<Rightarrow> c) page1)
        else and_then (write_interior_loop 0 (zip keys children) page1) (\<lambda>page2.
          Inr (set_paged_page_right_child (last children)
            (set_paged_page_free_start (word_of_nat (interior_data_offset + length keys * 2))
              (set_paged_page_cell_count (word_of_nat (length keys)) page2)))))"

definition can_insert_interior :: "bytes \<Rightarrow> bytes \<Rightarrow> bool" where
  "can_insert_interior page key \<longleftrightarrow> interior_free_bytes page \<ge> 2 + 2 + length key + 4"

function lower_bound_loop :: "(nat \<Rightarrow> 'e + (bytes \<times> 'v)) \<Rightarrow> bytes \<Rightarrow> nat \<Rightarrow> nat \<Rightarrow> 'e + nat" where
  "lower_bound_loop rd key low high =
     (if low < high then
        let mid = (low + high) div 2 in
        and_then (rd mid) (\<lambda>(cell_key, _).
          if cell_key < key then lower_bound_loop rd key (mid + 1) high else lower_bound_loop rd key low mid)
      else Inr low)"
  by pat_completeness auto
termination
  by (relation "measure (\<lambda>(_, _, low, high). high - low)") auto

declare lower_bound_loop.simps [simp del]

definition insert_into_interior :: "bytes \<Rightarrow> u32 \<Rightarrow> u32 \<Rightarrow> bytes \<Rightarrow> btree_error + bytes" where
  "insert_into_interior key left right page =
     (let count = page_cell_count page in
      and_then (lower_bound_loop (read_interior_cell page) key 0 count) (\<lambda>insert_pos.
      and_then
        (if insert_pos < count then
           and_then (interior_read_slot page insert_pos) (\<lambda>old_offset.
             let key_len = unat (u16_of_le (window old_offset 2 page)) in
             Inr (overwrite (old_offset + 2 + key_len) (u32_le right) page))
         else Inr (set_paged_page_right_child right page)) (\<lambda>page1.
        let cell_size = 2 + length key + 4; start = cells_start page1 in
        if interior_data_offset + (count + 1) * 2 + cell_size > start then Inl (BCorrupted ''interior page full'')
        else
          let off = start - cell_size;
              page2 = set_paged_page_free_end (word_of_nat off) (write_interior_cell off key left page1);
              from_pos = interior_data_offset + insert_pos * 2;
              page3 = copy_within from_pos ((count - insert_pos) * 2) (from_pos + 2) page2 in
          and_then (interior_write_slot insert_pos (word_of_nat off) page3) (\<lambda>page4.
            Inr (set_paged_page_free_start (word_of_nat (interior_data_offset + (count + 1) * 2))
              (set_paged_page_cell_count (word_of_nat (count + 1)) page4))))))"

subsection \<open>Slots and cells\<close>

text \<open>\<open>lay base fe ocs page\<close>: from \<open>base\<close> the page has one slot for each pair of an offset and a cell in \<open>ocs\<close>, and the cells stand
  at their offsets, at or above \<open>fe\<close>, without overlap.\<close>

definition apart :: "nat \<times> bytes \<Rightarrow> nat \<times> bytes \<Rightarrow> bool" where
  "apart x y \<longleftrightarrow> fst x + length (snd x) \<le> fst y \<or> fst y + length (snd y) \<le> fst x"

definition cell_at :: "nat \<Rightarrow> bytes \<Rightarrow> nat \<times> bytes \<Rightarrow> bool" where
  "cell_at fe page x \<longleftrightarrow> fe \<le> fst x \<and> fst x + length (snd x) \<le> paged_page_size \<and> window (fst x) (length (snd x)) page = snd x"

definition slots_of :: "nat list \<Rightarrow> bytes" where
  "slots_of offs = concat (map (\<lambda>off. u16_le (word_of_nat off)) offs)"

definition lay :: "nat \<Rightarrow> nat \<Rightarrow> (nat \<times> bytes) list \<Rightarrow> bytes \<Rightarrow> bool" where
  "lay base fe ocs page \<longleftrightarrow>
     length page = paged_page_size \<and> 32 \<le> base \<and> base + 2 * length ocs \<le> fe \<and> fe \<le> paged_page_size \<and>
     window base (2 * length ocs) page = slots_of (map fst ocs) \<and> (\<forall>x \<in> set ocs. cell_at fe page x) \<and> sorted_wrt apart ocs"

lemma length_slots_of [simp]: "length (slots_of offs) = 2 * length offs"
  by (induction offs) (simp_all add: slots_of_def)

lemma slots_of_simps [simp]: "slots_of [] = []" "slots_of (x # xs) = u16_le (word_of_nat x) @ slots_of xs" "slots_of (xs @ ys) = slots_of xs @ slots_of ys"
  by (simp_all add: slots_of_def)

lemma window_slot: "j < length offs \<Longrightarrow> window (2 * j) 2 (slots_of offs) = u16_le (word_of_nat (offs ! j))"
proof -
  assume "j < length offs"
  then have "slots_of offs = slots_of (take j offs) @ u16_le (word_of_nat (offs ! j)) @ slots_of (drop (Suc j) offs)"
    by (metis id_take_nth_drop slots_of_simps(2,3) append_assoc append_Cons)
  with \<open>j < length offs\<close> show ?thesis by (simp add: window_skip)
qed

lemma lay_slot:
  assumes "lay base fe ocs page" and "j < length ocs"
  shows "window (base + 2 * j) 2 page = u16_le (word_of_nat (fst (ocs ! j)))" and "cell_at fe page (ocs ! j)"
    and "base + 2 * j + 2 \<le> paged_page_size"
proof -
  have "window (base + 2 * j) 2 page = window (2 * j) 2 (window base (2 * length ocs) page)"
    using assms(2) by (simp add: window_window)
  also have "\<dots> = window (2 * j) 2 (slots_of (map fst ocs))" using assms(1) by (simp add: lay_def)
  also have "\<dots> = u16_le (word_of_nat (fst (ocs ! j)))" using window_slot [of j "map fst ocs"] assms(2) by simp
  finally show "window (base + 2 * j) 2 page = u16_le (word_of_nat (fst (ocs ! j)))" .
qed (use assms in \<open>auto simp: lay_def\<close>)

lemma cell_at_overwrite:
  assumes "cell_at fe page x" and "length page = paged_page_size" and "off + length bs \<le> fst x \<or> fst x + length (snd x) \<le> off" and "off + length bs \<le> paged_page_size"
  shows "cell_at fe (overwrite off bs page) x"
  using assms by (auto simp: cell_at_def)

lemma lay_below:
  assumes "lay base fe ocs page" and "off + length bs \<le> base"
  shows "lay base fe ocs (overwrite off bs page)"
  using assms by (auto simp: lay_def intro!: cell_at_overwrite) (auto simp: cell_at_def)

lemma lay_write:
  assumes "lay base fe ocs page" and "base + 2 * length ocs + length c \<le> fe"
  shows "lay base (fe - length c) ocs (overwrite (fe - length c) c page)"
    and "cell_at (fe - length c) (overwrite (fe - length c) c page) (fe - length c, c)" and "\<forall>x \<in> set ocs. apart (fe - length c, c) x"
proof -
  have "window base (2 * length ocs) (overwrite (fe - length c) c page) = window base (2 * length ocs) page"
    using assms by (intro window_overwrite_disjoint) (auto simp: lay_def)
  moreover have "cell_at (fe - length c) (overwrite (fe - length c) c page) x" if "x \<in> set ocs" for x
    using assms that by (intro cell_at_overwrite) (auto simp: lay_def cell_at_def)
  ultimately show "lay base (fe - length c) ocs (overwrite (fe - length c) c page)" using assms by (auto simp: lay_def)
qed (use assms in \<open>auto simp: lay_def cell_at_def apart_def\<close>)

lemma window_append: "window off (m + n) xs = window off m xs @ window (off + m) n xs"
  by (simp add: window_def take_add add.commute)

lemma window_overwrite_inner:
  assumes "off \<le> off'" and "off' + length bs \<le> off + n" and "off + n \<le> length xs"
  shows "window off n (overwrite off' bs xs) = overwrite (off' - off) bs (window off n xs)"
proof (intro nth_equalityI)
  show "length (window off n (overwrite off' bs xs)) = length (overwrite (off' - off) bs (window off n xs))"
    using assms by simp
  fix i assume "i < length (window off n (overwrite off' bs xs))"
  then show "window off n (overwrite off' bs xs) ! i = overwrite (off' - off) bs (window off n xs) ! i"
    using assms by (auto simp: nth_window nth_overwrite add.commute)
qed

text \<open>Inserting a slot: the tail of the array moves up by one slot.\<close>

lemma slot_insert_bytes:
  assumes "length page = paged_page_size" and "base + 2 * length offs + 2 \<le> paged_page_size" and "p \<le> length offs"
    and "window base (2 * length offs) page = slots_of offs"
  shows "window base (2 * length offs + 2) (overwrite (base + 2 * p) (u16_le w) (copy_within (base + 2 * p) (2 * (length offs - p)) (base + 2 * p + 2) page)) =
    slots_of (take p offs) @ u16_le w @ slots_of (drop p offs)"
proof -
  let ?n = "length offs"
  have split: "slots_of offs = slots_of (take p offs) @ slots_of (drop p offs)" by (metis append_take_drop_id slots_of_simps(3))
  have tail: "window (base + 2 * p) (2 * (?n - p)) page = slots_of (drop p offs)"
  proof -
    have "window (base + 2 * p) (2 * (?n - p)) page = window (2 * p) (2 * (?n - p)) (window base (2 * ?n) page)"
      using assms(3) by (simp add: window_window algebra_simps)
    also have "\<dots> = slots_of (drop p offs)" using assms(3,4) split by (simp add: window_skip)
    finally show ?thesis .
  qed
  have front: "window base (2 * p) page = slots_of (take p offs)"
  proof -
    have "window base (2 * p) page = window 0 (2 * p) (window base (2 * ?n) page)" using assms(3) by (simp add: window_window)
    also have "\<dots> = slots_of (take p offs)" using assms(3,4) split by simp
    finally show ?thesis .
  qed
  let ?page1 = "copy_within (base + 2 * p) (2 * (?n - p)) (base + 2 * p + 2) page"
  let ?page2 = "overwrite (base + 2 * p) (u16_le w) ?page1"
  have len1: "length ?page1 = paged_page_size" using assms by (simp add: copy_within_def tail)
  have "2 * ?n + 2 = 2 * p + (2 + 2 * (?n - p))" using assms(3) by simp
  then have "window base (2 * ?n + 2) ?page2 = window base (2 * p) ?page2 @ window (base + 2 * p) 2 ?page2 @ window (base + 2 * p + 2) (2 * (?n - p)) ?page2"
    by (simp only: window_append add.assoc)
  moreover have "window base (2 * p) ?page2 = slots_of (take p offs)"
    using assms len1 front by (simp add: copy_within_def tail)
  moreover have "window (base + 2 * p) 2 ?page2 = u16_le w" using assms len1 by simp
  moreover have "window (base + 2 * p + 2) (2 * (?n - p)) ?page2 = slots_of (drop p offs)"
    using assms len1 by (simp add: copy_within_def tail)
  ultimately show ?thesis by simp
qed

lemma sorted_wrt_insert:
  assumes "sorted_wrt R (xs @ ys)" and "\<forall>y \<in> set (xs @ ys). R x y \<and> R y x"
  shows "sorted_wrt R (xs @ x # ys)"
  using assms by (auto simp: sorted_wrt_append)

lemma apart_sym: "apart x y = apart y x"
  by (auto simp: apart_def)

lemma lay_insert:
  assumes lay: "lay base fe ocs page" and c: "cell_at fe page (fe, c)" and apart: "\<forall>x \<in> set ocs. apart (fe, c) x"
    and p: "p \<le> length ocs" and room: "base + 2 * length ocs + 2 \<le> fe"
  shows "lay base fe (take p ocs @ (fe, c) # drop p ocs)
    (overwrite (base + 2 * p) (u16_le (word_of_nat fe)) (copy_within (base + 2 * p) (2 * (length ocs - p)) (base + 2 * p + 2) page))"
    (is "lay base fe ?ocs ?page")
proof -
  have len: "length page = paged_page_size" "fe \<le> paged_page_size" using lay by (auto simp: lay_def)
  have fits: "base + 2 * length ocs + 2 \<le> paged_page_size" using room len by linarith
  have slots: "window base (2 * length ?ocs) ?page = slots_of (map fst ?ocs)"
    using slot_insert_bytes [of page base "map fst ocs" p "word_of_nat fe"] lay len p fits
    by (simp add: lay_def take_map drop_map add.commute)
  have inner: "length (window (base + 2 * p) (2 * (length ocs - p)) page) = 2 * (length ocs - p)" using len p fits by simp
  then have len': "length ?page = paged_page_size" using len p fits by (simp add: copy_within_def)
  have cells: "cell_at fe ?page x" if "cell_at fe page x" for x
  proof -
    have "cell_at fe (copy_within (base + 2 * p) (2 * (length ocs - p)) (base + 2 * p + 2) page) x"
      unfolding copy_within_def using that len p room inner by (intro cell_at_overwrite) (auto simp: cell_at_def)
    then show ?thesis using len p room inner by (intro cell_at_overwrite) (auto simp: cell_at_def copy_within_def)
  qed
  have "sorted_wrt apart ?ocs" using lay apart p by (intro sorted_wrt_insert) (auto simp: lay_def apart_sym dest: in_set_takeD in_set_dropD)
  moreover have "\<forall>x \<in> set ?ocs. cell_at fe page x" using lay c by (auto simp: lay_def dest: in_set_takeD in_set_dropD)
  ultimately show ?thesis using lay slots cells len len' p room by (auto simp: lay_def)
qed

lemma lay_remove:
  assumes lay: "lay base fe ocs page" and j: "j < length ocs"
  shows "lay base fe (take j ocs @ drop (Suc j) ocs) (copy_within (base + 2 * j + 2) (2 * (length ocs - j - 1)) (base + 2 * j) page)"
    (is "lay base fe ?ocs ?page")
proof -
  let ?n = "length ocs" and ?offs = "map fst ocs"
  have len: "length page = paged_page_size" "base + 2 * ?n \<le> fe" "fe \<le> paged_page_size" "window base (2 * ?n) page = slots_of ?offs"
    using lay by (auto simp: lay_def)
  have split: "slots_of ?offs = slots_of (take j ?offs) @ u16_le (word_of_nat (?offs ! j)) @ slots_of (drop (Suc j) ?offs)"
    using j by (metis id_take_nth_drop slots_of_simps(2,3) length_map append_assoc append_Cons)
  have tail: "window (base + 2 * j + 2) (2 * (?n - j - 1)) page = slots_of (drop (Suc j) ?offs)"
  proof -
    have "window (base + 2 * j + 2) (2 * (?n - j - 1)) page = window (2 * j + 2) (2 * (?n - j - 1)) (window base (2 * ?n) page)"
      using j by (simp add: window_window algebra_simps)
    also have "\<dots> = slots_of (drop (Suc j) ?offs)" unfolding len(4) split using j by (simp add: window_skip)
    finally show ?thesis .
  qed
  have front: "window base (2 * j) page = slots_of (take j ?offs)"
  proof -
    have "window base (2 * j) page = window 0 (2 * j) (window base (2 * ?n) page)" using j by (simp add: window_window)
    also have "\<dots> = slots_of (take j ?offs)" unfolding len(4) split using j by simp
    finally show ?thesis .
  qed
  have len': "length ?page = paged_page_size" using len j by (simp add: copy_within_def tail)
  have "2 * length ?ocs = 2 * j + 2 * (?n - j - 1)" using j by simp
  then have "window base (2 * length ?ocs) ?page = window base (2 * j) ?page @ window (base + 2 * j) (2 * (?n - j - 1)) ?page"
    by (simp only: window_append)
  also have "\<dots> = slots_of (map fst ?ocs)" using len j front tail by (simp add: copy_within_def take_map drop_map)
  finally have slots: "window base (2 * length ?ocs) ?page = slots_of (map fst ?ocs)" .
  have "cell_at fe ?page x" if "x \<in> set ocs" for x
    unfolding copy_within_def using that lay len j by (intro cell_at_overwrite) (auto simp: lay_def cell_at_def tail)
  moreover have "sorted_wrt apart ?ocs"
    using lay j id_take_nth_drop [OF j] unfolding lay_def by (metis (no_types, lifting) list.set_intros(2) sorted_wrt.simps(2) sorted_wrt_append)
  ultimately show ?thesis using lay slots len len' j by (auto simp: lay_def dest: in_set_takeD in_set_dropD)
qed

text \<open>Changing the bytes of one cell in place, and shortening it.\<close>

lemma apart_update:
  assumes "sorted_wrt apart (xs @ x # ys)" and "fst x = fst x'" and "length (snd x') \<le> length (snd x)"
  shows "sorted_wrt apart (xs @ x' # ys)"
  using assms by (fastforce simp: sorted_wrt_append apart_def)

lemma lay_change:
  assumes lay: "lay base fe ocs page" and ocs: "ocs = xs @ (off, c) # ys"
    and d: "d + length bs \<le> length c" and short: "n \<le> length c"
  shows "lay base fe (xs @ (off, take n (overwrite d bs c)) # ys) (overwrite (off + d) bs page)"
proof -
  let ?c = "take n (overwrite d bs c)" and ?page = "overwrite (off + d) bs page"
  have len: "length page = paged_page_size" and fe: "base + 2 * length ocs \<le> fe" and at: "cell_at fe page (off, c)"
    and others: "\<forall>x \<in> set (xs @ ys). cell_at fe page x" and sorted: "sorted_wrt apart (xs @ (off, c) # ys)"
    and slots: "window base (2 * length ocs) page = slots_of (map fst ocs)"
    using lay by (auto simp: lay_def ocs)
  have off: "fe \<le> off" "off + length c \<le> paged_page_size" "window off (length c) page = c" using at by (auto simp: cell_at_def)
  have len': "length ?page = paged_page_size" using len off d by simp
  have slots': "window base (2 * length ocs) ?page = slots_of (map fst ocs)"
    unfolding slots [symmetric] using len off d fe by (intro window_overwrite_disjoint) auto
  have others': "cell_at fe ?page x" if x: "x \<in> set (xs @ ys)" for x
  proof (rule cell_at_overwrite)
    show "cell_at fe page x" using others x by blast
    have "apart x (off, c)" using sorted x by (auto simp: sorted_wrt_append apart_sym)
    then show "off + d + length bs \<le> fst x \<or> fst x + length (snd x) \<le> off + d" using d by (auto simp: apart_def)
  qed (use len off d in auto)
  have "window off (length c) ?page = overwrite d bs c"
    using off d len by (subst window_overwrite_inner) auto
  then have "window off n ?page = ?c" using short by (metis window_def take_take min.absorb1)
  then have at': "cell_at fe ?page (off, ?c)" using off d short by (simp add: cell_at_def)
  have "sorted_wrt apart (xs @ (off, ?c) # ys)" by (rule apart_update [OF sorted]) (use d short in auto)
  then show ?thesis using lay len' slots' others' at' unfolding lay_def ocs by simp
qed

subsection \<open>What a leaf holds\<close>

definition leaf_cell :: "bytes \<times> bytes \<Rightarrow> bytes" where
  "leaf_cell e = u16_le (word_of_nat (length (fst e))) @ u16_le (word_of_nat (length (snd e))) @ fst e @ snd e"

definition leaf_head :: "u32 \<Rightarrow> u32 \<Rightarrow> u32 \<Rightarrow> bytes \<Rightarrow> bool" where
  "leaf_head i prev nxt page \<longleftrightarrow> paged_page_type page = 1 \<and> paged_page_id page = i \<and> window 32 4 page = u32_le prev \<and> window 36 4 page = u32_le nxt"

abbreviation page_fe :: "bytes \<Rightarrow> nat" where
  "page_fe page \<equiv> unat (paged_page_free_end page)"

text \<open>\<open>slotted base cs page\<close>: the page's slots, in order, lead to the cells \<open>cs\<close>, and the cells and what is free below them fit the page.\<close>

definition slotted :: "nat \<Rightarrow> bytes list \<Rightarrow> bytes \<Rightarrow> bool" where
  "slotted base cs page \<longleftrightarrow> page_cell_count page = length cs \<and> (\<exists>ocs. lay base (page_fe page) ocs page \<and> map snd ocs = cs) \<and>
     page_fe page + sum_list (map length cs) \<le> paged_page_size"

definition leaf_page :: "u32 \<Rightarrow> u32 \<Rightarrow> u32 \<Rightarrow> (bytes \<times> bytes) list \<Rightarrow> bytes \<Rightarrow> bool" where
  "leaf_page i prev nxt es page \<longleftrightarrow> leaf_head i prev nxt page \<and> slotted 40 (map leaf_cell es) page"

lemma length_leaf_cell [simp]: "length (leaf_cell e) = 4 + length (fst e) + length (snd e)"
  by (simp add: leaf_cell_def)

lemma cell_part: "cell_at fe page (off, c) \<Longrightarrow> a + m \<le> length c \<Longrightarrow> window (off + a) m page = window a m c"
  by (metis cell_at_def fst_conv snd_conv window_window)

lemma leaf_cell_parts:
  assumes "length (leaf_cell (k, v)) \<le> paged_page_size"
  shows "unat (u16_of_le (window 0 2 (leaf_cell (k, v)))) = length k" "unat (u16_of_le (window 2 2 (leaf_cell (k, v)))) = length v"
    "window 4 (length k) (leaf_cell (k, v)) = k" "window (4 + length k) (length v) (leaf_cell (k, v)) = v"
  using assms by (simp_all add: leaf_cell_def window_skip page_sizes)

lemma read_leaf_cell_lay:
  assumes lay: "lay 40 fe ocs page" and cells: "map snd ocs = map leaf_cell es" and count: "page_cell_count page = length es" and j: "j < length es"
  shows "read_leaf_cell page j = Inr (es ! j)"
proof -
  obtain k v where e: "es ! j = (k, v)" by (cases "es ! j")
  have n: "length ocs = length es" using cells by (metis length_map)
  obtain off where off: "ocs ! j = (off, leaf_cell (k, v))"
    using cells j n e by (metis nth_map prod.collapse)
  have at: "cell_at fe page (off, leaf_cell (k, v))" and slot: "window (40 + 2 * j) 2 page = u16_le (word_of_nat off)"
    and pos: "40 + 2 * j + 2 \<le> paged_page_size" using lay_slot [OF lay, of j] j n off by auto
  have bound: "off + (4 + length k + length v) \<le> paged_page_size" using at by (simp add: cell_at_def)
  then have "unat (word_of_nat off :: u16) = off" by (simp add: page_sizes)
  moreover have "window off 2 page = window 0 2 (leaf_cell (k, v))" "window (off + 2) 2 page = window 2 2 (leaf_cell (k, v))"
    "window (off + 4) (length k) page = k" "window (off + 4 + length k) (length v) page = v"
    using cell_part [OF at, of 0 2] cell_part [OF at, of 2 2] cell_part [OF at, of 4 "length k"] cell_part [OF at, of "4 + length k" "length v"]
      leaf_cell_parts [of k v] bound by (simp_all add: add.assoc)
  ultimately show ?thesis using slot pos bound j count e leaf_cell_parts [of k v]
    by (simp add: read_leaf_cell_def leaf_read_slot_def Let_def mult.commute)
qed

lemma read_leaf_cell_page: "leaf_page i prev nxt es page \<Longrightarrow> j < length es \<Longrightarrow> read_leaf_cell page j = Inr (es ! j)"
  by (auto simp: leaf_page_def slotted_def intro: read_leaf_cell_lay)

lemma read_all_ok: "(\<And>j. j \<in> set is \<Longrightarrow> rd j = Inr (f j)) \<Longrightarrow> read_all rd is = Inr (map f is)"
  by (induction "is") auto

lemma leaf_page_count: "leaf_page i prev nxt es page \<Longrightarrow> page_cell_count page = length es"
  by (simp add: leaf_page_def slotted_def)

lemma leaf_page_length: "leaf_page i prev nxt es page \<Longrightarrow> length page = paged_page_size"
  by (auto simp: leaf_page_def slotted_def lay_def)

lemma read_leaf_entries_page:
  assumes "leaf_page i prev nxt es page"
  shows "read_leaf_entries page = Inr es"
  using read_all_ok [of "[0..<length es]" "read_leaf_cell page" "nth es"] read_leaf_cell_page [OF assms] leaf_page_count [OF assms]
  by (simp add: read_leaf_entries_def map_nth)

lemma leaf_high_key_page:
  assumes "leaf_page i prev nxt es page"
  shows "leaf_high_key page = Inr (if es = [] then None else Some (fst (last es)))"
  using read_leaf_cell_page [OF assms, of "length es - 1"] leaf_page_count [OF assms]
  by (auto simp: leaf_high_key_def Let_def last_conv_nth case_prod_unfold)

lemma leaf_page_links: "leaf_page i prev nxt es page \<Longrightarrow> read_next_leaf page = nxt" "leaf_page i prev nxt es page \<Longrightarrow> paged_page_id page = i"
  "leaf_page i prev nxt es page \<Longrightarrow> page_get_type page = Inr BTreeLeaf"
  by (auto simp: leaf_page_def leaf_head_def read_next_leaf_def page_get_type_def page_type_from_u8_def)

subsection \<open>Searching\<close>

text \<open>\<open>rank key es\<close>: how many entries of an ordered list are below the key.\<close>

definition rank :: "bytes \<Rightarrow> (bytes \<times> 'v) list \<Rightarrow> nat" where
  "rank key es = length (takeWhile (\<lambda>e. fst e < key) es)"

abbreviation ordered :: "(bytes \<times> 'v) list \<Rightarrow> bool" where
  "ordered es \<equiv> sorted_wrt (<) (map fst es)"

definition position :: "bytes \<Rightarrow> (bytes \<times> 'v) list \<Rightarrow> search_result" where
  "position key es = (let p = rank key es in if p < length es \<and> fst (es ! p) = key then Found p else NotFound p)"

lemma rank_le [simp]: "rank key es \<le> length es"
  by (simp add: rank_def length_takeWhile_le)

lemma rank_less:
  assumes "ordered es" and "j < length es"
  shows "j < rank key es \<longleftrightarrow> fst (es ! j) < key"
proof
  assume "j < rank key es"
  then show "fst (es ! j) < key" unfolding rank_def by (metis nth_mem set_takeWhileD takeWhile_nth)
next
  assume less: "fst (es ! j) < key"
  show "j < rank key es"
  proof (rule ccontr)
    assume "\<not> j < rank key es"
    then have le: "rank key es \<le> j" by simp
    then have "\<not> fst (es ! rank key es) < key" using assms(2) unfolding rank_def by (intro nth_length_takeWhile) simp
    moreover have "fst (es ! rank key es) \<le> fst (es ! j)"
      using assms le sorted_wrt_nth_less [of "(<)" "map fst es" "rank key es" j] by (cases "rank key es = j") auto
    ultimately show False using less by simp
  qed
qed

lemma rank_at: "ordered es \<Longrightarrow> j < length es \<Longrightarrow> fst (es ! j) = key \<Longrightarrow> rank key es = j"
proof -
  assume s: "ordered es" and j: "j < length es" and key: "fst (es ! j) = key"
  have "\<not> j < rank key es" using rank_less [OF s j, of key] key by simp
  moreover have "\<not> rank key es < j"
  proof
    assume "rank key es < j"
    then have "fst (es ! rank key es) < fst (es ! j)" using s j sorted_wrt_nth_less [of "(<)" "map fst es" "rank key es" j] by simp
    then show False using rank_less [OF s, of "rank key es" key] j key \<open>rank key es < j\<close> by simp
  qed
  ultimately show ?thesis by simp
qed

lemma tree_search_loop:
  assumes rd: "\<And>j. j < length es \<Longrightarrow> rd j = Inr (es ! j)" and s: "ordered es"
  shows "low \<le> rank key es \<Longrightarrow> rank key es \<le> high \<Longrightarrow> high \<le> length es \<Longrightarrow>
    (rank key es = high \<longrightarrow> \<not> (high < length es \<and> fst (es ! high) = key)) \<Longrightarrow> tree_search rd key low high = Inr (position key es)"
proof (induction "high - low" arbitrary: low high rule: less_induct)
  case less
  show ?case
  proof (cases "low < high")
    case False
    then have "low = rank key es" "high = rank key es" using less.prems by simp_all
    then show ?thesis using less.prems(4) by (subst tree_search.simps) (auto simp: position_def Let_def)
  next
    case True
    let ?mid = "(low + high) div 2"
    have mid: "?mid < length es" "low \<le> ?mid" "?mid < high" using True less.prems by linarith+
    obtain k v where e: "es ! ?mid = (k, v)" by (cases "es ! ?mid")
    consider "k < key" | "key < k" | "k = key" by fastforce
    then show ?thesis
    proof cases
      case 1
      then have "?mid < rank key es" using rank_less [OF s mid(1), of key] e by simp
      then have "tree_search rd key (?mid + 1) high = Inr (position key es)" using less.prems mid by (intro less.hyps) auto
      with 1 show ?thesis using True rd [OF mid(1)] e by (subst tree_search.simps) (simp add: Let_def)
    next
      case 2
      then have "rank key es \<le> ?mid" using rank_less [OF s mid(1), of key] e by (metis fst_conv leI less_asym)
      then have "tree_search rd key low ?mid = Inr (position key es)" using less.prems mid 2 e by (intro less.hyps) auto
      with 2 less_not_sym [OF 2] show ?thesis using True rd [OF mid(1)] e by (subst tree_search.simps) (simp add: Let_def)
    next
      case 3
      then have "rank key es = ?mid" using rank_at [OF s mid(1), of key] e by simp
      with 3 show ?thesis using True rd [OF mid(1)] e mid(1) by (subst tree_search.simps) (simp add: position_def Let_def)
    qed
  qed
qed

lemma tree_search_position:
  assumes "\<And>j. j < length es \<Longrightarrow> rd j = Inr (es ! j)" and "ordered es"
  shows "tree_search rd key 0 (length es) = Inr (position key es)"
  by (rule tree_search_loop [OF assms]) simp_all

lemma search_leaf_page:
  assumes "leaf_page i prev nxt es page" and "ordered es"
  shows "search_leaf page key = Inr (position key es)"
  using tree_search_position [OF read_leaf_cell_page [OF assms(1)] assms(2)] leaf_page_count [OF assms(1)] by (simp add: search_leaf_def)

lemma lower_bound:
  assumes rd: "\<And>j. j < length es \<Longrightarrow> rd j = Inr (es ! j)" and s: "ordered es"
  shows "low \<le> rank key es \<Longrightarrow> rank key es \<le> high \<Longrightarrow> high \<le> length es \<Longrightarrow> lower_bound_loop rd key low high = Inr (rank key es)"
proof (induction "high - low" arbitrary: low high rule: less_induct)
  case less
  show ?case
  proof (cases "low < high")
    case False
    then show ?thesis using less.prems by (subst lower_bound_loop.simps) auto
  next
    case True
    let ?mid = "(low + high) div 2"
    have mid: "?mid < length es" "low \<le> ?mid" "?mid < high" using True less.prems by linarith+
    have "?mid < rank key es \<longleftrightarrow> fst (es ! ?mid) < key" by (rule rank_less [OF s mid(1)])
    then have "(if fst (es ! ?mid) < key then lower_bound_loop rd key (?mid + 1) high else lower_bound_loop rd key low ?mid) = Inr (rank key es)"
      using less.hyps [of high "?mid + 1"] less.hyps [of ?mid low] less.prems mid by auto
    then show ?thesis using True rd [OF mid(1)] by (subst lower_bound_loop.simps) (simp add: Let_def case_prod_unfold)
  qed
qed

subsection \<open>Changing a leaf\<close>

lemma write_leaf_cell_bytes:
  assumes "off + length (leaf_cell (k, v)) \<le> length page"
  shows "write_leaf_cell off k v page = overwrite off (leaf_cell (k, v)) page"
proof -
  let ?a = "u16_le (word_of_nat (length k))" and ?b = "u16_le (word_of_nat (length v))"
  have "overwrite (off + 2) ?b (overwrite off ?a page) = overwrite off (?a @ ?b) page"
    using overwrite_merge [of off ?a ?b page] assms by simp
  moreover have "overwrite (off + 4) k (overwrite off (?a @ ?b) page) = overwrite off (?a @ ?b @ k) page"
    using overwrite_merge [of off "?a @ ?b" k page] assms by simp
  moreover have "overwrite (off + 4 + length k) v (overwrite off (?a @ ?b @ k) page) = overwrite off (leaf_cell (k, v)) page"
    using overwrite_merge [of off "?a @ ?b @ k" v page] assms by (simp add: leaf_cell_def eval_nat_numeral)
  ultimately show ?thesis by (simp add: write_leaf_cell_def)
qed

lemma window_inside:
  assumes "window a m xs = window a m ys" and "a \<le> b" and "b + n \<le> a + m"
  shows "window b n xs = window b n ys"
proof -
  have "window b n zs = window (b - a) n (window a m zs)" for zs :: bytes using assms(2,3) by (simp add: window_window)
  then show ?thesis using assms(1) by simp
qed

lemma header_same:
  assumes "length page = paged_page_size" and "length page' = paged_page_size" and "window 0 2 page' = window 0 2 page" and "window 8 24 page' = window 8 24 page"
  shows "paged_page_type page' = paged_page_type page" "paged_page_id page' = paged_page_id page"
proof -
  have "window 0 2 page' ! 0 = window 0 2 page ! 0" using assms(3) by simp
  then show "paged_page_type page' = paged_page_type page" using assms(1,2) by (simp add: paged_page_type_def nth_window page_sizes)
  show "paged_page_id page' = paged_page_id page" using window_inside [OF assms(4), of 8 4] by (simp add: paged_page_id_def)
qed

lemma leaf_head_same:
  assumes "length page = paged_page_size" and "length page' = paged_page_size" and "window 0 2 page' = window 0 2 page" and "window 8 32 page' = window 8 32 page"
  shows "leaf_head i prev nxt page' = leaf_head i prev nxt page"
  using header_same [OF assms(1-3)] window_inside [OF assms(4), of 8 24] window_inside [OF assms(4), of 32 4] window_inside [OF assms(4), of 36 4]
  by (simp add: leaf_head_def)

lemma header_fields [simp]:
  assumes "length page = paged_page_size"
  shows "paged_page_free_end (set_paged_page_free_end w page) = w" "paged_page_free_end (set_paged_page_free_start w page) = paged_page_free_end page"
    "paged_page_free_end (set_paged_page_cell_count w page) = paged_page_free_end page" "paged_page_cell_count (set_paged_page_cell_count w page) = w"
    "paged_page_cell_count (set_paged_page_free_start w page) = paged_page_cell_count page" "paged_page_cell_count (set_paged_page_free_end w page) = paged_page_cell_count page"
    "length (set_paged_page_free_end w page) = paged_page_size" "length (set_paged_page_free_start w page) = paged_page_size"
    "length (set_paged_page_cell_count w page) = paged_page_size"
  using assms by (simp_all add: paged_page_free_end_def set_paged_page_free_end_def set_paged_page_free_start_def set_paged_page_cell_count_def
      paged_page_cell_count_def page_sizes)

lemma lay_set [simp]:
  assumes "lay base fe ocs page"
  shows "lay base fe ocs (set_paged_page_free_end w page)" "lay base fe ocs (set_paged_page_free_start w page)"
    "lay base fe ocs (set_paged_page_cell_count w page)"
proof -
  have "32 \<le> base" using assms by (simp add: lay_def)
  then show "lay base fe ocs (set_paged_page_free_end w page)" "lay base fe ocs (set_paged_page_free_start w page)"
    "lay base fe ocs (set_paged_page_cell_count w page)"
    by (auto simp: set_paged_page_free_end_def set_paged_page_free_start_def set_paged_page_cell_count_def intro!: lay_below [OF assms])
qed

lemma window_set [simp]:
  assumes "length page = paged_page_size" and "off + n \<le> 2 \<or> 8 \<le> off" and "off + n \<le> paged_page_size"
  shows "window off n (set_paged_page_free_end w page) = window off n page" "window off n (set_paged_page_free_start w page) = window off n page"
    "window off n (set_paged_page_cell_count w page) = window off n page"
  using assms by (auto simp: set_paged_page_free_end_def set_paged_page_free_start_def set_paged_page_cell_count_def page_sizes)

lemma cells_start_lay: "lay base (page_fe page) ocs page \<Longrightarrow> cells_start page = page_fe page"
  by (auto simp: lay_def cells_start_def Let_def)

lemma cell_at_set:
  assumes "cell_at fe page x" and "length page = paged_page_size" and "32 \<le> fst x"
  shows "cell_at fe (set_paged_page_free_end w page) x"
  using assms by (auto simp: set_paged_page_free_end_def page_sizes intro!: cell_at_overwrite)

text \<open>Putting a cell below the others and its slot at a position of the array.\<close>

definition put_cell :: "nat \<Rightarrow> nat \<Rightarrow> nat \<Rightarrow> nat \<Rightarrow> bytes \<Rightarrow> bytes \<Rightarrow> bytes" where
  "put_cell base n p off c page =
     (let from_pos = base + p * 2 in
      overwrite from_pos (u16_le (word_of_nat off)) (copy_within from_pos ((n - p) * 2) (from_pos + 2)
        (set_paged_page_free_end (word_of_nat off) (overwrite off c page))))"

lemma put_cell_lay:
  assumes lay: "lay base fe ocs page" and room: "base + 2 * length ocs + 2 \<le> off" and off: "off + length c = fe" and p: "p \<le> length ocs"
  shows "lay base off (take p ocs @ (off, c) # drop p ocs) (put_cell base (length ocs) p off c page)"
    and "page_fe (put_cell base (length ocs) p off c page) = off"
    and "paged_page_cell_count (put_cell base (length ocs) p off c page) = paged_page_cell_count page"
    and "\<And>a n. a + n \<le> 2 \<or> 8 \<le> a \<Longrightarrow> a + n \<le> base \<Longrightarrow> window a n (put_cell base (length ocs) p off c page) = window a n page"
proof -
  let ?n = "length ocs"
  let ?page1 = "set_paged_page_free_end (word_of_nat off) (overwrite off c page)"
  have len: "length page = paged_page_size" "fe \<le> paged_page_size" "32 \<le> base" using lay by (auto simp: lay_def)
  have fits: "base + 2 * ?n + 2 \<le> off" "off + length c \<le> paged_page_size" "off < 65536" using room off len by (simp_all add: page_sizes)
  have diff: "fe - length c = off" using off by simp
  have w: "lay base off ocs (overwrite off c page)" "cell_at off (overwrite off c page) (off, c)" "\<forall>x \<in> set ocs. apart (off, c) x"
    using lay_write [OF lay, of c] room off diff by auto
  have len1: "length (overwrite off c page) = paged_page_size" using len fits by simp
  have lay1: "lay base off ocs ?page1" using w(1) by simp
  have at1: "cell_at off ?page1 (off, c)" using cell_at_set [OF w(2) len1] fits len by simp
  have put: "put_cell base ?n p off c page = overwrite (base + 2 * p) (u16_le (word_of_nat off)) (copy_within (base + 2 * p) (2 * (?n - p)) (base + 2 * p + 2) ?page1)"
    by (simp add: put_cell_def Let_def mult.commute)
  show "lay base off (take p ocs @ (off, c) # drop p ocs) (put_cell base ?n p off c page)"
    unfolding put by (rule lay_insert [OF lay1 at1 w(3) p fits(1)])
  have same: "window a n (put_cell base ?n p off c page) = window a n ?page1" if "a + n \<le> base" for a n
    unfolding put copy_within_def using that len1 fits p by simp
  have "window 6 2 (put_cell base ?n p off c page) = window 6 2 ?page1" by (rule same) (use len in simp)
  then have "paged_page_free_end (put_cell base ?n p off c page) = paged_page_free_end ?page1" by (simp add: paged_page_free_end_def)
  then show "page_fe (put_cell base ?n p off c page) = off" using len1 fits by simp
  have "window 2 2 (put_cell base ?n p off c page) = window 2 2 ?page1" by (rule same) (use len in simp)
  then show "paged_page_cell_count (put_cell base ?n p off c page) = paged_page_cell_count page"
    using len1 fits len by (simp add: paged_page_cell_count_def set_paged_page_free_end_def page_sizes)
  show "window a n (put_cell base ?n p off c page) = window a n page" if "a + n \<le> 2 \<or> 8 \<le> a" "a + n \<le> base" for a n
    using same [OF that(2)] that len len1 fits by (simp add: page_sizes)
qed

definition insert_at :: "nat \<Rightarrow> 'a \<Rightarrow> 'a list \<Rightarrow> 'a list" where
  "insert_at p x xs = take p xs @ x # drop p xs"

lemma length_insert_at [simp]: "length (insert_at p x xs) = Suc (length xs)"
  by (simp add: insert_at_def)

lemma map_insert_at: "map f (insert_at p x xs) = insert_at p (f x) (map f xs)"
  by (simp add: insert_at_def take_map drop_map)

lemma lay_length: "lay base fe ocs page \<Longrightarrow> length page = paged_page_size"
  by (simp add: lay_def)

lemma slotted_facts:
  assumes "slotted base cs page"
  shows "length page = paged_page_size" "base + 2 * length cs \<le> page_fe page" "page_fe page \<le> paged_page_size" "page_cell_count page = length cs"
    "cells_start page = page_fe page" "32 \<le> base"
  using assms by (auto simp: slotted_def lay_def intro: cells_start_lay)

lemma sum_insert_at: "sum_list (insert_at p x xs) = x + sum_list (xs :: nat list)"
  by (metis append_take_drop_id insert_at_def sum_list.Cons sum_list_append add.left_commute)

text \<open>The end of every insertion: the count and the end of the slot array go into the header.\<close>

definition set_counts :: "nat \<Rightarrow> nat \<Rightarrow> bytes \<Rightarrow> bytes" where
  "set_counts base n page = set_paged_page_free_start (word_of_nat (base + n * 2)) (set_paged_page_cell_count (word_of_nat n) page)"

definition same_head :: "nat \<Rightarrow> bytes \<Rightarrow> bytes \<Rightarrow> bool" where
  "same_head base page page' \<longleftrightarrow> (\<forall>a n. (a + n \<le> 2 \<or> 8 \<le> a) \<and> a + n \<le> base \<longrightarrow> window a n page' = window a n page)"

lemma set_counts_lay:
  assumes lay: "lay base (page_fe page) ocs page" and n: "n = length ocs" and sum: "page_fe page + sum_list (map (length \<circ> snd) ocs) \<le> paged_page_size"
  shows "slotted base (map snd ocs) (set_counts base n page)" "page_fe (set_counts base n page) = page_fe page" "same_head base page (set_counts base n page)"
proof -
  have len: "length page = paged_page_size" "base \<le> paged_page_size" "n < 65536" "32 \<le> base" using lay n by (auto simp: lay_def page_sizes)
  show fe: "page_fe (set_counts base n page) = page_fe page" using len by (simp add: set_counts_def)
  have "lay base (page_fe page) ocs (set_counts base n page)" using lay by (simp add: set_counts_def)
  then show "slotted base (map snd ocs) (set_counts base n page)"
    using len n sum fe unfolding slotted_def by (auto simp: set_counts_def o_def)
  show "same_head base page (set_counts base n page)" using len by (auto simp: same_head_def set_counts_def)
qed

lemma slotted_insert:
  assumes pg: "slotted base cs page" and p: "p \<le> length cs" and room: "base + 2 * length cs + 2 \<le> off" and off: "off + length c = page_fe page"
  defines "page' \<equiv> set_counts base (length cs + 1) (put_cell base (length cs) p off c page)"
  shows "slotted base (insert_at p c cs) page'" "page_fe page' = off" "same_head base page page'"
proof -
  let ?page1 = "put_cell base (length cs) p off c page"
  obtain ocs where lay: "lay base (page_fe page) ocs page" and cs: "map snd ocs = cs" and sum: "page_fe page + sum_list (map length cs) \<le> paged_page_size"
    using pg by (auto simp: slotted_def)
  have n: "length ocs = length cs" using cs by auto
  note put = put_cell_lay [OF lay room [folded n] off p [folded n], unfolded n]
  have cells: "map snd (insert_at p (off, c) ocs) = insert_at p c cs" using cs by (simp add: map_insert_at)
  have lay1: "lay base (page_fe ?page1) (insert_at p (off, c) ocs) ?page1" using put(1,2) by (simp add: insert_at_def)
  have "sum_list (map (length \<circ> snd) (insert_at p (off, c) ocs)) = length c + sum_list (map length cs)"
    using cs by (metis list.map_comp map_insert_at sum_insert_at comp_apply snd_conv)
  then have sum1: "page_fe ?page1 + sum_list (map (length \<circ> snd) (insert_at p (off, c) ocs)) \<le> paged_page_size" using sum off put(2) by simp
  have n1: "length cs + 1 = length (insert_at p (off, c) ocs)" using n by simp
  note fin = set_counts_lay [OF lay1 n1 sum1]
  show "slotted base (insert_at p c cs) page'" "page_fe page' = off" using fin(1,2) put(2) cells by (simp_all add: page'_def)
  show "same_head base page page'" using fin(3) put(4) unfolding page'_def same_head_def by auto
qed

definition insert_pos :: "bytes \<Rightarrow> (bytes \<times> 'v) list \<Rightarrow> nat" where
  "insert_pos key es = (case position key es of Found mid \<Rightarrow> mid + 1 | NotFound low \<Rightarrow> low)"

lemma insert_pos_le: "insert_pos key es \<le> length es"
  by (auto simp: insert_pos_def position_def Let_def)

lemma can_insert_leaf_page:
  assumes "leaf_page i prev nxt es page"
  shows "can_insert_leaf page k v \<longleftrightarrow> 40 + 2 * length es + 2 + length (leaf_cell (k, v)) \<le> page_fe page"
  using slotted_facts [of 40 "map leaf_cell es" page] assms by (auto simp: leaf_page_def can_insert_leaf_def leaf_free_bytes_def)

lemma leaf_page_from:
  assumes "leaf_page i prev nxt es page" and "slotted 40 (map leaf_cell es') page'" and "same_head 40 page page'"
  shows "leaf_page i prev nxt es' page'"
proof -
  have "leaf_head i prev nxt page' = leaf_head i prev nxt page"
    using assms slotted_facts(1) by (intro leaf_head_same) (auto simp: leaf_page_def same_head_def)
  then show ?thesis using assms by (simp add: leaf_page_def)
qed

lemma insert_into_leaf_page:
  assumes pg: "leaf_page i prev nxt es page" and ord: "ordered es" and fits: "can_insert_leaf page k v"
  shows "\<exists>page'. insert_into_leaf k v page = Inr page' \<and> leaf_page i prev nxt (insert_at (insert_pos k es) (k, v) es) page'"
proof -
  let ?fe = "page_fe page" and ?c = "leaf_cell (k, v)" and ?p = "insert_pos k es" and ?n = "length es"
  have sl: "slotted 40 (map leaf_cell es) page" using pg by (simp add: leaf_page_def)
  note facts = slotted_facts [OF sl, simplified]
  have room: "40 + 2 * ?n + 2 + length ?c \<le> ?fe" using fits can_insert_leaf_page [OF pg] by blast
  obtain off where off: "off + length ?c = ?fe" using room by (metis add_leE le_add_diff_inverse2)
  have start: "?fe - (4 + length k + length v) = off" using off by simp
  have p: "?p \<le> ?n" by (rule insert_pos_le)
  have room': "40 + 2 * length (map leaf_cell es) + 2 \<le> off" using room off by simp
  have "write_leaf_cell off k v page = overwrite off ?c page" using off facts by (intro write_leaf_cell_bytes) simp
  then have ins: "insert_into_leaf k v page = Inr (set_counts 40 (?n + 1) (put_cell 40 ?n ?p off ?c page))"
    using tree_search_position [OF read_leaf_cell_page [OF pg] ord] room p off start facts
    by (simp add: insert_into_leaf_def Let_def insert_pos_def [symmetric] leaf_write_slot_def put_cell_def set_counts_def)
  have "?p \<le> length (map leaf_cell es)" using p by simp
  note put = slotted_insert [OF sl this room' off, unfolded length_map]
  show ?thesis using ins leaf_page_from [OF pg] put(1,3) by (simp add: map_insert_at)
qed

definition remove_at :: "nat \<Rightarrow> 'a list \<Rightarrow> 'a list" where
  "remove_at j xs = take j xs @ drop (Suc j) xs"

lemma length_remove_at: "j < length xs \<Longrightarrow> length (remove_at j xs) = length xs - 1"
  by (simp add: remove_at_def)

lemma map_remove_at: "map f (remove_at j xs) = remove_at j (map f xs)"
  by (simp add: remove_at_def take_map drop_map)

lemma sum_remove_at: "sum_list (remove_at j xs) \<le> sum_list (xs :: nat list)"
  by (cases "j < length xs") (metis add.commute add.left_commute id_take_nth_drop le_add1 remove_at_def sum_list.Cons sum_list_append, simp add: remove_at_def)

lemma copy_within_head:
  assumes "length page = paged_page_size" and "base \<le> dst" and "dst + n \<le> paged_page_size" and "src + n \<le> paged_page_size"
  shows "same_head base page (copy_within src n dst page)" "32 \<le> base \<Longrightarrow> page_fe (copy_within src n dst page) = page_fe page"
  using assms by (auto simp: same_head_def copy_within_def paged_page_free_end_def)

lemma slotted_remove:
  assumes pg: "slotted base cs page" and j: "j < length cs"
  defines "page' \<equiv> set_counts base (length cs - 1) (copy_within (base + 2 * j + 2) (2 * (length cs - j - 1)) (base + 2 * j) page)"
  shows "slotted base (remove_at j cs) page'" "same_head base page page'"
proof -
  let ?page1 = "copy_within (base + 2 * j + 2) (2 * (length cs - j - 1)) (base + 2 * j) page"
  obtain ocs where lay: "lay base (page_fe page) ocs page" and cs: "map snd ocs = cs" and sum: "page_fe page + sum_list (map length cs) \<le> paged_page_size"
    using pg by (auto simp: slotted_def)
  have n: "length ocs = length cs" using cs by auto
  note facts = slotted_facts [OF pg]
  have head: "same_head base page ?page1" "page_fe ?page1 = page_fe page"
    using copy_within_head [of page base "base + 2 * j" "2 * (length cs - j - 1)" "base + 2 * j + 2"] facts j by auto
  have lay1: "lay base (page_fe ?page1) (remove_at j ocs) ?page1"
    using lay_remove [OF lay, of j] j n head(2) by (simp add: remove_at_def)
  have "sum_list (map (length \<circ> snd) (remove_at j ocs)) \<le> sum_list (map length cs)"
    using cs sum_remove_at [of j "map (length \<circ> snd) ocs"] by (auto simp: map_remove_at)
  then have sum1: "page_fe ?page1 + sum_list (map (length \<circ> snd) (remove_at j ocs)) \<le> paged_page_size" using sum head(2) by simp
  have n1: "length cs - 1 = length (remove_at j ocs)" using n j by (simp add: length_remove_at)
  note fin = set_counts_lay [OF lay1 n1 sum1]
  show "slotted base (remove_at j cs) page'" using fin(1) cs by (simp add: page'_def map_remove_at)
  show "same_head base page page'" using fin(3) head(1) unfolding page'_def same_head_def by auto
qed

lemma delete_from_leaf_page:
  assumes pg: "leaf_page i prev nxt es page" and j: "j < length es"
  shows "\<exists>page'. delete_from_leaf j page = Inr page' \<and> leaf_page i prev nxt (remove_at j es) page'"
proof -
  have sl: "slotted 40 (map leaf_cell es) page" using pg by (simp add: leaf_page_def)
  have j': "j < length (map leaf_cell es)" using j by simp
  have "copy_within src 0 dst page = page" for src dst by (simp add: copy_within_def window_def overwrite_def)
  then have "delete_from_leaf j page =
      Inr (set_counts 40 (length es - 1) (copy_within (40 + 2 * j + 2) (2 * (length es - j - 1)) (40 + 2 * j) page))"
    using j leaf_page_count [OF pg] by (auto simp: delete_from_leaf_def Let_def set_counts_def mult.commute not_less)
  then show ?thesis using slotted_remove [OF sl j'] leaf_page_from [OF pg, of "remove_at j es"] by (simp add: map_remove_at)
qed

definition slot_off :: "nat \<Rightarrow> nat \<Rightarrow> bytes \<Rightarrow> nat" where
  "slot_off base j page = unat (u16_of_le (window (base + 2 * j) 2 page))"

lemma lay_slot_off:
  assumes "lay base fe ocs page" and "j < length ocs"
  shows "ocs ! j = (slot_off base j page, snd (ocs ! j))" "cell_at fe page (ocs ! j)"
proof -
  show at: "cell_at fe page (ocs ! j)" using assms by (simp add: lay_def)
  then have "fst (ocs ! j) < 65536" by (simp add: cell_at_def page_sizes)
  then show "ocs ! j = (slot_off base j page, snd (ocs ! j))" using lay_slot [OF assms] by (simp add: slot_off_def prod_eq_iff)
qed

lemma slotted_cell:
  assumes "slotted base cs page" and "j < length cs"
  shows "page_fe page \<le> slot_off base j page" "slot_off base j page + length (cs ! j) \<le> paged_page_size"
    "window (slot_off base j page) (length (cs ! j)) page = cs ! j"
proof -
  obtain ocs where lay: "lay base (page_fe page) ocs page" and cs: "map snd ocs = cs" using assms by (auto simp: slotted_def)
  have j: "j < length ocs" and c: "snd (ocs ! j) = cs ! j" using cs assms(2) by auto
  have "cell_at (page_fe page) page (slot_off base j page, cs ! j)" using lay_slot_off [OF lay j] c by simp
  then show "page_fe page \<le> slot_off base j page" "slot_off base j page + length (cs ! j) \<le> paged_page_size"
    "window (slot_off base j page) (length (cs ! j)) page = cs ! j"
    by (simp_all add: cell_at_def)
qed

lemma sum_list_shrink: "j < length xs \<Longrightarrow> n \<le> xs ! j \<Longrightarrow> sum_list (xs[j := n]) \<le> sum_list (xs :: nat list)"
  by (simp add: sum_list_update)

lemma slotted_change:
  assumes pg: "slotted base cs page" and j: "j < length cs" and d: "d + length bs \<le> length (cs ! j)" and n: "n \<le> length (cs ! j)"
  defines "page' \<equiv> overwrite (slot_off base j page + d) bs page"
  shows "slotted base (cs[j := take n (overwrite d bs (cs ! j))]) page'" "same_head base page page'" "slot_off base j page' = slot_off base j page"
    "page_fe page' = page_fe page"
proof -
  let ?off = "slot_off base j page" and ?c = "take n (overwrite d bs (cs ! j))"
  obtain ocs where lay: "lay base (page_fe page) ocs page" and cs: "map snd ocs = cs" and sum: "page_fe page + sum_list (map length cs) \<le> paged_page_size"
    using pg by (auto simp: slotted_def)
  have j': "j < length ocs" and c: "snd (ocs ! j) = cs ! j" using cs j by auto
  note facts = slotted_facts [OF pg] and cell = slotted_cell [OF pg j]
  have below: "window a m page' = window a m page" if "a + m \<le> page_fe page" for a m
    using that cell d facts unfolding page'_def by simp
  have low: "base + 2 * j + 2 \<le> page_fe page" using facts j by linarith
  show fe: "page_fe page' = page_fe page" using below [of 6 2] facts by (simp add: paged_page_free_end_def)
  show "slot_off base j page' = ?off" using below [of "base + 2 * j" 2] low by (simp add: slot_off_def)
  show "same_head base page page'" using below facts unfolding same_head_def by auto
  have "ocs = take j ocs @ (?off, cs ! j) # drop (Suc j) ocs" using lay_slot_off(1) [OF lay j'] c by (metis id_take_nth_drop j')
  then have "lay base (page_fe page) (take j ocs @ (?off, ?c) # drop (Suc j) ocs) page'"
    unfolding page'_def by (rule lay_change [OF lay]) (use d n in auto)
  moreover have "take j ocs @ (?off, ?c) # drop (Suc j) ocs = ocs[j := (?off, ?c)]" using j' by (simp add: upd_conv_take_nth_drop)
  ultimately have "lay base (page_fe page) (ocs[j := (?off, ?c)]) page'" by simp
  moreover have "map snd (ocs[j := (?off, ?c)]) = cs[j := ?c]" using cs by (simp add: map_update)
  moreover have "sum_list (map length (cs[j := ?c])) \<le> sum_list (map length cs)"
    using j d n sum_list_shrink [of j "map length cs" "length ?c"] by (simp add: map_update)
  moreover have "page_cell_count page' = length cs" using below [of 2 2] facts by (simp add: paged_page_cell_count_def)
  ultimately show "slotted base (cs[j := ?c]) page'" using sum fe unfolding slotted_def by auto
qed

lemma overwrite_same: "window off (length bs) xs = bs \<Longrightarrow> overwrite off bs xs = xs"
  by (metis append_take_drop_id drop_drop overwrite_def window_def add.commute)

lemma overwrite_leaf_value_page:
  assumes pg: "leaf_page i prev nxt es page" and j: "j < length es" and e: "es ! j = (k, v)" and new: "length new \<le> length v"
  shows "\<exists>page'. overwrite_leaf_value j new page = Inr page' \<and> leaf_page i prev nxt (es[j := (k, new)]) page'"
proof -
  let ?cs = "map leaf_cell es" and ?off = "slot_off 40 j page" and ?n = "4 + length k + length new"
  let ?page1 = "overwrite (?off + 2) (u16_le (word_of_nat (length new))) page"
  have sl: "slotted 40 ?cs page" using pg by (simp add: leaf_page_def)
  have j': "j < length ?cs" and c: "?cs ! j = leaf_cell (k, v)" using j e by simp_all
  note facts = slotted_facts [OF sl, simplified] and cell = slotted_cell [OF sl j', unfolded c]
  have fits: "?off + (4 + length k + length v) \<le> paged_page_size" using cell(2) by simp
  have at: "cell_at 0 page (?off, leaf_cell (k, v))" using cell by (simp add: cell_at_def)
  have parts: "unat (u16_of_le (window ?off 2 page)) = length k" "unat (u16_of_le (window (?off + 2) 2 page)) = length v"
    using cell_part [OF at, of 0 2] cell_part [OF at, of 2 2] leaf_cell_parts [of k v] fits by simp_all
  have cell1: "take ?n (overwrite 2 (u16_le (word_of_nat (length new))) (leaf_cell (k, v))) =
      u16_le (word_of_nat (length k)) @ u16_le (word_of_nat (length new)) @ k @ take (length new) v"
    using new by (simp add: leaf_cell_def overwrite_def)
  have ch: "slotted 40 (?cs[j := u16_le (word_of_nat (length k)) @ u16_le (word_of_nat (length new)) @ k @ take (length new) v]) ?page1"
    "same_head 40 page ?page1" "slot_off 40 j ?page1 = ?off"
    using slotted_change [OF sl j', of 2 "u16_le (word_of_nat (length new))" ?n] new unfolding c cell1 by simp_all
  let ?page2 = "overwrite (?off + 4 + length k) new ?page1"
  have cell2: "overwrite (4 + length k) new (u16_le (word_of_nat (length k)) @ u16_le (word_of_nat (length new)) @ k @ take (length new) v) =
      leaf_cell (k, new)" using new by (simp add: leaf_cell_def overwrite_def)
  have ch2: "slotted 40 (?cs[j := leaf_cell (k, new)]) ?page2" "same_head 40 ?page1 ?page2"
    using slotted_change [OF ch(1), of j "4 + length k" new ?n] new j ch(3) by (simp_all add: cell2 add.assoc)
  have "overwrite_leaf_value j new page = Inr ?page2"
  proof -
    have "leaf_read_slot page j = Inr ?off" using j facts by (simp add: leaf_read_slot_def slot_off_def mult.commute)
    moreover have "?page1 = page" if "length new = length v"
      using that cell_part [OF at, of 2 2] by (intro overwrite_same) (simp add: leaf_cell_def window_skip)
    ultimately show ?thesis using facts fits parts new by (auto simp: overwrite_leaf_value_def Let_def)
  qed
  moreover have "same_head 40 page ?page2" using ch(2) ch2(2) by (simp add: same_head_def)
  ultimately show ?thesis using ch2(1) leaf_page_from [OF pg, of "es[j := (k, new)]"] by (simp add: map_update)
qed

subsection \<open>Rebuilding a page\<close>

fun append_cells :: "nat \<Rightarrow> nat \<Rightarrow> bytes list \<Rightarrow> bytes \<Rightarrow> bytes" where
  "append_cells base n [] page = page"
| "append_cells base n (c # cs) page = append_cells base (n + 1) cs (put_cell base n n (page_fe page - length c) c page)"

lemma same_head_refl [simp]: "same_head base page page"
  by (simp add: same_head_def)

lemma same_head_trans: "same_head base page page' \<Longrightarrow> same_head base page' page'' \<Longrightarrow> same_head base page page''"
  by (simp add: same_head_def)

lemma append_cells_lay:
  assumes "lay base (page_fe page) ocs page" and "base + 2 * (length ocs + length cs) + sum_list (map length cs) \<le> page_fe page"
  shows "\<exists>ocs'. lay base (page_fe (append_cells base (length ocs) cs page)) (ocs @ ocs') (append_cells base (length ocs) cs page) \<and> map snd ocs' = cs \<and>
    page_fe (append_cells base (length ocs) cs page) + sum_list (map length cs) = page_fe page \<and> same_head base page (append_cells base (length ocs) cs page)"
  using assms
proof (induction cs arbitrary: ocs page)
  case (Cons c cs)
  define off where "off = page_fe page - length c"
  let ?page1 = "put_cell base (length ocs) (length ocs) off c page"
  have off: "off + length c = page_fe page" and room: "base + 2 * length ocs + 2 \<le> off" using Cons.prems(2) by (auto simp: off_def)
  note put = put_cell_lay [OF Cons.prems(1) room off order_refl]
  have lay1: "lay base (page_fe ?page1) (ocs @ [(off, c)]) ?page1" using put(1,2) by simp
  have head1: "same_head base page ?page1" using put(4) by (auto simp: same_head_def)
  have fits: "base + 2 * (length (ocs @ [(off, c)]) + length cs) + sum_list (map length cs) \<le> page_fe ?page1" using Cons.prems(2) off put(2) by simp
  obtain ocs' where ocs': "lay base (page_fe (append_cells base (length ocs + 1) cs ?page1)) (ocs @ (off, c) # ocs') (append_cells base (length ocs + 1) cs ?page1)"
    "map snd ocs' = cs" "page_fe (append_cells base (length ocs + 1) cs ?page1) + sum_list (map length cs) = page_fe ?page1"
    "same_head base ?page1 (append_cells base (length ocs + 1) cs ?page1)"
    using Cons.IH [OF lay1 fits] by auto
  moreover have "append_cells base (length ocs) (c # cs) page = append_cells base (length ocs + 1) cs ?page1" by (simp add: off_def)
  ultimately show ?case using off put(2) head1 by (intro exI [of _ "(off, c) # ocs'"]) (auto intro: same_head_trans)
qed auto

definition rebuilt :: "nat \<Rightarrow> bytes list \<Rightarrow> bytes \<Rightarrow> bytes" where
  "rebuilt base cs page = set_counts base (length cs) (append_cells base 0 cs page)"

definition cleared :: "nat \<Rightarrow> bytes \<Rightarrow> bytes" where
  "cleared base page = set_paged_page_free_end (word_of_nat paged_page_size) (set_paged_page_free_start (word_of_nat base)
     (set_paged_page_cell_count 0 (overwrite base (replicate (length page - base) 0) page)))"

lemma cleared_lay:
  assumes "length page = paged_page_size" and "32 \<le> base" and "base \<le> paged_page_size"
  shows "lay base (page_fe (cleared base page)) [] (cleared base page)" "page_fe (cleared base page) = paged_page_size" "same_head base page (cleared base page)"
    "length (cleared base page) = paged_page_size" "page_cell_count (cleared base page) = 0"
proof -
  let ?z = "overwrite base (replicate (length page - base) 0) page"
  have len: "length ?z = paged_page_size" using assms by simp
  show fe: "page_fe (cleared base page) = paged_page_size" using len by (simp add: cleared_def page_sizes)
  show len': "length (cleared base page) = paged_page_size" "page_cell_count (cleared base page) = 0" using len by (simp_all add: cleared_def)
  then show "lay base (page_fe (cleared base page)) [] (cleared base page)" using assms fe by (simp add: lay_def window_def)
  show "same_head base page (cleared base page)" using assms len by (auto simp: same_head_def cleared_def)
qed

lemma rebuilt_slotted:
  assumes "length page = paged_page_size" and "32 \<le> base" and "base + 2 * length cs + sum_list (map length cs) \<le> paged_page_size"
  defines "page' \<equiv> rebuilt base cs (cleared base page)"
  shows "slotted base cs page'" "page_fe page' + sum_list (map length cs) = paged_page_size" "same_head base page page'"
proof -
  let ?page0 = "cleared base page" and ?page1 = "append_cells base 0 cs (cleared base page)"
  note cl = cleared_lay [OF assms(1,2)]
  have base: "base \<le> paged_page_size" using assms(3) by simp
  obtain ocs where ocs: "lay base (page_fe ?page1) ocs ?page1" "map snd ocs = cs" "page_fe ?page1 + sum_list (map length cs) = page_fe ?page0" "same_head base ?page0 ?page1"
    using append_cells_lay [OF cl(1) [OF base], of cs] assms(3) cl(2) [OF base] by auto
  have n: "length cs = length ocs" using ocs(2) by auto
  have sum: "page_fe ?page1 + sum_list (map (length \<circ> snd) ocs) \<le> paged_page_size" using ocs(2,3) cl(2) [OF base] by (metis list.map_comp order_refl)
  note fin = set_counts_lay [OF ocs(1) n sum]
  show "slotted base cs page'" using fin(1) ocs(2) by (simp add: page'_def rebuilt_def)
  show "page_fe page' + sum_list (map length cs) = paged_page_size" using fin(2) ocs(3) cl(2) [OF base] by (simp add: page'_def rebuilt_def)
  show "same_head base page page'" using fin(3) ocs(4) cl(3) [OF base] unfolding page'_def rebuilt_def by (blast intro: same_head_trans)
qed

lemma put_cell_last: "put_cell base n n off c page = overwrite (base + n * 2) (u16_le (word_of_nat off)) (set_paged_page_free_end (word_of_nat off) (overwrite off c page))"
  by (simp add: put_cell_def Let_def copy_within_def window_def) (simp add: overwrite_def)

lemma leaf_entries_size_cells: "leaf_entries_size es = 2 * length es + sum_list (map (length \<circ> leaf_cell) es)"
  by (induction es) (auto simp: leaf_entries_size_def)

lemma write_leaf_loop_cells:
  assumes "lay 40 (page_fe page) ocs page" and "40 + 2 * length ocs + leaf_entries_size es \<le> page_fe page"
  shows "write_leaf_loop (length ocs) es page = Inr (append_cells 40 (length ocs) (map leaf_cell es) page)"
  using assms
proof (induction es arbitrary: ocs page)
  case (Cons e es)
  obtain k v where e: "e = (k, v)" by (cases e)
  let ?c = "leaf_cell (k, v)"
  define off where "off = page_fe page - length ?c"
  have size: "leaf_entries_size (e # es) = 2 + length ?c + leaf_entries_size es" by (simp add: e leaf_entries_size_def)
  then have off: "off + length ?c = page_fe page" and room: "40 + 2 * length ocs + 2 \<le> off" using Cons.prems(2) by (auto simp: off_def)
  note put = put_cell_lay [OF Cons.prems(1) room off order_refl]
  have len: "length page = paged_page_size" "page_fe page \<le> paged_page_size" using Cons.prems(1) by (simp_all add: lay_def)
  have start: "page_fe page - (4 + length k + length v) = off" "cells_start page = page_fe page" using off cells_start_lay [OF Cons.prems(1)] by simp_all
  have "write_leaf_cell off k v page = overwrite off ?c page" using off len by (intro write_leaf_cell_bytes) simp
  then have "write_leaf_loop (length ocs) (e # es) page = write_leaf_loop (length ocs + 1) es (put_cell 40 (length ocs) (length ocs) off ?c page)"
    using off room len start size Cons.prems(2) by (simp add: e Let_def leaf_write_slot_def put_cell_last)
  also have "\<dots> = Inr (append_cells 40 (length ocs + 1) (map leaf_cell es) (put_cell 40 (length ocs) (length ocs) off ?c page))"
    using Cons.IH [of "put_cell 40 (length ocs) (length ocs) off ?c page" "ocs @ [(off, ?c)]"] put(1,2) Cons.prems(2) off size by simp
  finally show ?case by (simp add: e off_def)
qed simp

lemma write_leaf_entries_page:
  assumes head: "leaf_head i prev nxt page" and len: "length page = paged_page_size" and fits: "40 + leaf_entries_size es \<le> paged_page_size"
  shows "\<exists>page'. write_leaf_entries es page = Inr page' \<and> leaf_page i prev nxt es page'"
proof -
  have cl: "lay 40 (page_fe (cleared 40 page)) [] (cleared 40 page)" "page_fe (cleared 40 page) = paged_page_size"
    using cleared_lay [OF len, of 40] by (simp_all add: page_sizes)
  have "clear_leaf_cells page = cleared 40 page" by (simp add: clear_leaf_cells_def cleared_def)
  then have "write_leaf_entries es page = Inr (rebuilt 40 (map leaf_cell es) (cleared 40 page))"
    using write_leaf_loop_cells [OF cl(1), of es] cl(2) fits by (simp add: write_leaf_entries_def rebuilt_def set_counts_def)
  moreover have "40 + 2 * length (map leaf_cell es) + sum_list (map length (map leaf_cell es)) \<le> paged_page_size"
    using fits by (simp add: leaf_entries_size_cells)
  note reb = rebuilt_slotted [OF len _ this, simplified]
  moreover have "leaf_head i prev nxt (rebuilt 40 (map leaf_cell es) (cleared 40 page)) = leaf_head i prev nxt page"
    using reb(3) slotted_facts(1) [OF reb(1)] len by (intro leaf_head_same) (auto simp: same_head_def)
  ultimately show ?thesis using head by (simp add: leaf_page_def)
qed

subsection \<open>Header changes\<close>

lemma slotted_below:
  assumes pg: "slotted base cs page" and "8 \<le> off" and "off + length bs \<le> base"
  shows "slotted base cs (overwrite off bs page)" "page_fe (overwrite off bs page) = page_fe page"
proof -
  note facts = slotted_facts [OF pg]
  have low: "off + length bs \<le> length page" using facts assms(3) by simp
  show fe: "page_fe (overwrite off bs page) = page_fe page" using assms low by (simp add: paged_page_free_end_def)
  have "page_cell_count (overwrite off bs page) = page_cell_count page" using assms low by (simp add: paged_page_cell_count_def)
  then show "slotted base cs (overwrite off bs page)" using pg fe lay_below [of base "page_fe page" _ page off bs] assms(3) unfolding slotted_def by auto
qed

definition page_head :: "byte \<Rightarrow> u32 \<Rightarrow> bytes \<Rightarrow> bool" where
  "page_head ty i page \<longleftrightarrow> length page = paged_page_size \<and> paged_page_type page = ty \<and> paged_page_id page = i"

lemma page_head_new: "page_head (page_type_byte ty) i (page_new ty i)"
  by (simp add: page_head_def)
    (simp add: paged_page_type_def page_new_def page_set_header_def page_header_new_def page_header_to_bytes_def encode_paged_page_header_def overwrite_def)

lemma page_head_overwrite:
  assumes "page_head ty i page" and "12 \<le> off" and "off + length bs \<le> paged_page_size"
  shows "page_head ty i (overwrite off bs page)"
  using assms by (simp add: page_head_def paged_page_id_def) (simp add: paged_page_type_def overwrite_def nth_append page_sizes)

lemma leaf_head_init:
  assumes "page_head 1 i page"
  shows "leaf_head i prev nxt (init_leaf_links prev nxt page)" "length (init_leaf_links prev nxt page) = paged_page_size"
proof -
  have "page_head 1 i (init_leaf_links prev nxt page)"
    unfolding init_leaf_links_def by (intro page_head_overwrite assms) (simp_all add: page_sizes)
  then show "leaf_head i prev nxt (init_leaf_links prev nxt page)" "length (init_leaf_links prev nxt page) = paged_page_size"
    using assms by (simp_all add: leaf_head_def page_head_def init_leaf_links_def page_sizes)
qed

lemma leaf_page_init:
  assumes "leaf_page i prev0 nxt0 es page"
  shows "leaf_page i prev nxt es (init_leaf_links prev nxt page)"
proof -
  have "page_head 1 i page" using assms leaf_page_length [OF assms] by (simp add: leaf_page_def leaf_head_def page_head_def)
  moreover have "slotted 40 (map leaf_cell es) (init_leaf_links prev nxt page)"
    using assms unfolding init_leaf_links_def by (intro slotted_below(1)) (simp_all add: leaf_page_def)
  ultimately show ?thesis using leaf_head_init(1) by (simp add: leaf_page_def)
qed

lemma leaf_page_set_links:
  assumes pg: "leaf_page i prev nxt es page"
  shows "leaf_page i prev' nxt es (set_prev_leaf prev' page)" "leaf_page i prev nxt' es (set_next_leaf nxt' page)"
proof -
  have head: "page_head 1 i page" using assms leaf_page_length [OF assms] by (simp add: leaf_page_def leaf_head_def page_head_def)
  have sl: "slotted 40 (map leaf_cell es) (set_prev_leaf prev' page)" "slotted 40 (map leaf_cell es) (set_next_leaf nxt' page)"
    using pg unfolding set_prev_leaf_def set_next_leaf_def by (auto simp: leaf_page_def intro: slotted_below(1))
  have "page_head 1 i (set_prev_leaf prev' page)" "page_head 1 i (set_next_leaf nxt' page)"
    unfolding set_prev_leaf_def set_next_leaf_def by (auto intro!: page_head_overwrite head simp: page_sizes)
  then show "leaf_page i prev' nxt es (set_prev_leaf prev' page)" "leaf_page i prev nxt' es (set_next_leaf nxt' page)"
    using pg sl leaf_page_length [OF pg] by (simp_all add: leaf_page_def leaf_head_def page_head_def set_prev_leaf_def set_next_leaf_def page_sizes)
qed

lemma update_checksum_overwrite:
  "length page = paged_page_size \<Longrightarrow> update_checksum crc page = overwrite 28 (u32_le (crc (clear_paged_page_checksum page))) page"
  by (simp add: update_checksum_def Let_def set_paged_page_checksum_def clear_paged_page_checksum_def page_sizes overwrite_overwrite_same)

lemma page_head_checksum: "page_head ty i page \<Longrightarrow> page_head ty i (update_checksum crc page)"
  using update_checksum_overwrite page_head_overwrite by (simp add: page_head_def page_sizes)

lemma slotted_checksum: "slotted base cs page \<Longrightarrow> slotted base cs (update_checksum crc page)" "slotted base cs page \<Longrightarrow> page_fe (update_checksum crc page) = page_fe page"
  using slotted_below [of base cs page 28] slotted_facts [of base cs page] update_checksum_overwrite by simp_all

lemma leaf_page_checksum [simp]:
  assumes "leaf_page i prev nxt es page"
  shows "leaf_page i prev nxt es (update_checksum crc page)"
proof -
  have "page_head 1 i page" using assms leaf_page_length [OF assms] by (simp add: leaf_page_def leaf_head_def page_head_def)
  then have "page_head 1 i (update_checksum crc page)" by (rule page_head_checksum)
  moreover have "window off 4 (update_checksum crc page) = window off 4 page" if "32 \<le> off" "off \<le> 36" for off
    using that leaf_page_length [OF assms] by (simp add: update_checksum_overwrite page_sizes)
  ultimately show ?thesis using assms slotted_checksum(1) by (simp add: leaf_page_def leaf_head_def page_head_def)
qed

lemma leaf_page_new: "leaf_page i 0 0 [] (clear_leaf_cells (page_new BTreeLeaf i))"
proof -
  let ?page = "page_new BTreeLeaf i"
  have cl: "clear_leaf_cells ?page = cleared 40 ?page" by (simp add: clear_leaf_cells_def cleared_def)
  have "replicate 4 0 = u32_le 0" by code_simp
  then have "window off 4 ?page = u32_le 0" if "32 \<le> off" "off \<le> 36" for off
    using that by (simp add: page_new_def page_set_header_def page_header_to_bytes_def encode_paged_page_header_def page_sizes) (simp add: window_def)
  then have "leaf_head i 0 0 ?page" using page_head_new [of BTreeLeaf i] by (simp add: leaf_head_def page_head_def)
  then have "leaf_head i 0 0 (cleared 40 ?page)"
    using cleared_lay(3,4) [of ?page 40] by (subst leaf_head_same [of ?page]) (auto simp: same_head_def page_sizes)
  then show ?thesis using cleared_lay [of ?page 40] unfolding cl by (auto simp: leaf_page_def slotted_def page_sizes)
qed

subsection \<open>What an interior page holds\<close>

definition interior_cell :: "bytes \<times> u32 \<Rightarrow> bytes" where
  "interior_cell e = u16_le (word_of_nat (length (fst e))) @ fst e @ u32_le (snd e)"

definition keys_size :: "bytes list \<Rightarrow> nat" where
  "keys_size ks = sum_list (map (\<lambda>k. 8 + length k) ks)"

text \<open>An interior page never has a gap between its cells: it is only rebuilt or added to.\<close>

definition interior_page :: "u32 \<Rightarrow> bytes list \<Rightarrow> u32 list \<Rightarrow> bytes \<Rightarrow> bool" where
  "interior_page i ks cs page \<longleftrightarrow> page_head 2 i page \<and> length cs = length ks + 1 \<and> slotted 32 (map interior_cell (zip ks cs)) page \<and>
     page_fe page + sum_list (map length (map interior_cell (zip ks cs))) = paged_page_size \<and> paged_page_right_child page = last cs"

lemma length_interior_cell [simp]: "length (interior_cell e) = 6 + length (fst e)"
  by (simp add: interior_cell_def)

lemma interior_cells_size: "length cs = length ks + 1 \<Longrightarrow> 2 * length ks + sum_list (map length (map interior_cell (zip ks cs))) = keys_size ks"
proof (induction ks arbitrary: cs)
  case (Cons k ks)
  then obtain c cs' where "cs = c # cs'" by (cases cs) auto
  then show ?case using Cons.IH [of cs'] Cons.prems by (simp add: keys_size_def)
qed (simp add: keys_size_def)

lemma interior_cell_parts:
  assumes "length (interior_cell (k, c)) \<le> paged_page_size"
  shows "unat (u16_of_le (window 0 2 (interior_cell (k, c)))) = length k" "window 2 (length k) (interior_cell (k, c)) = k"
    "window (2 + length k) 4 (interior_cell (k, c)) = u32_le c"
  using assms by (simp_all add: interior_cell_def window_skip page_sizes)

lemma read_interior_cell_page:
  assumes pg: "interior_page i ks cs page" and j: "j < length ks"
  shows "read_interior_cell page j = Inr (ks ! j, cs ! j)"
proof -
  let ?cells = "map interior_cell (zip ks cs)" and ?off = "slot_off 32 j page"
  have len: "length cs = length ks + 1" and sl: "slotted 32 ?cells page" using pg by (simp_all add: interior_page_def)
  have j': "j < length ?cells" and c: "?cells ! j = interior_cell (ks ! j, cs ! j)" using j len by simp_all
  note facts = slotted_facts [OF sl] and cell = slotted_cell [OF sl j', unfolded c]
  have fits: "?off + (6 + length (ks ! j)) \<le> paged_page_size" using cell(2) by simp
  have at: "cell_at 0 page (?off, interior_cell (ks ! j, cs ! j))" using cell by (simp add: cell_at_def)
  have parts: "unat (u16_of_le (window ?off 2 page)) = length (ks ! j)" "window (?off + 2) (length (ks ! j)) page = ks ! j"
    "u32_of_le (window (?off + 2 + length (ks ! j)) 4 page) = cs ! j"
    using cell_part [OF at, of 0 2] cell_part [OF at, of 2 "length (ks ! j)"] cell_part [OF at, of "2 + length (ks ! j)" 4]
      interior_cell_parts [of "ks ! j" "cs ! j"] fits by (simp_all add: add.assoc)
  have "interior_read_slot page j = Inr ?off" using facts j len by (simp add: interior_read_slot_def slot_off_def mult.commute)
  then show ?thesis using facts fits parts j len by (simp add: read_interior_cell_def Let_def)
qed

lemma interior_page_count: "interior_page i ks cs page \<Longrightarrow> page_cell_count page = length ks"
  by (simp add: interior_page_def slotted_def)

definition child_pos :: "bytes \<Rightarrow> bytes list \<Rightarrow> nat" where
  "child_pos key ks = length (takeWhile (\<lambda>k. k \<le> key) ks)"

lemma find_child_loop_pos:
  assumes "\<And>j. j < length ks \<Longrightarrow> rd j = Inr (ks ! j, cs ! j)"
  shows "n \<le> length ks \<Longrightarrow> find_child_loop rd key [n..<length ks] right =
    Inr (if child_pos key (drop n ks) = length ks - n then right else cs ! (n + child_pos key (drop n ks)))"
proof (induction "length ks - n" arbitrary: n)
  case 0
  then show ?case by (simp add: child_pos_def)
next
  case (Suc m)
  then have n: "n < length ks" by simp
  have d: "drop n ks = ks ! n # drop (Suc n) ks" using n by (simp add: Cons_nth_drop_Suc)
  have "find_child_loop rd key [Suc n..<length ks] right =
      Inr (if child_pos key (drop (Suc n) ks) = length ks - Suc n then right else cs ! (Suc n + child_pos key (drop (Suc n) ks)))"
    using Suc.hyps n by simp
  then show ?case using n assms [OF n] by (auto simp: upt_conv_Cons d child_pos_def not_less)
qed

lemma find_child_page:
  assumes pg: "interior_page i ks cs page"
  shows "find_child page key = Inr (cs ! child_pos key ks)"
proof -
  have "length cs = length ks + 1" "paged_page_right_child page = last cs" using pg by (simp_all add: interior_page_def)
  moreover have "cs \<noteq> []" using calculation by auto
  ultimately show ?thesis using find_child_loop_pos [of ks "read_interior_cell page" cs 0 key "last cs"] read_interior_cell_page [OF pg] interior_page_count [OF pg]
    by (simp add: find_child_def last_conv_nth)
qed

lemma find_first_child_page:
  assumes pg: "interior_page i ks cs page"
  shows "find_first_child page = Inr (hd cs)"
proof -
  have "length cs = length ks + 1" "paged_page_right_child page = last cs" using pg by (simp_all add: interior_page_def)
  then show ?thesis using read_interior_cell_page [OF pg, of 0] interior_page_count [OF pg]
    by (cases cs) (auto simp: find_first_child_def)
qed

lemma read_interior_keys_children_page:
  assumes pg: "interior_page i ks cs page" and nz: "0 \<notin> set cs"
  shows "read_interior_keys_children page = Inr (ks, cs)"
proof -
  have len: "length cs = length ks + 1" "paged_page_right_child page = last cs" using pg by (simp_all add: interior_page_def)
  have cs: "cs = map (\<lambda>j. cs ! j) [0..<length ks] @ [last cs]"
    using len by (cases cs rule: rev_cases) (auto simp: nth_append intro!: nth_equalityI)
  have "last cs \<noteq> 0" using nz len by (metis Suc_eq_plus1 last_in_set length_0_conv nat.distinct(1))
  moreover have "read_all (read_interior_cell page) [0..<length ks] = Inr (map (\<lambda>j. (ks ! j, cs ! j)) [0..<length ks])"
    using read_interior_cell_page [OF pg] by (intro read_all_ok) simp
  ultimately show ?thesis using cs [symmetric] len interior_page_count [OF pg]
    by (cases "ks = []") (simp_all add: read_interior_keys_children_def Let_def o_def map_nth)
qed

lemma write_interior_cell_bytes:
  assumes "off + length (interior_cell (k, c)) \<le> length page"
  shows "write_interior_cell off k c page = overwrite off (interior_cell (k, c)) page"
proof -
  let ?a = "u16_le (word_of_nat (length k))"
  have "overwrite (off + 2) k (overwrite off ?a page) = overwrite off (?a @ k) page"
    using overwrite_merge [of off ?a k page] assms by simp
  moreover have "overwrite (off + 2 + length k) (u32_le c) (overwrite off (?a @ k) page) = overwrite off (interior_cell (k, c)) page"
    using overwrite_merge [of off "?a @ k" "u32_le c" page] assms by (simp add: interior_cell_def eval_nat_numeral)
  ultimately show ?thesis by (simp add: write_interior_cell_def)
qed

lemma write_interior_loop_cells:
  assumes "lay 32 (page_fe page) ocs page" and "32 + 2 * (length ocs + length es) + sum_list (map (length \<circ> interior_cell) es) \<le> page_fe page"
  shows "write_interior_loop (length ocs) es page = Inr (append_cells 32 (length ocs) (map interior_cell es) page)"
  using assms
proof (induction es arbitrary: ocs page)
  case (Cons e es)
  obtain k v where e: "e = (k, v)" by (cases e)
  let ?c = "interior_cell (k, v)"
  define off where "off = page_fe page - length ?c"
  have off: "off + length ?c = page_fe page" and room: "32 + 2 * length ocs + 2 \<le> off" using Cons.prems(2) by (auto simp: off_def e)
  note put = put_cell_lay [OF Cons.prems(1) room off order_refl]
  have len: "length page = paged_page_size" "page_fe page \<le> paged_page_size" using Cons.prems(1) by (simp_all add: lay_def)
  have start: "page_fe page - (6 + length k) = off" "cells_start page = page_fe page" using off cells_start_lay [OF Cons.prems(1)] by simp_all
  have "write_interior_cell off k v page = overwrite off ?c page" using off len by (intro write_interior_cell_bytes) simp
  then have "write_interior_loop (length ocs) (e # es) page = write_interior_loop (length ocs + 1) es (put_cell 32 (length ocs) (length ocs) off ?c page)"
    using off room len start Cons.prems(2) by (simp add: e Let_def interior_write_slot_def put_cell_last)
  also have "\<dots> = Inr (append_cells 32 (length ocs + 1) (map interior_cell es) (put_cell 32 (length ocs) (length ocs) off ?c page))"
    using Cons.IH [of "put_cell 32 (length ocs) (length ocs) off ?c page" "ocs @ [(off, ?c)]"] put(1,2) Cons.prems(2) off by (simp add: e)
  finally show ?case by (simp add: e off_def)
qed simp

lemma page_head_same:
  assumes "page_head ty i page" and "same_head base page page'" and "32 \<le> base" and "length page' = paged_page_size"
  shows "page_head ty i page'"
  using assms header_same [of page page'] by (auto simp: page_head_def same_head_def)

lemma set_right_child_page:
  assumes head: "page_head 2 i page" and sl: "slotted 32 (map interior_cell (zip ks cs)) page" and len: "length cs = length ks + 1"
    and fe: "page_fe page + sum_list (map length (map interior_cell (zip ks cs))) = paged_page_size"
  shows "interior_page i ks cs (set_paged_page_right_child (last cs) page)"
proof -
  have "page_head 2 i (set_paged_page_right_child (last cs) page)" unfolding set_paged_page_right_child_def
    by (rule page_head_overwrite [OF head]) (simp_all add: page_sizes)
  moreover have "paged_page_right_child (set_paged_page_right_child (last cs) page) = last cs"
    using head by (simp add: page_head_def paged_page_right_child_def set_paged_page_right_child_def page_sizes)
  ultimately show ?thesis using slotted_below [OF sl, of 16 "u32_le (last cs)"] len fe by (simp add: interior_page_def set_paged_page_right_child_def)
qed

lemma write_interior_entries_page:
  assumes head: "page_head 2 i page" and len: "length cs = length ks + 1" and fits: "32 + keys_size ks \<le> paged_page_size"
  shows "\<exists>page'. write_interior_entries ks cs page = Inr page' \<and> interior_page i ks cs page'"
proof -
  let ?cells = "map interior_cell (zip ks cs)" and ?page0 = "cleared 32 page"
  have lp: "length page = paged_page_size" using head by (simp add: page_head_def)
  note cl = cleared_lay [OF lp, of 32, simplified page_sizes, simplified, folded page_sizes]
  have clear: "clear_interior_cells page = ?page0" by (simp add: clear_interior_cells_def cleared_def)
  have size: "32 + 2 * length ?cells + sum_list (map length ?cells) \<le> paged_page_size" using interior_cells_size [OF len] fits len by simp
  note reb = rebuilt_slotted [OF lp _ size, simplified length_map length_zip]
  show ?thesis
  proof (cases "ks = []")
    case True
    then obtain c where c: "cs = [c]" using len by (cases cs) auto
    have "slotted 32 [] ?page0" "page_fe ?page0 = paged_page_size" using cleared_lay [OF lp, of 32] by (auto simp: slotted_def page_sizes)
    moreover have "page_head 2 i ?page0" using cleared_lay [OF lp, of 32] by (intro page_head_same [OF head]) (auto simp: page_sizes)
    ultimately show ?thesis using set_right_child_page [of i ?page0 "[]" "[c]"] True c clear by (simp add: write_interior_entries_def)
  next
    case False
    have "write_interior_entries ks cs page = Inr (set_paged_page_right_child (last cs) (rebuilt 32 ?cells ?page0))"
      using write_interior_loop_cells [of ?page0 "[]" "zip ks cs"] cleared_lay [OF lp, of 32] size len False clear
      by (simp add: write_interior_entries_def rebuilt_def set_counts_def page_sizes)
    moreover have "page_head 2 i (rebuilt 32 ?cells ?page0)"
      using reb slotted_facts(1) [OF reb(1)] by (intro page_head_same [OF head]) auto
    ultimately show ?thesis using set_right_child_page [of i "rebuilt 32 ?cells ?page0" ks cs] reb len by simp
  qed
qed

definition key_pos :: "bytes \<Rightarrow> bytes list \<Rightarrow> nat" where
  "key_pos key ks = length (takeWhile (\<lambda>k. k < key) ks)"

lemma key_pos_le: "key_pos key ks \<le> length ks"
  by (simp add: key_pos_def length_takeWhile_le)

lemma rank_key_pos: "rank key es = key_pos key (map fst es)"
  by (simp add: rank_def key_pos_def takeWhile_map o_def)

lemma can_insert_interior_page:
  assumes "interior_page i ks cs page"
  shows "can_insert_interior page key \<longleftrightarrow> 32 + keys_size ks + (8 + length key) \<le> paged_page_size"
proof -
  have sl: "slotted 32 (map interior_cell (zip ks cs)) page" and len: "length cs = length ks + 1"
    and fe: "page_fe page + sum_list (map length (map interior_cell (zip ks cs))) = paged_page_size"
    using assms by (simp_all add: interior_page_def)
  note facts = slotted_facts [OF sl] and size = interior_cells_size [OF len]
  have "2 * length ks + paged_page_size = keys_size ks + page_fe page" "32 + 2 * length ks \<le> page_fe page" using size fe facts len by simp_all
  then show ?thesis using facts len by (simp add: can_insert_interior_def interior_free_bytes_def) linarith
qed

lemma interior_set_child_page:
  fixes right :: u32
  assumes pg: "interior_page i ks cs page" and p: "p \<le> length ks"
  defines "page' \<equiv> (if p < length ks then overwrite (slot_off 32 p page + 2 + length (ks ! p)) (u32_le right) page else set_paged_page_right_child right page)"
  shows "interior_page i ks (cs[p := right]) page'"
proof -
  let ?cells = "map interior_cell (zip ks cs)"
  have head: "page_head 2 i page" and sl: "slotted 32 ?cells page" and len: "length cs = length ks + 1" and right: "paged_page_right_child page = last cs"
    and fe: "page_fe page + sum_list (map length ?cells) = paged_page_size" using pg by (simp_all add: interior_page_def)
  note facts = slotted_facts [OF sl]
  show ?thesis
  proof (cases "p < length ks")
    case True
    then have j: "p < length ?cells" and c: "?cells ! p = interior_cell (ks ! p, cs ! p)" using len by simp_all
    have cell': "overwrite (2 + length (ks ! p)) (u32_le right) (interior_cell (ks ! p, cs ! p)) = interior_cell (ks ! p, right)"
      by (simp add: interior_cell_def overwrite_def)
    have ch: "slotted 32 (?cells[p := interior_cell (ks ! p, right)]) page'" "same_head 32 page page'" "page_fe page' = page_fe page"
      using slotted_change [OF sl j, of "2 + length (ks ! p)" "u32_le right" "length (interior_cell (ks ! p, cs ! p))"] True
      unfolding c cell' by (simp_all add: page'_def add.assoc)
    have cells': "?cells[p := interior_cell (ks ! p, right)] = map interior_cell (zip ks (cs[p := right]))"
      using True len by (intro nth_equalityI) (auto simp: nth_list_update)
    have sum': "sum_list (map length (map interior_cell (zip ks (cs[p := right])))) = sum_list (map length ?cells)"
      using interior_cells_size [OF len] interior_cells_size [of "cs[p := right]" ks] len by simp
    have "last (cs[p := right]) = last cs" using True len by (cases "cs = []") (auto simp: last_list_update)
    moreover have "paged_page_right_child page' = paged_page_right_child page" using ch(2) by (simp add: paged_page_right_child_def same_head_def)
    moreover have "page_head 2 i page'" using ch(2) slotted_facts(1) [OF ch(1)] by (intro page_head_same [OF head]) auto
    ultimately show ?thesis using ch(1,3) fe right len sum' unfolding cells' by (simp add: interior_page_def)
  next
    case False
    then have p: "p = length ks" using p by simp
    have "zip ks (cs[p := right]) = zip ks cs" using len p by (intro nth_equalityI) simp_all
    moreover have "last (cs[p := right]) = right" using len p by (cases "cs = []") (auto simp: last_list_update)
    ultimately show ?thesis using set_right_child_page [OF head, of ks "cs[p := right]"] sl fe len False by (simp add: page'_def)
  qed
qed

lemma redirect_child_page:
  assumes pg: "interior_page i ks cs page" and p: "p \<le> length ks"
  shows "\<exists>page1. (if p < length ks then and_then (interior_read_slot page p) (\<lambda>old_offset.
        let key_len = unat (u16_of_le (window old_offset 2 page)) in Inr (overwrite (old_offset + 2 + key_len) (u32_le right) page))
      else Inr (set_paged_page_right_child right page)) = Inr page1 \<and> interior_page i ks (cs[p := right]) page1"
proof (cases "p < length ks")
  case True
  let ?cells = "map interior_cell (zip ks cs)" and ?off = "slot_off 32 p page"
  have sl: "slotted 32 ?cells page" and len: "length cs = length ks + 1" using pg by (simp_all add: interior_page_def)
  have j': "p < length ?cells" and c: "?cells ! p = interior_cell (ks ! p, cs ! p)" using True len by simp_all
  note cell = slotted_cell [OF sl j', unfolded c]
  have at: "cell_at 0 page (?off, interior_cell (ks ! p, cs ! p))" using cell by (simp add: cell_at_def)
  have "unat (u16_of_le (window ?off 2 page)) = length (ks ! p)"
    using cell_part [OF at, of 0 2] interior_cell_parts [of "ks ! p" "cs ! p"] cell(2) by simp
  moreover have "interior_read_slot page p = Inr ?off" using slotted_facts [OF sl] True len by (simp add: interior_read_slot_def slot_off_def mult.commute)
  ultimately show ?thesis using interior_set_child_page [OF pg p, of right] True by simp
qed (use interior_set_child_page [OF pg p, of right] in simp)

lemma insert_redirected: "q < length cs \<Longrightarrow> insert_at q (cs ! q) (cs[q := r]) = insert_at (Suc q) r cs"
  by (simp add: insert_at_def take_Suc_conv_app_nth drop_update_swap Cons_nth_drop_Suc [symmetric])

lemma insert_into_interior_page:
  assumes pg: "interior_page i ks cs page" and ord: "sorted_wrt (<) ks" and fits: "can_insert_interior page key" and left: "cs ! key_pos key ks = left"
  shows "\<exists>page'. insert_into_interior key left right page = Inr page' \<and>
    interior_page i (insert_at (key_pos key ks) key ks) (insert_at (Suc (key_pos key ks)) right cs) page'"
proof -
  let ?p = "key_pos key ks" and ?n = "length ks" and ?c = "interior_cell (key, left)"
  let ?cs1 = "cs[key_pos key ks := right]"
  have p: "?p \<le> ?n" by (rule key_pos_le)
  have len: "length cs = ?n + 1" using pg by (simp add: interior_page_def)
  obtain page1 where step1: "(if ?p < ?n then and_then (interior_read_slot page ?p) (\<lambda>old_offset.
        let key_len = unat (u16_of_le (window old_offset 2 page)) in Inr (overwrite (old_offset + 2 + key_len) (u32_le right) page))
      else Inr (set_paged_page_right_child right page)) = Inr page1" and pg1: "interior_page i ks ?cs1 page1"
    using redirect_child_page [OF pg p] by blast
  let ?cells1 = "map interior_cell (zip ks ?cs1)" and ?page2 = "\<lambda>off. set_counts 32 (?n + 1) (put_cell 32 ?n ?p off ?c page1)"
  have sl1: "slotted 32 ?cells1 page1" and head1: "page_head 2 i page1" and right1: "paged_page_right_child page1 = last ?cs1"
    and fe1: "page_fe page1 + sum_list (map length ?cells1) = paged_page_size" using pg1 by (simp_all add: interior_page_def)
  have n1: "length ?cells1 = ?n" using len by simp
  define off where "off = page_fe page1 - length ?c"
  have "2 * ?n + paged_page_size = keys_size ks + page_fe page1" using interior_cells_size [of ?cs1 ks] fe1 len by simp
  then have off: "off + length ?c = page_fe page1" and room: "32 + 2 * ?n + 2 \<le> off"
    using can_insert_interior_page [OF pg] fits by (simp_all add: off_def)
  note put = slotted_insert [OF sl1 p [folded n1] room [folded n1] off, unfolded n1] and facts1 = slotted_facts [OF sl1, unfolded n1]
  have "map fst (zip ks cs) = ks" using len by (simp add: map_fst_zip_take)
  then have found: "lower_bound_loop (read_interior_cell page) key 0 ?n = Inr ?p"
    using lower_bound [of "zip ks cs" "read_interior_cell page" 0 key ?n] read_interior_cell_page [OF pg] ord p len by (simp add: rank_key_pos)
  have start: "page_fe page1 - (6 + length key) = off" using off by simp
  have "write_interior_cell off key left page1 = overwrite off ?c page1" using off facts1 by (intro write_interior_cell_bytes) simp
  then have ins: "insert_into_interior key left right page = Inr (?page2 off)"
    unfolding insert_into_interior_def Let_def interior_page_count [OF pg] found and_then_simps step1 [unfolded Let_def]
    using facts1 p off room start by (simp add: interior_write_slot_def put_cell_def set_counts_def Let_def)
  have cs': "insert_at ?p left ?cs1 = insert_at (Suc ?p) right cs" using p len left insert_redirected [of ?p cs right] by simp
  have cells: "insert_at ?p ?c ?cells1 = map interior_cell (zip (insert_at ?p key ks) (insert_at (Suc ?p) right cs))"
    unfolding cs' [symmetric] using p len by (simp add: insert_at_def take_map drop_map take_zip drop_zip)
  have "last (insert_at ?p left ?cs1) = last ?cs1" using p len by (simp add: insert_at_def last_drop)
  then have "paged_page_right_child (?page2 off) = last (insert_at (Suc ?p) right cs)"
    using put(3) right1 cs' by (simp add: paged_page_right_child_def same_head_def)
  moreover have "page_head 2 i (?page2 off)" using put(3) slotted_facts(1) [OF put(1)] by (intro page_head_same [OF head1]) auto
  moreover have "page_fe (?page2 off) + sum_list (map length (insert_at ?p ?c ?cells1)) = paged_page_size"
    using put(2) off fe1 by (simp add: map_insert_at sum_insert_at)
  ultimately show ?thesis using ins put(1) len unfolding cells by (simp add: interior_page_def)
qed

lemma interior_page_checksum [simp]:
  assumes "interior_page i ks cs page"
  shows "interior_page i ks cs (update_checksum crc page)"
proof -
  have "window 16 4 (update_checksum crc page) = window 16 4 page"
    using assms by (simp add: interior_page_def page_head_def update_checksum_overwrite page_sizes)
  then show ?thesis using assms slotted_checksum(2) [of 32 "map interior_cell (zip ks cs)" page crc]
    by (simp add: interior_page_def paged_page_right_child_def slotted_checksum page_head_checksum)
qed

lemma interior_page_facts:
  assumes "interior_page i ks cs page"
  shows "page_head 2 i page" "length cs = length ks + 1" "32 + keys_size ks \<le> paged_page_size" "page_get_type page = Inr BTreeInterior"
    "length page = paged_page_size" "paged_page_id page = i"
proof -
  have sl: "slotted 32 (map interior_cell (zip ks cs)) page" and len: "length cs = length ks + 1"
    and fe: "page_fe page + sum_list (map length (map interior_cell (zip ks cs))) = paged_page_size"
    using assms by (simp_all add: interior_page_def)
  show "32 + keys_size ks \<le> paged_page_size" using interior_cells_size [OF len] fe slotted_facts [OF sl] len by simp
qed (use assms in \<open>simp_all add: interior_page_def page_head_def page_get_type_def page_type_from_u8_def\<close>)

lemma leaf_page_facts:
  assumes "leaf_page i prev nxt es page"
  shows "page_head 1 i page" "40 + leaf_entries_size es \<le> paged_page_size" "leaf_head i prev nxt page"
proof -
  have sl: "slotted 40 (map leaf_cell es) page" using assms by (simp add: leaf_page_def)
  show "40 + leaf_entries_size es \<le> paged_page_size" using sl slotted_facts [OF sl] by (simp add: slotted_def leaf_entries_size_cells)
  show "page_head 1 i page" "leaf_head i prev nxt page" using assms leaf_page_length [OF assms] by (simp_all add: leaf_page_def leaf_head_def page_head_def)
qed

end
