(* ===== verification/Spec2Isabelle.thy ===== *)
theory Spec2Isabelle
  imports Serializable_Tracking Txn_Isolation Wal_Recovery Wal_Reopen Group_Commit Placement_Authority
    Ownership_Lease Election_Safety Commit_Quorum Btree_Page
begin

text \<open>
  \<^bold>\<open>RedDB: a verification library.\<close>

  RedDB is a database server written in Rust. A statement reads rows through MVCC snapshots; a commit is
  encoded into batches of a write-ahead log, which a group-commit coordinator makes durable; pages hold the
  rows on disk and a checkpointer moves logged pages into place; in a cluster, a catalog says which node may
  write which range of keys and under which epoch. This library models those parts as HOL functions and
  proves what they promise each other. Paths below are relative to \<open>src/crates/\<close>; the server crate is
  \<open>reddb-server/src\<close>, the file-format crate \<open>reddb-file/src\<close>, the engine crate \<open>reddb-engine/src\<close>.

  \<^bold>\<open>Conventions\<close> (theory \<open>Prelude_RedDB\<close>). A struct is a record, an enum a datatype, \<open>Result\<close> a sum with
  the error on the left, a panic an outer \<open>None\<close>. Counters are natural numbers with the wrap, saturation
  or checked failure of the source written out; the integers of the byte formats are words. \<open>HashMap\<close> is an
  association list whose traversal order, where it matters, is an argument; \<open>BTreeMap\<close> (theory
  \<open>Ordered_Map\<close>) is an association list in key order. Checksums, compression and digests come from other
  packages and are arguments of the definitions; what is needed of them is a named hypothesis, and every
  property with such a hypothesis has an instance.

  \<^bold>\<open>Transactions.\<close>
  \<^item> \<open>Visibility\<close>: the predicate that decides whether a snapshot sees a row version.
  \<^item> \<open>Snapshot_Manager\<close>: the allocator of transaction ids, the active and aborted sets, retention guards and
    the bookkeeping of serializable transactions; the invariant \<open>sm_wf\<close> and its preservation.
  \<^item> \<open>Mvcc_Traces\<close>: runs of manager calls. Ids are issued once, snapshots are stable, and the vacuum cutoff
    respects guards and open transactions.
  \<^item> \<open>Serializable_Tracking\<close>: read and write sets, dangerous structures; write skew is refused when
    the first transaction has committed before the second is checked, and the orders in which it is not.
  \<^item> \<open>Transaction_State\<close>, \<open>Read_Resolver\<close>, \<open>Txn_Isolation\<close>: begin, commit, rollback and savepoints of a
    connection, the resolution of a row to a version, and snapshot isolation over interleaved connections.

  \<^bold>\<open>Storage.\<close>
  \<^item> \<open>Byte_Codec\<close>: readers over byte strings, with the relation \<open>reads\<close> for decoders that return what was
    encoded and report every proper prefix.
  \<^item> \<open>Page_Ownership_Journal\<close>, \<open>Wal_Record\<close>: the record formats, with round trips and torn records.
  \<^item> \<open>Wal_Log\<close>, \<open>Wal_Reopen\<close>: the log writer and reader; synced records survive a crash, and what happens to
    records appended behind a torn tail.
  \<^item> \<open>Group_Commit\<close>: the commit coordinator as interleaved critical sections of committers, flusher, forced
    syncs, truncation and the release of the ownership journal; acknowledged commits are durable unless a flush
    failed before, waiting commits can complete, ownership records stay until every transition is complete.
  \<^item> \<open>Slotted_Page\<close>: the page layout refines a list of cells; search and checksums.
  \<^item> \<open>Page_Store\<close>: the page-store interface, the free list and the pager over its page cache; whatever the cache
    evicts, numbers are given out once and pages read as last written. A page that was given out and not yet
    written reads as the source has it, a checksum error included.
  \<^item> \<open>Overflow_Chain\<close>: chains of overflow pages, the value codec and the layout of values, with their round trip.
  \<^item> \<open>Btree_Page\<close>: leaf and interior pages of the B-tree; search, insertion, deletion and rebuilding act on a page
    as on a list of entries.
  \<^item> \<open>Wal_Recovery\<close>: checkpoint and recovery against the redo specification. A checkpoint is the list of its
    calls on data file and log; recovery after a crash at any of them is compared with the full checkpoint.

  \<^bold>\<open>Cluster.\<close>
  \<^item> \<open>Range_Bounds\<close>: half-open key ranges, their intersection and split.
  \<^item> \<open>Fencing\<close>: the contract of a fencing token, as a locale; the catalog is an instance of it.
  \<^item> \<open>Shard_Catalog\<close>: ownership entries, their transitions, the catalog's write path, routing and the public
    write gate; routing is unambiguous, replicas converge, an epoch has one writer; the range split and what
    becomes of it when its two updates are delivered in either order.
  \<^item> \<open>Placement_Authority\<close>: the assignment of collection groups to placement authorities.
  \<^item> \<open>Ownership_Lease\<close>: leases over catalog ownership and the durable write gate; a deposed owner is fenced.

  \<^bold>\<open>Replication.\<close>
  \<^item> \<open>Election\<close>, \<open>Election_Safety\<close>: voters with a durable last vote and the candidate's coordinator; one
    primary per term over a cluster of voters with a lossy network, and what it takes of the candidate, whose
    own vote the coordinator does not record.
  \<^item> \<open>Logical_Wal\<close>, \<open>Wal_Spool\<close>: the frames of the logical log and its repair; the primary's memory buffer and
    file-backed spool. Indexed reads are exact, acknowledged records survive a crash, and which torn tails do not.
  \<^item> \<open>Primary_Replication\<close>: the primary's registry, replication slots, retention and pruning, and the pulls of
    replicas; a replica with a valid slot reads the log without a gap, and what a pull from an empty log skips.
  \<^item> \<open>Commit_Waiter\<close>, \<open>Commit_Quorum\<close>: acknowledged positions, the commit watermark, the waiting loops, quorums
    and the commit policies; a commit told that its quorum was reached was acknowledged by that many replicas.

  \<^bold>\<open>Interfaces.\<close> Locales state what one part relies on in another and are interpreted on the model's own
  definitions: \<open>xid_allocator\<close> and \<open>snapshot_source\<close> on the snapshot manager, \<open>codec\<close> on the record formats,
  \<open>cell_store\<close> on the slotted page, \<open>page_keeping\<close> and, through a sublocale, \<open>paging\<close> on the pager, \<open>fencing\<close> on the ownership catalog,
  \<open>election_transport\<close> on a cluster of voters, \<open>wal_source\<close> on the memory buffer, the spool and the primary's
  log.

  \<^bold>\<open>Bounds.\<close> No function uses fuel: loops of the source are structural recursion, folds, or recursion with
  a termination proof (the log scan shrinks its input). The walk over an overflow chain follows numbers read from
  pages and is a partial function; that it returns on every stored chain is proved. The loops that wait for replicas may run forever and are
  partial functions over the sequence of what they see at each wake-up; that they return under a running clock
  is proved. Hypotheses that exclude counter overflow name the
  64-bit bound; where the code detects the overflow (catalog versions) none is needed.

  \<^bold>\<open>Not modelled.\<close> The query language and its execution, the entity manager and index structures,
  authentication, the network protocols, and everything that is mainly calls to other packages. In the
  modelled parts: the preallocation and sync-method bookkeeping of the log writer, the commit window's clock,
  the log rewrite that retains runtime records, the file format of
  the last-vote store and of the slot catalog, the JSON codec of change records (an argument), the long-poll
  wake-up of pulls, and the display and constructor code of identifiers.
\<close>

end
